(* ===== verification/Actor_Prelude.thy ===== *)
theory Actor_Prelude
  imports Main "HOL-Library.Word"
begin

text \<open>
  Prelude of the development: the machine types of the code base, the fact collections the
  component theories extend, and the generic facts on words and lists that several of them
  share.
\<close>

unbundle bit_operations_syntax

section \<open>Machine types\<close>

type_synonym u8 = "8 word"
type_synonym u16 = "16 word"
type_synonym u32 = "32 word"
type_synonym u64 = "64 word"

section \<open>Fact collections\<close>

named_theorems mid_defs \<open>definitions of the operations on message ids\<close>

section \<open>Words\<close>

text \<open>Extracting a bit field with a shifted mask is a shift followed by an unshifted mask.\<close>

lemma drop_bit_and_push_mask:
  "drop_bit n (x AND push_bit n (mask m)) = drop_bit n x AND (mask m :: 'a::len word)"
  if "n + m \<le> LENGTH('a)"
  using that by (intro bit_word_eqI) (auto simp: bit_simps)

lemma unat_drop_bit_and_mask:
  "unat (drop_bit n (x :: 'a::len word) AND mask m) = unat x div 2 ^ n mod 2 ^ m"
  by (simp add: unsigned_take_bit_eq unat_drop_bit_eq drop_bit_eq_div [where 'a = nat]
      take_bit_eq_mod [where 'a = nat] flip: take_bit_eq_mask)

lemma unat_ucast_up:
  "LENGTH('a) \<le> LENGTH('b) \<Longrightarrow> unat (ucast (x :: 'a::len word) :: 'b::len word) = unat x"
proof -
  assume "LENGTH('a) \<le> LENGTH('b)"
  then have "(2 :: nat) ^ LENGTH('a) \<le> 2 ^ LENGTH('b)" by (simp add: power_increasing)
  moreover have "unat x < 2 ^ LENGTH('a)" by (rule unsigned_less)
  ultimately have "unat x < 2 ^ LENGTH('b)" by linarith
  then show ?thesis by (simp add: unsigned_ucast_eq take_bit_nat_eq_self_iff)
qed

lemma word_eq_iff_bits: "a = b \<longleftrightarrow> (\<forall>n < LENGTH('a). bit a n = bit (b :: 'a::len word) n)"
  by (auto intro: bit_word_eqI)

text \<open>A value below a power of two has no bit from there on.\<close>

lemma unat_less_not_bit:
  assumes "unat (b :: 'a::len word) < 2 ^ n" and "n \<le> k"
  shows "\<not> bit b k"
proof -
  have "unat b < 2 ^ k"
    using assms by (meson less_le_trans one_le_numeral power_increasing)
  then have "\<not> bit (unat b) k" by (simp add: bit_iff_odd)
  then show ?thesis by (auto simp: bit_unsigned_iff dest: bit_imp_le_length)
qed

text \<open>Appending a field of fresh low bits is addition as long as nothing overflows.\<close>

lemma unat_push_or:
  fixes a :: "'a::len word"
  assumes "unat a * 2 ^ n < 2 ^ LENGTH('a)" and "unat b < 2 ^ n" and "n < LENGTH('a)"
  shows "unat (push_bit n a OR b) = unat a * 2 ^ n + unat b"
proof -
  have disj: "push_bit n a AND b = 0"
    using assms(2) unat_less_not_bit [of b n] by (intro bit_word_eqI) (auto simp: bit_simps)
  have p: "unat (push_bit n a) = unat a * 2 ^ n"
    using assms(1) by (simp add: unsigned_push_bit_eq push_bit_eq_mult [where 'a = nat]
        take_bit_eq_mod [where 'a = nat])
  have "unat a * 2 ^ n + unat b < 2 ^ LENGTH('a)"
  proof -
    have "Suc (unat a) * 2 ^ n \<le> 2 ^ LENGTH('a)"
    proof -
      have "unat a * 2 ^ n < 2 ^ (LENGTH('a) - n) * 2 ^ n"
        using assms(1,3) by (simp flip: power_add)
      then have "unat a < 2 ^ (LENGTH('a) - n)" by simp
      then have "Suc (unat a) * 2 ^ n \<le> 2 ^ (LENGTH('a) - n) * 2 ^ n"
        by (meson Suc_leI mult_le_mono1)
      then show ?thesis using assms(3) by (simp flip: power_add)
    qed
    then show ?thesis using assms(2) by simp
  qed
  then show ?thesis
    using disj p by (simp add: disjunctive_add_eq_or [symmetric] unat_word_ariths)
qed

end
