(* ===== verification/Single_Reader_Queue.thy ===== *)
theory Single_Reader_Queue
  imports Actor_Prelude "HOL-Library.Multiset"
begin

text \<open>
  The mailbox \<^verbatim>\<open>single_reader_queue\<close> as seen by one thread at a time: every operation runs
  without interference, and the linked structures are lists.  The atomic pointer
  \<^verbatim>\<open>stack_\<close> is null (closed), one of two dummies (empty, reader blocked) or points to the newest
  element; \<^verbatim>\<open>head_\<close> holds elements the owner has already fetched; the cache has two partitions.
  The interleaving of several producers with the reader is the subject of theory
  \<^verbatim>\<open>Queue_Concurrency\<close>.  Assertions of the source are not part of the release build and are
  stated as the separate predicate \<open>fetch_asserts\<close>.
\<close>

datatype enqueue_result = success | unblocked_reader | queue_closed

datatype 'a stack = Closed | Empty | Blocked | Elems "'a list"

record 'a srq =
  stk :: "'a stack"
  hd_list :: "'a list"
  cache_first :: "'a list"
  cache_second :: "'a list"

definition srq_init :: "'a srq" where
  "srq_init = \<lparr>stk = Empty, hd_list = [], cache_first = [], cache_second = []\<rparr>"

definition is_dummy :: "'a stack \<Rightarrow> bool" where
  "is_dummy s \<longleftrightarrow> s = Empty \<or> s = Blocked"

definition enqueue :: "'a srq \<Rightarrow> 'a \<Rightarrow> enqueue_result \<times> 'a srq" where
  "enqueue q e =
     (case stk q of
        Closed \<Rightarrow> (queue_closed, q)
      | Empty \<Rightarrow> (success, q\<lparr>stk := Elems [e]\<rparr>)
      | Blocked \<Rightarrow> (unblocked_reader, q\<lparr>stk := Elems [e]\<rparr>)
      | Elems xs \<Rightarrow> (success, q\<lparr>stk := Elems (e # xs)\<rparr>))"

definition can_fetch_more :: "'a srq \<Rightarrow> bool" where
  "can_fetch_more q \<longleftrightarrow> (if hd_list q \<noteq> [] then True else \<not> is_dummy (stk q))"

definition closed :: "'a srq \<Rightarrow> bool" where
  "closed q \<longleftrightarrow> stk q = Closed"

definition blocked :: "'a srq \<Rightarrow> bool" where
  "blocked q \<longleftrightarrow> stk q = Blocked"

definition empty_srq :: "'a srq \<Rightarrow> bool" where
  "empty_srq q \<longleftrightarrow> cache_first q = [] \<and> cache_second q = [] \<and> hd_list q = [] \<and> is_dummy (stk q)"

definition try_block :: "'a srq \<Rightarrow> bool \<times> 'a srq" where
  "try_block q = (if stk q = Empty then (True, q\<lparr>stk := Blocked\<rparr>) else (stk q = Blocked, q))"

definition try_unblock :: "'a srq \<Rightarrow> bool \<times> 'a srq" where
  "try_unblock q = (if stk q = Blocked then (True, q\<lparr>stk := Empty\<rparr>) else (False, q))"

text \<open>\<^verbatim>\<open>fetch_new_data(end_ptr)\<close>: \<open>fin\<close> is \<open>Closed\<close> when closing the queue, \<open>Empty\<close> otherwise.\<close>

definition fetch_asserts :: "'a stack \<Rightarrow> 'a srq \<Rightarrow> bool" where
  "fetch_asserts fin q \<longleftrightarrow> (fin = Closed \<or> fin = Empty) \<and> stk q \<noteq> Closed \<and> stk q \<noteq> Blocked"

fun move_to_head :: "'a list \<Rightarrow> 'a list \<Rightarrow> 'a list" where
  "move_to_head [] hds = hds"
| "move_to_head (e # es) hds = move_to_head es (e # hds)"

definition fetch_new_data_to :: "'a stack \<Rightarrow> 'a srq \<Rightarrow> bool \<times> 'a srq" where
  "fetch_new_data_to fin q =
     (if stk q = fin then (False, q)
      else (case stk q of
              Elems xs \<Rightarrow> (True, q\<lparr>stk := fin, hd_list := move_to_head xs (hd_list q)\<rparr>)
            | Closed \<Rightarrow> (True, q\<lparr>stk := fin\<rparr>)
            | _ \<Rightarrow> (False, q\<lparr>stk := fin\<rparr>)))"

definition fetch_new_data :: "'a srq \<Rightarrow> bool \<times> 'a srq" where
  "fetch_new_data q = fetch_new_data_to Empty q"

text \<open>
  Popping from a closed queue violates the precondition of \<^verbatim>\<open>fetch_new_data\<close> and ends in a null
  dereference of \<^verbatim>\<open>head_->next\<close>, which is the outer \<^const>\<open>None\<close>.
\<close>

definition take_head :: "'a srq \<Rightarrow> ('a option \<times> 'a srq) option" where
  "take_head q =
     (let (ok, q') = (if hd_list q \<noteq> [] then (True, q) else fetch_new_data q)
      in if ok then (case hd_list q' of
                       [] \<Rightarrow> None
                     | x # xs \<Rightarrow> Some (Some x, q'\<lparr>hd_list := xs\<rparr>))
         else Some (None, q'))"

definition try_pop :: "'a srq \<Rightarrow> ('a option \<times> 'a srq) option" where
  "try_pop q = take_head q"

text \<open>\<^verbatim>\<open>clear_cached_elements(f)\<close> visits and deletes the elements of \<^verbatim>\<open>head_\<close>.\<close>

fun clear_cached_elements :: "('a \<Rightarrow> 's \<Rightarrow> 's) \<Rightarrow> 'a list \<Rightarrow> 's \<Rightarrow> 's" where
  "clear_cached_elements f [] s = s"
| "clear_cached_elements f (x # xs) s = clear_cached_elements f xs (f x s)"

definition close_srq :: "('a \<Rightarrow> 's \<Rightarrow> 's) \<Rightarrow> 'a srq \<Rightarrow> 's \<Rightarrow> 'a srq \<times> 's" where
  "close_srq f q s =
     (let s1 = clear_cached_elements f (hd_list q) s;
          q1 = q\<lparr>hd_list := []\<rparr>;
          (fetched, q2) = fetch_new_data_to Closed q1;
          (s2, q3) = (if fetched then (clear_cached_elements f (hd_list q2) s1, q2\<lparr>hd_list := []\<rparr>)
                      else (s1, q2))
      in (q3\<lparr>cache_first := [], cache_second := []\<rparr>,
          fold f (cache_second q3) (fold f (cache_first q3) s2)))"

fun count_from :: "'a list \<Rightarrow> nat \<Rightarrow> nat \<Rightarrow> nat" where
  "count_from [] res max_count = res"
| "count_from (x # xs) res max_count =
     (if res < max_count then count_from xs (Suc res) max_count else res)"

definition count_srq :: "'a srq \<Rightarrow> nat \<Rightarrow> nat \<times> 'a srq" where
  "count_srq q max_count =
     (let res = min max_count (length (cache_first q) + length (cache_second q))
      in if res \<ge> max_count then (res, q)
         else (let (_, q') = fetch_new_data q in (count_from (hd_list q') res max_count, q')))"

text \<open>
  Synchronized access for actors that live in a thread of their own: the first component says
  whether the condition variable is notified.
\<close>

definition synchronized_enqueue :: "'a srq \<Rightarrow> 'a \<Rightarrow> bool \<times> bool \<times> 'a srq" where
  "synchronized_enqueue q e =
     (case enqueue q e of
        (unblocked_reader, q') \<Rightarrow> (True, True, q')
      | (success, q') \<Rightarrow> (False, True, q')
      | (queue_closed, q') \<Rightarrow> (False, False, q'))"

text \<open>
  \<^verbatim>\<open>synchronized_await\<close> goes to sleep (first component) unless there is data or the queue left
  the empty state; the timed variant unblocks itself when the timeout fires and reports whether
  data arrived in the meantime.
\<close>

definition synchronized_await :: "'a srq \<Rightarrow> bool \<times> 'a srq" where
  "synchronized_await q =
     (if \<not> can_fetch_more q then try_block q else (False, q))"

definition await_timeout :: "'a srq \<Rightarrow> bool \<times> 'a srq" where
  "await_timeout q =
     (if blocked q then (let (unblocked, q') = try_unblock q in (\<not> unblocked, q')) else (True, q))"

section \<open>Contents\<close>

text \<open>The abstract queue: what the reader still has to see, oldest element first.\<close>

fun stack_list :: "'a stack \<Rightarrow> 'a list" where
  "stack_list (Elems xs) = xs"
| "stack_list _ = []"

definition contents :: "'a srq \<Rightarrow> 'a list" where
  "contents q = hd_list q @ rev (stack_list (stk q))"

definition wf_srq :: "'a srq \<Rightarrow> bool" where
  "wf_srq q \<longleftrightarrow> stk q \<noteq> Elems []"

lemma move_to_head_rev [simp]: "move_to_head xs hds = rev xs @ hds"
  by (induction xs arbitrary: hds) auto

lemma clear_cached_fold [simp]: "clear_cached_elements f xs s = fold f xs s"
  by (induction xs arbitrary: s) auto

lemma count_from_min: "count_from xs res m = (if res < m then min m (res + length xs) else res)"
  by (induction xs arbitrary: res) auto

lemma wf_init [simp]: "wf_srq srq_init"
  by (simp add: wf_srq_def srq_init_def)

lemma enqueue_cases:
  "enqueue q e = (r, q') \<Longrightarrow>
     (if closed q then r = queue_closed \<and> q' = q
      else r = (if blocked q then unblocked_reader else success)
        \<and> contents q' = contents q @ [e] \<and> cache_first q' = cache_first q
        \<and> cache_second q' = cache_second q \<and> \<not> closed q' \<and> \<not> blocked q' \<and> wf_srq q')"
  by (auto simp: enqueue_def closed_def blocked_def contents_def wf_srq_def split: stack.splits)

lemma try_pop_cases:
  assumes "wf_srq q" and "\<not> closed q"
  shows "\<exists>r q'. try_pop q = Some (r, q')
    \<and> (case contents q of
         [] \<Rightarrow> r = None \<and> contents q' = []
       | x # xs \<Rightarrow> r = Some x \<and> contents q' = xs)
    \<and> wf_srq q' \<and> \<not> closed q'
    \<and> cache_first q' = cache_first q \<and> cache_second q' = cache_second q
    \<and> (contents q \<noteq> [] \<longrightarrow> \<not> blocked q \<longrightarrow> \<not> blocked q')"
  using assms
  by (auto simp: try_pop_def take_head_def fetch_new_data_def fetch_new_data_to_def contents_def
      wf_srq_def closed_def blocked_def Let_def split: stack.splits list.splits if_splits)

lemma close_srq_visits:
  assumes "wf_srq q"
  shows "close_srq f q s =
     (q\<lparr>stk := Closed, hd_list := [], cache_first := [], cache_second := []\<rparr>,
      fold f (contents q @ cache_first q @ cache_second q) s)"
  using assms
  by (auto simp: close_srq_def fetch_new_data_to_def contents_def wf_srq_def Let_def
      split: stack.splits if_splits)

lemma count_srq_value:
  assumes "\<not> closed q"
  shows "fst (count_srq q m) =
     min m (length (cache_first q) + length (cache_second q) + length (contents q))"
  using assms
  by (auto simp: count_srq_def fetch_new_data_def fetch_new_data_to_def contents_def count_from_min
      closed_def Let_def split: stack.splits if_splits)

section \<open>The interface actors rely on\<close>

text \<open>
  What producers and the owner do with a mailbox, in any order: enqueue an element, try to pop one,
  or announce that the owner wants to block.
\<close>

datatype 'a mailbox_op = Enq 'a | Pop | Block

fun run_ops :: "('q \<Rightarrow> 'a \<Rightarrow> bool \<times> 'q) \<Rightarrow> ('q \<Rightarrow> ('a option \<times> 'q) option) \<Rightarrow> ('q \<Rightarrow> bool \<times> 'q)
    \<Rightarrow> 'a mailbox_op list \<Rightarrow> 'q \<Rightarrow> (bool list \<times> 'a option list \<times> 'q) option" where
  "run_ops enq pop block [] q = Some ([], [], q)"
| "run_ops enq pop block (Enq e # ops) q =
     (let (ok, q') = enq q e
      in map_option (\<lambda>(oks, rs, q''). (ok # oks, rs, q'')) (run_ops enq pop block ops q'))"
| "run_ops enq pop block (Pop # ops) q =
     (case pop q of
        None \<Rightarrow> None
      | Some (r, q') \<Rightarrow> map_option (\<lambda>(oks, rs, q''). (oks, r # rs, q'')) (run_ops enq pop block ops q'))"
| "run_ops enq pop block (Block # ops) q = run_ops enq pop block ops (snd (block q))"

text \<open>Popping up to \<open>n\<close> elements in a row.\<close>

fun pop_list :: "('q \<Rightarrow> ('a option \<times> 'q) option) \<Rightarrow> nat \<Rightarrow> 'q \<Rightarrow> ('a list \<times> 'q) option" where
  "pop_list pop 0 q = Some ([], q)"
| "pop_list pop (Suc n) q =
     (case pop q of
        Some (Some x, q') \<Rightarrow> map_option (\<lambda>(xs, q''). (x # xs, q'')) (pop_list pop n q')
      | Some (None, q') \<Rightarrow> Some ([], q')
      | None \<Rightarrow> None)"

text \<open>The specification: the same operations on a list.\<close>

fun fifo_run :: "'a mailbox_op list \<Rightarrow> 'a list \<Rightarrow> 'a option list \<times> 'a list" where
  "fifo_run [] xs = ([], xs)"
| "fifo_run (Enq e # ops) xs = fifo_run ops (xs @ [e])"
| "fifo_run (Pop # ops) [] = (let (rs, ys) = fifo_run ops [] in (None # rs, ys))"
| "fifo_run (Pop # ops) (x # xs) = (let (rs, ys) = fifo_run ops xs in (Some x # rs, ys))"
| "fifo_run (Block # ops) xs = fifo_run ops xs"

fun enqueued :: "'a mailbox_op list \<Rightarrow> 'a list" where
  "enqueued [] = []"
| "enqueued (Enq e # ops) = e # enqueued ops"
| "enqueued (_ # ops) = enqueued ops"

abbreviation popped :: "'a option list \<Rightarrow> 'a list" where
  "popped rs \<equiv> List.map_filter (\<lambda>r. r) rs"

lemma fifo_run_conserves:
  "popped (fst (fifo_run ops xs)) @ snd (fifo_run ops xs) = xs @ enqueued ops"
  by (induction ops xs rule: fifo_run.induct) (auto simp: List.map_filter_simps split: prod.splits)

text \<open>
  A mailbox is a first-in first-out queue that can be closed: enqueueing appends unless the
  mailbox is closed, popping removes the front, closing hands out everything that is left.
\<close>

locale fifo_mailbox =
  fixes invar :: "'q \<Rightarrow> bool"
    and items :: "'q \<Rightarrow> 'a list"
    and is_closed :: "'q \<Rightarrow> bool"
    and enq :: "'q \<Rightarrow> 'a \<Rightarrow> bool \<times> 'q"
    and pop :: "'q \<Rightarrow> ('a option \<times> 'q) option"
    and block :: "'q \<Rightarrow> bool \<times> 'q"
    and drain :: "'q \<Rightarrow> 'a list \<times> 'q"
  assumes enq_open: "invar q \<Longrightarrow> \<not> is_closed q \<Longrightarrow> enq q e = (ok, q') \<Longrightarrow>
      ok \<and> items q' = items q @ [e] \<and> invar q' \<and> \<not> is_closed q'"
    and enq_closed: "is_closed q \<Longrightarrow> enq q e = (False, q)"
    and pop_open: "invar q \<Longrightarrow> \<not> is_closed q \<Longrightarrow> \<exists>r q'. pop q = Some (r, q') \<and> invar q' \<and> \<not> is_closed q'
      \<and> (case items q of [] \<Rightarrow> r = None \<and> items q' = [] | x # xs \<Rightarrow> r = Some x \<and> items q' = xs)"
    and block_open: "invar q \<Longrightarrow> \<not> is_closed q \<Longrightarrow> block q = (ok, q') \<Longrightarrow>
      items q' = items q \<and> invar q' \<and> \<not> is_closed q'"
    and drain_all: "invar q \<Longrightarrow> drain q = (xs, q') \<Longrightarrow>
      xs = items q \<and> items q' = [] \<and> is_closed q' \<and> invar q'"
begin

text \<open>Any sequence of operations behaves as on the list, and no enqueue operation is rejected.\<close>

lemma run_ops_fifo:
  "invar q \<Longrightarrow> \<not> is_closed q \<Longrightarrow>
     \<exists>q'. run_ops enq pop block ops q
         = Some (replicate (length (enqueued ops)) True, fst (fifo_run ops (items q)), q')
       \<and> items q' = snd (fifo_run ops (items q)) \<and> invar q' \<and> \<not> is_closed q'"
proof (induction ops arbitrary: q)
  case (Cons x ops)
  show ?case
  proof (cases x)
    case (Enq e)
    obtain ok q1 where e: "enq q e = (ok, q1)" by (cases "enq q e")
    with enq_open [OF Cons.prems e] Cons.IH [of q1] Enq show ?thesis by auto
  next
    case Pop
    obtain r q1 where p: "pop q = Some (r, q1)" "invar q1" "\<not> is_closed q1"
      "case items q of [] \<Rightarrow> r = None \<and> items q1 = [] | x # xs \<Rightarrow> r = Some x \<and> items q1 = xs"
      using pop_open [OF Cons.prems] by blast
    with Cons.IH [of q1] Pop show ?thesis by (cases "items q") (auto split: prod.splits)
  next
    case Block
    obtain ok q1 where b: "block q = (ok, q1)" by (cases "block q")
    with block_open [OF Cons.prems b] Cons.IH [of q1] Block show ?thesis by auto
  qed
qed simp

text \<open>Whatever was accepted comes out once, in order: first what is popped, then what is drained.\<close>

lemma accepted_comes_out:
  assumes "invar q" and "\<not> is_closed q" and "items q = []"
  shows "\<exists>oks rs q2 rest q3. run_ops enq pop block ops q = Some (oks, rs, q2) \<and> drain q2 = (rest, q3)
    \<and> list_all (\<lambda>ok. ok) oks \<and> (rs, rest) = fifo_run ops [] \<and> popped rs @ rest = enqueued ops
    \<and> is_closed q3 \<and> enq q3 e = (False, q3)"
proof -
  obtain q2 where 2: "run_ops enq pop block ops q
      = Some (replicate (length (enqueued ops)) True, fst (fifo_run ops []), q2)"
    "items q2 = snd (fifo_run ops [])" "invar q2"
    using run_ops_fifo [OF assms(1,2), of ops] assms(3) by auto
  obtain rest q3 where 3: "drain q2 = (rest, q3)" by (cases "drain q2")
  from drain_all [OF 2(3) 3] enq_closed [of q3] 2 3 fifo_run_conserves [of ops "[]"] show ?thesis
    by (auto simp: list_all_iff prod_eq_iff)
qed

end

text \<open>The queue with its two caches empty is such a mailbox.\<close>

definition srq_invar :: "'a srq \<Rightarrow> bool" where
  "srq_invar q \<longleftrightarrow> wf_srq q \<and> cache_first q = [] \<and> cache_second q = []"

definition srq_enq :: "'a srq \<Rightarrow> 'a \<Rightarrow> bool \<times> 'a srq" where
  "srq_enq q e = (let (r, q') = enqueue q e in (r \<noteq> queue_closed, q'))"

definition srq_drain :: "'a srq \<Rightarrow> 'a list \<times> 'a srq" where
  "srq_drain q = (let (q', s) = close_srq (\<lambda>x s. s @ [x]) q [] in (s, q'))"

lemma fold_snoc: "fold (\<lambda>x s. s @ [x]) xs s = s @ xs"
  by (induction xs arbitrary: s) auto

interpretation srq: fifo_mailbox srq_invar contents closed srq_enq try_pop try_block srq_drain
proof unfold_locales
  fix q :: "'a srq" and e ok q'
  assume "srq_invar q" "\<not> closed q" "srq_enq q e = (ok, q')"
  then show "ok \<and> contents q' = contents q @ [e] \<and> srq_invar q' \<and> \<not> closed q'"
    using enqueue_cases [of q e "fst (enqueue q e)" q']
    by (auto simp: srq_enq_def srq_invar_def split: prod.splits if_splits)
next
  fix q :: "'a srq" and e
  assume "closed q"
  then show "srq_enq q e = (False, q)"
    by (simp add: srq_enq_def enqueue_def closed_def)
next
  fix q :: "'a srq"
  assume "srq_invar q" "\<not> closed q"
  then show "\<exists>r q'. try_pop q = Some (r, q') \<and> srq_invar q' \<and> \<not> closed q' \<and>
      (case contents q of [] \<Rightarrow> r = None \<and> contents q' = []
       | x # xs \<Rightarrow> r = Some x \<and> contents q' = xs)"
    using try_pop_cases [of q] by (auto simp: srq_invar_def)
next
  fix q :: "'a srq" and ok q'
  assume "srq_invar q" "\<not> closed q" "try_block q = (ok, q')"
  then show "contents q' = contents q \<and> srq_invar q' \<and> \<not> closed q'"
    by (auto simp: try_block_def srq_invar_def wf_srq_def closed_def contents_def split: if_splits)
next
  fix q :: "'a srq" and xs q'
  assume "srq_invar q" "srq_drain q = (xs, q')"
  then show "xs = contents q \<and> contents q' = [] \<and> closed q' \<and> srq_invar q'"
    by (auto simp: srq_invar_def srq_drain_def close_srq_visits fold_snoc contents_def closed_def
        wf_srq_def)
qed


section \<open>Properties\<close>

text \<open>
  C8: starting from an empty mailbox, whatever the order in which elements are enqueued, popped and
  the owner tries to block, every enqueue operation is accepted, every pop returns the oldest
  element that is still waiting (nothing if there is none) and \<^verbatim>\<open>close\<close> hands the remaining elements
  to its visitor: the popped and the visited elements together are the enqueued ones, once each and
  in their order; afterwards the mailbox is closed and rejects everything.
\<close>

theorem mailbox_delivers_in_order:
  "\<exists>oks rs q2 rest q3. run_ops srq_enq try_pop try_block ops srq_init = Some (oks, rs, q2)
    \<and> srq_drain q2 = (rest, q3) \<and> list_all (\<lambda>ok. ok) oks \<and> (rs, rest) = fifo_run ops []
    \<and> popped rs @ rest = enqueued ops \<and> closed q3 \<and> srq_enq q3 e = (False, q3)"
proof -
  have init: "srq_invar srq_init" "\<not> closed srq_init" "contents srq_init = []"
    by (simp_all add: srq_invar_def closed_def contents_def srq_init_def wf_srq_def)
  from srq.accepted_comes_out [OF init] show ?thesis .
qed

theorem mailbox_delivers_in_order_witness:
  "\<exists>oks q2 rest q3. run_ops srq_enq try_pop try_block
      [Pop, Block, Enq 1, Enq 2, Pop, Enq 3, Pop, Enq (4 :: nat)] srq_init
      = Some (oks, [None, Some 1, Some 2], q2)
    \<and> srq_drain q2 = (rest, q3) \<and> rest = [3, 4] \<and> closed q3"
  using mailbox_delivers_in_order
    [of "[Pop, Block, Enq 1, Enq 2, Pop, Enq 3, Pop, Enq (4 :: nat)]" 5] by auto

text \<open>
  The result of \<^verbatim>\<open>enqueue\<close> tells the caller exactly what it must do: \<open>queue_closed\<close> iff the
  queue was closed (and then nothing changed), \<open>unblocked_reader\<close> iff the reader was blocked, so a
  second enqueue never asks for another wake-up; \<^verbatim>\<open>try_block\<close> succeeds iff no element is waiting in
  the stack of an open queue, and \<^verbatim>\<open>try_unblock\<close> undoes exactly a block.
\<close>

lemma enqueue_result_correct:
  "(fst (enqueue q e) = queue_closed \<longleftrightarrow> closed q)
   \<and> (fst (enqueue q e) = unblocked_reader \<longleftrightarrow> blocked q)
   \<and> fst (enqueue (snd (enqueue q e)) e') \<noteq> unblocked_reader
   \<and> (fst (try_block q) \<longleftrightarrow> is_dummy (stk q))
   \<and> blocked (snd (try_block q)) = fst (try_block q)
   \<and> (fst (try_unblock q) \<longleftrightarrow> blocked q)
   \<and> contents (snd (try_block q)) = contents q \<and> contents (snd (try_unblock q)) = contents q
   \<and> fst (synchronized_enqueue q e) = blocked q
   \<and> fst (snd (synchronized_enqueue q e)) = (\<not> closed q)"
  by (auto simp: enqueue_def closed_def blocked_def try_block_def try_unblock_def is_dummy_def
      contents_def synchronized_enqueue_def split: stack.splits)

text \<open>
  \<^verbatim>\<open>count\<close> returns the number of cached and waiting elements, capped at its argument, but it
  is not a query: unless the caches alone reach the cap it fetches, and when \<^verbatim>\<open>head_\<close> still holds
  older elements the newer ones end up in front of them.
\<close>

lemma count_reorders:
  assumes "\<not> closed q" and "\<not> blocked q"
  shows "fst (count_srq q m)
      = min m (length (cache_first q) + length (cache_second q) + length (contents q))
    \<and> contents (snd (count_srq q m))
      = (if length (cache_first q) + length (cache_second q) < m
         then rev (stack_list (stk q)) @ hd_list q else contents q)"
  using count_srq_value [OF assms(1)] assms
  by (auto simp: count_srq_def fetch_new_data_def fetch_new_data_to_def contents_def closed_def
      blocked_def Let_def split: stack.splits if_splits)

lemma count_reorders_witness:
  "let q = (srq_init :: nat srq)\<lparr>stk := Elems [3], hd_list := [1, 2]\<rparr>
   in fst (count_srq q 100) = 3 \<and> contents q = [1, 2, 3] \<and> contents (snd (count_srq q 100)) = [3, 1, 2]"
  using count_reorders [of "(srq_init :: nat srq)\<lparr>stk := Elems [3], hd_list := [1, 2]\<rparr>" 100]
  by (simp add: srq_init_def closed_def blocked_def contents_def)

end
