(* ===== verification/Queue_Concurrency.thy ===== *)
theory Queue_Concurrency
  imports Single_Reader_Queue
begin

text \<open>
  The lock-free protocol of \<^verbatim>\<open>single_reader_queue\<close>: any number of producers run \<^verbatim>\<open>enqueue\<close>
  concurrently with the one reader, each atomic operation of the source being one step.  Nodes
  are addresses with a \<^verbatim>\<open>next\<close> field; an address that was popped may be reused by a producer at
  any time, so the compare-and-swap operations are subject to the ABA phenomenon.  Ghost fields
  record what was enqueued, popped and visited by \<^verbatim>\<open>close\<close>, and count the blocks and wake-ups of
  the reader.  The reader may also call \<^verbatim>\<open>count\<close>, which fetches although \<^verbatim>\<open>head_\<close> still holds
  elements; the ghost flag \<open>overtaken\<close> records that such a fetch put newer elements in front of older
  ones.
\<close>

section \<open>States\<close>

type_synonym naddr = nat

datatype qptr = Null | Empty_Dummy | Blocked_Dummy | Node naddr

definition is_dummy_ptr :: "qptr \<Rightarrow> bool" where
  "is_dummy_ptr p \<longleftrightarrow> p = Empty_Dummy \<or> p = Blocked_Dummy"

text \<open>Where a producer is inside \<^verbatim>\<open>enqueue\<close>: about to load, in the loop head, before the CAS.\<close>

datatype producer = P_Idle | P_Load naddr | P_Test naddr qptr | P_Cas naddr qptr

text \<open>
  Where the reader is: outside of the queue, in the loop of \<^verbatim>\<open>fetch_new_data\<close> for \<^verbatim>\<open>take_head\<close> or
  \<^verbatim>\<open>count\<close>, moving fetched nodes to \<^verbatim>\<open>head_\<close>, or at the corresponding points of \<^verbatim>\<open>close\<close>.
\<close>

datatype reader =
    R_Idle | R_Fetch qptr | R_Move qptr
  | R_Clear | R_Close qptr | R_Close_Move qptr | R_Clear2 | R_Closed

record 'v qsys =
  q_stack :: qptr
  q_head :: qptr
  q_next :: "naddr \<Rightarrow> qptr"
  q_val :: "naddr \<Rightarrow> 'v"
  q_prod :: "nat \<Rightarrow> producer"
  q_reader :: reader
  enq_log :: "'v list"
  deq_log :: "'v list"
  bounced :: "'v list"
  rejected :: "'v list"
  n_blocks :: nat
  n_wakeups :: nat
  n_unblocks :: nat
  overtaken :: bool

definition init_qsys :: "'v \<Rightarrow> 'v qsys" where
  "init_qsys v = \<lparr>q_stack = Empty_Dummy, q_head = Null, q_next = (\<lambda>_. Null), q_val = (\<lambda>_. v),
     q_prod = (\<lambda>_. P_Idle), q_reader = R_Idle, enq_log = [], deq_log = [], bounced = [],
     rejected = [], n_blocks = 0, n_wakeups = 0, n_unblocks = 0,
     overtaken = False\<rparr>"

fun p_elem :: "producer \<Rightarrow> naddr option" where
  "p_elem P_Idle = None"
| "p_elem (P_Load a) = Some a"
| "p_elem (P_Test a e) = Some a"
| "p_elem (P_Cas a e) = Some a"

text \<open>The nodes of a \<^verbatim>\<open>next\<close> chain.\<close>

fun path :: "(naddr \<Rightarrow> qptr) \<Rightarrow> qptr \<Rightarrow> naddr list \<Rightarrow> bool" where
  "path n p [] \<longleftrightarrow> p = Null"
| "path n p (a # as) \<longleftrightarrow> p = Node a \<and> path n (n a) as"

definition stack_path :: "(naddr \<Rightarrow> qptr) \<Rightarrow> qptr \<Rightarrow> naddr list \<Rightarrow> bool" where
  "stack_path n p xs \<longleftrightarrow> (if is_dummy_ptr p \<or> p = Null then xs = [] else xs \<noteq> [] \<and> path n p xs)"

fun move_ptr :: "reader \<Rightarrow> qptr" where
  "move_ptr (R_Move p) = p"
| "move_ptr (R_Close_Move p) = p"
| "move_ptr _ = Null"

text \<open>A node may be handed to \<^verbatim>\<open>enqueue\<close> if nobody else uses it.\<close>

definition unused :: "'v qsys \<Rightarrow> naddr \<Rightarrow> bool" where
  "unused s a \<longleftrightarrow> (\<forall>i. p_elem (q_prod s i) \<noteq> Some a) \<and>
     (\<forall>hs ms xs. path (q_next s) (q_head s) hs \<longrightarrow> path (q_next s) (move_ptr (q_reader s)) ms
        \<longrightarrow> stack_path (q_next s) (q_stack s) xs \<longrightarrow> a \<notin> set (hs @ ms @ xs))"

section \<open>Steps\<close>

inductive qstep :: "'v qsys \<Rightarrow> 'v qsys \<Rightarrow> bool" where
  p_start: "q_prod s i = P_Idle \<Longrightarrow> unused s a \<Longrightarrow>
     qstep s (s\<lparr>q_prod := (q_prod s)(i := P_Load a), q_val := (q_val s)(a := v)\<rparr>)"
| p_load: "q_prod s i = P_Load a \<Longrightarrow>
     qstep s (s\<lparr>q_prod := (q_prod s)(i := P_Test a (q_stack s))\<rparr>)"
| p_closed: "q_prod s i = P_Test a Null \<Longrightarrow>
     qstep s (s\<lparr>q_prod := (q_prod s)(i := P_Idle), rejected := rejected s @ [q_val s a]\<rparr>)"
| p_link: "q_prod s i = P_Test a e \<Longrightarrow> e \<noteq> Null \<Longrightarrow>
     qstep s (s\<lparr>q_prod := (q_prod s)(i := P_Cas a e),
       q_next := (q_next s)(a := if is_dummy_ptr e then Null else e)\<rparr>)"
| p_cas_ok: "q_prod s i = P_Cas a e \<Longrightarrow> q_stack s = e \<Longrightarrow>
     qstep s (s\<lparr>q_prod := (q_prod s)(i := P_Idle), q_stack := Node a,
       enq_log := enq_log s @ [q_val s a],
       n_wakeups := n_wakeups s + (if e = Blocked_Dummy then 1 else 0)\<rparr>)"
| p_cas_fail: "q_prod s i = P_Cas a e \<Longrightarrow> q_stack s \<noteq> e \<Longrightarrow>
     qstep s (s\<lparr>q_prod := (q_prod s)(i := P_Test a (q_stack s))\<rparr>)"
| r_pop: "q_reader s = R_Idle \<Longrightarrow> q_head s = Node a \<Longrightarrow>
     qstep s (s\<lparr>q_head := q_next s a, deq_log := deq_log s @ [q_val s a]\<rparr>)"
| r_load: "q_reader s = R_Idle \<Longrightarrow> q_head s = Null \<Longrightarrow> q_stack s \<noteq> Blocked_Dummy \<Longrightarrow>
     qstep s (s\<lparr>q_reader := R_Fetch (q_stack s)\<rparr>)"
| r_count: "q_reader s = R_Idle \<Longrightarrow> q_stack s \<noteq> Blocked_Dummy \<Longrightarrow>
     qstep s (s\<lparr>q_reader := R_Fetch (q_stack s)\<rparr>)"
| r_nodata: "q_reader s = R_Fetch Empty_Dummy \<Longrightarrow> qstep s (s\<lparr>q_reader := R_Idle\<rparr>)"
| r_fetch_ok: "q_reader s = R_Fetch e \<Longrightarrow> e \<noteq> Empty_Dummy \<Longrightarrow> q_stack s = e \<Longrightarrow>
     qstep s (s\<lparr>q_reader := R_Move e, q_stack := Empty_Dummy,
       overtaken := overtaken s \<or> q_head s \<noteq> Null\<rparr>)"
| r_fetch_fail: "q_reader s = R_Fetch e \<Longrightarrow> e \<noteq> Empty_Dummy \<Longrightarrow>
     qstep s (s\<lparr>q_reader := R_Fetch (q_stack s)\<rparr>)"
| r_move: "q_reader s = R_Move (Node a) \<Longrightarrow>
     qstep s (s\<lparr>q_reader := R_Move (q_next s a), q_next := (q_next s)(a := q_head s),
       q_head := Node a\<rparr>)"
| r_moved: "q_reader s = R_Move Null \<Longrightarrow> qstep s (s\<lparr>q_reader := R_Idle\<rparr>)"
| r_block: "q_reader s = R_Idle \<Longrightarrow> q_stack s = Empty_Dummy \<Longrightarrow>
     qstep s (s\<lparr>q_stack := Blocked_Dummy, n_blocks := n_blocks s + 1\<rparr>)"
| r_unblock: "q_reader s = R_Idle \<Longrightarrow> q_stack s = Blocked_Dummy \<Longrightarrow>
     qstep s (s\<lparr>q_stack := Empty_Dummy, n_unblocks := n_unblocks s + 1\<rparr>)"
| c_start: "q_reader s = R_Idle \<Longrightarrow> q_stack s \<noteq> Blocked_Dummy \<Longrightarrow>
     qstep s (s\<lparr>q_reader := R_Clear\<rparr>)"
| c_clear: "q_reader s = R_Clear \<Longrightarrow> q_head s = Node a \<Longrightarrow>
     qstep s (s\<lparr>q_head := q_next s a, bounced := bounced s @ [q_val s a]\<rparr>)"
| c_load: "q_reader s = R_Clear \<Longrightarrow> q_head s = Null \<Longrightarrow>
     qstep s (s\<lparr>q_reader := R_Close (q_stack s)\<rparr>)"
| c_cas_ok: "q_reader s = R_Close e \<Longrightarrow> q_stack s = e \<Longrightarrow>
     qstep s (s\<lparr>q_reader := (if is_dummy_ptr e then R_Closed else R_Close_Move e), q_stack := Null\<rparr>)"
| c_cas_fail: "q_reader s = R_Close e \<Longrightarrow> qstep s (s\<lparr>q_reader := R_Close (q_stack s)\<rparr>)"
| c_move: "q_reader s = R_Close_Move (Node a) \<Longrightarrow>
     qstep s (s\<lparr>q_reader := R_Close_Move (q_next s a), q_next := (q_next s)(a := q_head s),
       q_head := Node a\<rparr>)"
| c_moved: "q_reader s = R_Close_Move Null \<Longrightarrow> qstep s (s\<lparr>q_reader := R_Clear2\<rparr>)"
| c_clear2: "q_reader s = R_Clear2 \<Longrightarrow> q_head s = Node a \<Longrightarrow>
     qstep s (s\<lparr>q_head := q_next s a, bounced := bounced s @ [q_val s a]\<rparr>)"
| c_done: "q_reader s = R_Clear2 \<Longrightarrow> q_head s = Null \<Longrightarrow> qstep s (s\<lparr>q_reader := R_Closed\<rparr>)"

inductive q_reachable :: "'v qsys \<Rightarrow> 'v qsys \<Rightarrow> bool" for s0 where
  q_init: "q_reachable s0 s0"
| q_step: "q_reachable s0 s \<Longrightarrow> qstep s t \<Longrightarrow> q_reachable s0 t"


section \<open>The invariant\<close>

definition producers_ok ::
  "(nat \<Rightarrow> producer) \<Rightarrow> (naddr \<Rightarrow> qptr) \<Rightarrow> naddr list \<Rightarrow> bool" where
  "producers_ok pr nx used \<longleftrightarrow>
     (\<forall>i a. p_elem (pr i) = Some a \<longrightarrow> a \<notin> set used) \<and>
     (\<forall>i j a. p_elem (pr i) = Some a \<longrightarrow> p_elem (pr j) = Some a \<longrightarrow> i = j) \<and>
     (\<forall>i a e. pr i = P_Cas a e \<longrightarrow>
        e \<noteq> Null \<and> nx a = (if is_dummy_ptr e then Null else e))"

fun reader_ok :: "reader \<Rightarrow> qptr \<Rightarrow> naddr list \<Rightarrow> 'v list \<Rightarrow> bool" where
  "reader_ok R_Idle st hs bs \<longleftrightarrow> st \<noteq> Null \<and> bs = []"
| "reader_ok (R_Fetch e) st hs bs \<longleftrightarrow>
     st \<noteq> Null \<and> st \<noteq> Blocked_Dummy \<and> e \<noteq> Null \<and> e \<noteq> Blocked_Dummy \<and> bs = []"
| "reader_ok (R_Move p) st hs bs \<longleftrightarrow> st \<noteq> Null \<and> st \<noteq> Blocked_Dummy \<and> bs = []"
| "reader_ok R_Clear st hs bs \<longleftrightarrow> st \<noteq> Null \<and> st \<noteq> Blocked_Dummy"
| "reader_ok (R_Close e) st hs bs \<longleftrightarrow>
     st \<noteq> Null \<and> st \<noteq> Blocked_Dummy \<and> e \<noteq> Null \<and> e \<noteq> Blocked_Dummy \<and> hs = []"
| "reader_ok (R_Close_Move p) st hs bs \<longleftrightarrow> st = Null"
| "reader_ok R_Clear2 st hs bs \<longleftrightarrow> st = Null"
| "reader_ok R_Closed st hs bs \<longleftrightarrow> st = Null \<and> hs = []"

definition q_inv_at :: "'v qsys \<Rightarrow> naddr list \<Rightarrow> naddr list \<Rightarrow> naddr list \<Rightarrow> bool" where
  "q_inv_at s hs ms xs \<longleftrightarrow>
     path (q_next s) (q_head s) hs \<and> path (q_next s) (move_ptr (q_reader s)) ms \<and>
     stack_path (q_next s) (q_stack s) xs \<and> distinct (hs @ ms @ xs) \<and>
     producers_ok (q_prod s) (q_next s) (hs @ ms @ xs) \<and> reader_ok (q_reader s) (q_stack s) hs (bounced s) \<and>
     mset (deq_log s @ bounced s @ map (q_val s) (rev ms @ hs @ rev xs)) = mset (enq_log s) \<and>
     (\<not> overtaken s \<longrightarrow> deq_log s @ bounced s @ map (q_val s) (rev ms @ hs @ rev xs) = enq_log s) \<and>
     n_blocks s = n_wakeups s + n_unblocks s + (if q_stack s = Blocked_Dummy then 1 else 0)"

definition q_inv :: "'v qsys \<Rightarrow> bool" where
  "q_inv s \<longleftrightarrow> (\<exists>hs ms xs. q_inv_at s hs ms xs)"

lemma path_upd [simp]: "a \<notin> set as \<Longrightarrow> path (n(a := q)) p as = path n p as"
  by (induction as arbitrary: p) auto

lemma stack_path_upd [simp]: "a \<notin> set as \<Longrightarrow> stack_path (n(a := q)) p as = stack_path n p as"
  by (simp add: stack_path_def)

lemma path_simps [simp]:
  "path n Null as \<longleftrightarrow> as = []" "\<not> path n Empty_Dummy as" "\<not> path n Blocked_Dummy as"
  "path n (Node a) as \<longleftrightarrow> (\<exists>bs. as = a # bs \<and> path n (n a) bs)"
  by (cases as; auto)+

lemma stack_path_simps [simp]:
  "stack_path n Null xs \<longleftrightarrow> xs = []" "stack_path n Empty_Dummy xs \<longleftrightarrow> xs = []"
  "stack_path n Blocked_Dummy xs \<longleftrightarrow> xs = []"
  "stack_path n (Node a) xs \<longleftrightarrow> (\<exists>bs. xs = a # bs \<and> path n (n a) bs)"
  by (auto simp: stack_path_def is_dummy_ptr_def)

lemma is_dummy_ptr_simps [simp]:
  "is_dummy_ptr Empty_Dummy" "is_dummy_ptr Blocked_Dummy" "\<not> is_dummy_ptr Null"
  "\<not> is_dummy_ptr (Node a)"
  by (simp_all add: is_dummy_ptr_def)

lemma q_inv_init: "q_inv (init_qsys v)"
  unfolding q_inv_def
  by (intro exI [of _ "[]"]) (simp add: q_inv_at_def init_qsys_def producers_ok_def)

text \<open>How the condition on the producers survives each kind of step.\<close>

lemma producers_private:
  assumes "producers_ok pr nx used"
    and "p_elem pc = p_elem (pr i) \<or> p_elem pc = None"
    and "\<And>a e. pc = P_Cas a e \<Longrightarrow> e \<noteq> Null \<and> nx a = (if is_dummy_ptr e then Null else e)"
  shows "producers_ok (pr(i := pc)) nx used"
proof -
  have el: "p_elem (pr j) = Some b" if "p_elem ((pr(i := pc)) j) = Some b" for j b
    using assms(2) that by (auto split: if_splits)
  show ?thesis
    unfolding producers_ok_def
  proof (intro conjI allI impI)
    fix j k b assume "p_elem ((pr(i := pc)) j) = Some b" "p_elem ((pr(i := pc)) k) = Some b"
    with el assms(1) show "j = k" unfolding producers_ok_def by blast
  next
    fix j b assume "p_elem ((pr(i := pc)) j) = Some b"
    with el assms(1) show "b \<notin> set used" unfolding producers_ok_def by blast
  next
    fix j a e assume "(pr(i := pc)) j = P_Cas a e"
    then have "pc = P_Cas a e \<or> pr j = P_Cas a e" by (cases "j = i") auto
    with assms(1,3) show "e \<noteq> Null" "nx a = (if is_dummy_ptr e then Null else e)"
      unfolding producers_ok_def by blast+
  qed
qed

lemma producers_start:
  assumes "producers_ok pr nx used" and "\<forall>j. p_elem (pr j) \<noteq> Some a" and "a \<notin> set used"
  shows "producers_ok (pr(i := P_Load a)) nx used"
proof -
  have "p_elem ((pr(i := P_Load a)) j) = Some b \<longleftrightarrow> (if j = i then b = a else p_elem (pr j) = Some b)"
    for j b by auto
  with assms show ?thesis unfolding producers_ok_def by (auto split: if_splits)
qed

lemma producers_next:
  assumes "producers_ok pr nx used" and "\<And>i. p_elem (pr i) \<noteq> Some a" and "set used' \<subseteq> set used"
  shows "producers_ok pr (nx(a := q)) used'"
proof -
  have "\<And>i e. pr i \<noteq> P_Cas a e" using assms(2) by (metis p_elem.simps(4))
  with assms show ?thesis unfolding producers_ok_def by (auto split: if_splits)
qed

lemma producers_link:
  assumes "producers_ok pr nx used" and "pr i = P_Test a e" and "e \<noteq> Null"
  shows "producers_ok (pr(i := P_Cas a e)) (nx(a := if is_dummy_ptr e then Null else e)) used"
proof -
  have "j = i" if "pr j = P_Cas a e'" for j e'
    using assms(1,2) that unfolding producers_ok_def by (metis p_elem.simps(3,4))
  moreover have "p_elem ((pr(i := P_Cas a e)) j) = p_elem (pr j)" for j
    using assms(2) by simp
  ultimately show ?thesis using assms unfolding producers_ok_def by (auto split: if_splits)
qed

lemma producers_publish:
  assumes "producers_ok pr nx used" and "p_elem (pr i) = Some a" and "set used' \<subseteq> insert a (set used)"
  shows "producers_ok (pr(i := P_Idle)) nx used'"
proof -
  have other: "p_elem (pr j) \<noteq> Some a" if "j \<noteq> i" for j
    using assms(1,2) that unfolding producers_ok_def by metis
  have idle: "p_elem ((pr(i := P_Idle)) j) = Some b \<longleftrightarrow> j \<noteq> i \<and> p_elem (pr j) = Some b" for j b
    by auto
  show ?thesis
    unfolding producers_ok_def idle
  proof (intro conjI allI impI)
    fix j b assume "j \<noteq> i \<and> p_elem (pr j) = Some b"
    with other assms(1,3) show "b \<notin> set used'" unfolding producers_ok_def by auto
  qed (use assms(1) in \<open>auto simp: producers_ok_def split: if_splits\<close>)
qed

lemma producers_mono: "producers_ok pr nx used \<Longrightarrow> set used' \<subseteq> set used \<Longrightarrow> producers_ok pr nx used'"
  unfolding producers_ok_def by blast

lemma producer_not_used:
  "producers_ok pr nx used \<Longrightarrow> p_elem (pr i) = Some a \<Longrightarrow> a \<notin> set used"
  "producers_ok pr nx used \<Longrightarrow> a \<in> set used \<Longrightarrow> p_elem (pr i) \<noteq> Some a"
  unfolding producers_ok_def by blast+

section \<open>Every step keeps the invariant\<close>

lemma inv_producer_steps:
  assumes "q_inv_at s hs ms xs"
  shows "q_prod s i = P_Idle \<Longrightarrow> unused s a \<Longrightarrow>
      q_inv_at (s\<lparr>q_prod := (q_prod s)(i := P_Load a), q_val := (q_val s)(a := v)\<rparr>) hs ms xs"
    and "q_prod s i = P_Load a \<Longrightarrow>
      q_inv_at (s\<lparr>q_prod := (q_prod s)(i := P_Test a (q_stack s))\<rparr>) hs ms xs"
    and "q_prod s i = P_Test a Null \<Longrightarrow>
      q_inv_at (s\<lparr>q_prod := (q_prod s)(i := P_Idle), rejected := rj\<rparr>) hs ms xs"
    and "q_prod s i = P_Test a e \<Longrightarrow> e \<noteq> Null \<Longrightarrow>
      q_inv_at (s\<lparr>q_prod := (q_prod s)(i := P_Cas a e),
        q_next := (q_next s)(a := if is_dummy_ptr e then Null else e)\<rparr>) hs ms xs"
    and "q_prod s i = P_Cas a e \<Longrightarrow>
      q_inv_at (s\<lparr>q_prod := (q_prod s)(i := P_Test a (q_stack s))\<rparr>) hs ms xs"
proof -
  note pok = assms [unfolded q_inv_at_def, THEN conjunct2, THEN conjunct2, THEN conjunct2,
      THEN conjunct2, THEN conjunct1]
  show "q_inv_at (s\<lparr>q_prod := (q_prod s)(i := P_Load a), q_val := (q_val s)(a := v)\<rparr>) hs ms xs"
    if "q_prod s i = P_Idle" "unused s a"
  proof -
    from that(2) assms have a: "a \<notin> set (hs @ ms @ xs)" "\<forall>j. p_elem (q_prod s j) \<noteq> Some a"
      unfolding unused_def q_inv_at_def by blast+
    from producers_start [OF pok a(2,1), of i] a(1) assms show ?thesis
      unfolding q_inv_at_def by simp
  qed
  show "q_inv_at (s\<lparr>q_prod := (q_prod s)(i := P_Test a (q_stack s))\<rparr>) hs ms xs"
    if "q_prod s i = P_Load a"
    using producers_private [OF pok, of "P_Test a (q_stack s)" i] that assms
    unfolding q_inv_at_def by simp
  show "q_inv_at (s\<lparr>q_prod := (q_prod s)(i := P_Idle), rejected := rj\<rparr>) hs ms xs"
    if "q_prod s i = P_Test a Null"
    using producers_private [OF pok, of P_Idle i] that assms unfolding q_inv_at_def by simp
  show "q_inv_at (s\<lparr>q_prod := (q_prod s)(i := P_Cas a e),
        q_next := (q_next s)(a := if is_dummy_ptr e then Null else e)\<rparr>) hs ms xs"
    if "q_prod s i = P_Test a e" "e \<noteq> Null"
  proof -
    have "a \<notin> set (hs @ ms @ xs)" using producer_not_used(1) [OF pok, of i a] that by simp
    with producers_link [OF pok that] assms show ?thesis unfolding q_inv_at_def by simp
  qed
  show "q_inv_at (s\<lparr>q_prod := (q_prod s)(i := P_Test a (q_stack s))\<rparr>) hs ms xs"
    if "q_prod s i = P_Cas a e"
    using producers_private [OF pok, of "P_Test a (q_stack s)" i] that assms
    unfolding q_inv_at_def by simp
qed

lemma inv_publish:
  assumes "q_inv_at s hs ms xs" and "q_prod s i = P_Cas a e" and "q_stack s = e"
  shows "q_inv_at (s\<lparr>q_prod := (q_prod s)(i := P_Idle), q_stack := Node a,
       enq_log := enq_log s @ [q_val s a],
       n_wakeups := n_wakeups s + (if e = Blocked_Dummy then 1 else 0)\<rparr>) hs ms (a # xs)"
proof -
  have pok: "producers_ok (q_prod s) (q_next s) (hs @ ms @ xs)"
    using assms(1) by (simp add: q_inv_at_def)
  have fresh: "a \<notin> set (hs @ ms @ xs)"
    using producer_not_used(1) [OF pok, of i a] assms(2) by simp
  have e: "e \<noteq> Null" "q_next s a = (if is_dummy_ptr e then Null else e)"
    using pok assms(2) unfolding producers_ok_def by blast+
  have "path (q_next s) (q_next s a) xs"
    using assms(1,3) e unfolding q_inv_at_def by (cases e) auto
  moreover have "producers_ok ((q_prod s)(i := P_Idle)) (q_next s) (hs @ ms @ a # xs)"
    using producers_publish [OF pok, of i a] assms(2) by simp
  moreover have "reader_ok (q_reader s) (Node a) hs (bounced s)"
    using assms(1,3) e(1) unfolding q_inv_at_def by (cases "q_reader s") auto
  ultimately show ?thesis
    using assms(1,3) fresh unfolding q_inv_at_def by auto
qed


lemma inv_reader_pop:
  assumes "q_inv_at s hs ms xs" and "q_head s = Node a" and "move_ptr (q_reader s) = Null"
    and "reader_ok (q_reader s) (q_stack s) (tl hs) (bs :: 'v list)"
    and "ds @ bs = deq_log s @ bounced s @ [q_val s a]"
  shows "q_inv_at (s\<lparr>q_head := q_next s a, deq_log := ds, bounced := bs\<rparr>) (tl hs) ms xs"
proof -
  obtain hs' where hs: "hs = a # hs'" "path (q_next s) (q_next s a) hs'" and ms: "ms = []"
    using assms(1-3) unfolding q_inv_at_def by auto
  have pok: "producers_ok (q_prod s) (q_next s) (hs' @ xs)"
    using assms(1) hs ms unfolding q_inv_at_def by (auto elim!: producers_mono)
  have log: "ds @ bs @ ys = deq_log s @ bounced s @ q_val s a # ys" for ys
    using assms(5) by (metis append.assoc append_Cons append_Nil)
  show ?thesis
    using assms(1,4) pok hs ms unfolding q_inv_at_def by (simp add: log del: mset_append)
qed

lemma inv_reader_move:
  assumes "q_inv_at s hs ms xs" and "move_ptr (q_reader s) = Node a"
    and "move_ptr r' = q_next s a" and "reader_ok r' (q_stack s) (a # hs) (bounced s)"
  shows "q_inv_at (s\<lparr>q_reader := r', q_next := (q_next s)(a := q_head s), q_head := Node a\<rparr>)
    (a # hs) (tl ms) xs"
proof -
  obtain ms' where ms: "ms = a # ms'" "path (q_next s) (q_next s a) ms'"
    using assms(1,2) unfolding q_inv_at_def by auto
  have pok: "producers_ok (q_prod s) (q_next s) (hs @ a # ms' @ xs)"
    using assms(1) ms unfolding q_inv_at_def by simp
  have "producers_ok (q_prod s) ((q_next s)(a := q_head s)) (a # hs @ ms' @ xs)"
    by (rule producers_next [OF pok]) (use producer_not_used(2) [OF pok] in auto)
  then show ?thesis
    using assms ms unfolding q_inv_at_def by auto
qed

lemma inv_reader_fetch:
  assumes "q_inv_at s hs ms xs" and "move_ptr (q_reader s) = Null"
    and "q_stack s = Node a" and "move_ptr r' = Node a"
    and "st' = Empty_Dummy \<or> st' = Null" and "reader_ok r' st' hs (bounced s)"
    and "ov \<longleftrightarrow> overtaken s \<or> hs \<noteq> []"
  shows "q_inv_at (s\<lparr>q_reader := r', q_stack := st', overtaken := ov\<rparr>) hs xs []"
  using assms unfolding q_inv_at_def by (auto elim!: producers_mono simp: add_ac)

text \<open>A step of the reader that changes only its position or swaps one dummy for another.\<close>

lemma inv_reader_local:
  assumes "q_inv_at s hs ms xs" and "move_ptr r' = move_ptr (q_reader s)"
    and "reader_ok r' (q_stack s) hs (bounced s)"
  shows "q_inv_at (s\<lparr>q_reader := r'\<rparr>) hs ms xs"
  using assms unfolding q_inv_at_def by simp

lemma inv_reader_dummy:
  assumes "q_inv_at s hs ms xs" and "is_dummy_ptr (q_stack s)" and "is_dummy_ptr st' \<or> st' = Null"
    and "move_ptr r' = move_ptr (q_reader s)" and "reader_ok r' st' hs (bounced s)"
    and "nb = n_wakeups s + nu + (if st' = Blocked_Dummy then 1 else 0)"
  shows "q_inv_at (s\<lparr>q_reader := r', q_stack := st', n_blocks := nb, n_unblocks := nu\<rparr>) hs ms xs"
  using assms unfolding q_inv_at_def is_dummy_ptr_def by auto


lemma qstep_inv:
  assumes "qstep s t" and "q_inv s"
  shows "q_inv t"
proof -
  obtain hs ms xs where inv: "q_inv_at s hs ms xs"
    using assms(2) unfolding q_inv_def by blast
  note r = inv [unfolded q_inv_at_def]
  from assms(1) show ?thesis
  proof cases
    case (p_start i a v)
    then show ?thesis using inv_producer_steps(1) [OF inv] unfolding q_inv_def by blast
  next
    case (p_load i a)
    then show ?thesis using inv_producer_steps(2) [OF inv] unfolding q_inv_def by blast
  next
    case (p_closed i a)
    then show ?thesis using inv_producer_steps(3) [OF inv] unfolding q_inv_def by blast
  next
    case (p_link i a e)
    then show ?thesis using inv_producer_steps(4) [OF inv] unfolding q_inv_def by blast
  next
    case (p_cas_ok i a e)
    then show ?thesis using inv_publish [OF inv] unfolding q_inv_def by blast
  next
    case (p_cas_fail i a e)
    then show ?thesis using inv_producer_steps(5) [OF inv] unfolding q_inv_def by blast
  next
    case (r_pop a)
    then have "t = s\<lparr>q_head := q_next s a, deq_log := deq_log s @ [q_val s a], bounced := []\<rparr>"
      using r by (cases s) auto
    with r_pop inv_reader_pop [OF inv, of a "[]" "deq_log s @ [q_val s a]"] r show ?thesis
      unfolding q_inv_def by auto
  next
    case r_load
    with inv_reader_local [OF inv, of "R_Fetch (q_stack s)"] r show ?thesis
      unfolding q_inv_def by auto
  next
    case r_count
    with inv_reader_local [OF inv, of "R_Fetch (q_stack s)"] r show ?thesis
      unfolding q_inv_def by auto
  next
    case r_nodata
    with inv_reader_local [OF inv, of R_Idle] r show ?thesis unfolding q_inv_def by auto
  next
    case (r_fetch_ok e)
    then obtain a where "e = Node a" using r by (cases e) auto
    moreover have "q_head s \<noteq> Null \<longleftrightarrow> hs \<noteq> []" using r by (cases hs) auto
    ultimately show ?thesis
      using r_fetch_ok inv_reader_fetch [OF inv, of a "R_Move e" Empty_Dummy "overtaken t"] r
      unfolding q_inv_def by auto
  next
    case (r_fetch_fail e)
    with inv_reader_local [OF inv, of "R_Fetch (q_stack s)"] r show ?thesis
      unfolding q_inv_def by auto
  next
    case (r_move a)
    with inv_reader_move [OF inv, of a "R_Move (q_next s a)"] r show ?thesis
      unfolding q_inv_def by auto
  next
    case r_moved
    with inv_reader_local [OF inv, of R_Idle] r show ?thesis unfolding q_inv_def by auto
  next
    case r_block
    then have "t = s\<lparr>q_reader := R_Idle, q_stack := Blocked_Dummy, n_blocks := n_blocks s + 1,
        n_unblocks := n_unblocks s\<rparr>"
      by (cases s) auto
    with r_block inv_reader_dummy [OF inv, of Blocked_Dummy R_Idle "n_blocks s + 1" "n_unblocks s"] r
    show ?thesis unfolding q_inv_def by auto
  next
    case r_unblock
    then have "t = s\<lparr>q_reader := R_Idle, q_stack := Empty_Dummy, n_blocks := n_blocks s,
        n_unblocks := n_unblocks s + 1\<rparr>"
      by (cases s) auto
    with r_unblock inv_reader_dummy [OF inv, of Empty_Dummy R_Idle "n_blocks s" "n_unblocks s + 1"] r
    show ?thesis unfolding q_inv_def by auto
  next
    case c_start
    with inv_reader_local [OF inv, of R_Clear] r show ?thesis unfolding q_inv_def by auto
  next
    case (c_clear a)
    then have "t = s\<lparr>q_head := q_next s a, deq_log := deq_log s, bounced := bounced s @ [q_val s a]\<rparr>"
      by (cases s) auto
    with c_clear inv_reader_pop [OF inv, of a "bounced s @ [q_val s a]" "deq_log s"] r show ?thesis
      unfolding q_inv_def by auto
  next
    case c_load
    with inv_reader_local [OF inv, of "R_Close (q_stack s)"] r show ?thesis
      unfolding q_inv_def by auto
  next
    case (c_cas_ok e)
    show ?thesis
    proof (cases "is_dummy_ptr e")
      case True
      with c_cas_ok have "t = s\<lparr>q_reader := R_Closed, q_stack := Null, n_blocks := n_blocks s,
          n_unblocks := n_unblocks s\<rparr>"
        by (cases s) auto
      with True c_cas_ok inv_reader_dummy [OF inv, of Null R_Closed "n_blocks s" "n_unblocks s"] r
      show ?thesis unfolding q_inv_def by (auto simp: is_dummy_ptr_def)
    next
      case False
      then obtain a where "e = Node a" using c_cas_ok r by (cases e) auto
      moreover have "t = s\<lparr>q_reader := R_Close_Move e, q_stack := Null, overtaken := overtaken s\<rparr>"
        using c_cas_ok False by (cases s) auto
      ultimately show ?thesis
        using c_cas_ok inv_reader_fetch [OF inv, of a "R_Close_Move e" Null "overtaken s"] r
        unfolding q_inv_def by auto
    qed
  next
    case (c_cas_fail e)
    with inv_reader_local [OF inv, of "R_Close (q_stack s)"] r show ?thesis
      unfolding q_inv_def by auto
  next
    case (c_move a)
    with inv_reader_move [OF inv, of a "R_Close_Move (q_next s a)"] r show ?thesis
      unfolding q_inv_def by auto
  next
    case c_moved
    with inv_reader_local [OF inv, of R_Clear2] r show ?thesis unfolding q_inv_def by auto
  next
    case (c_clear2 a)
    then have "t = s\<lparr>q_head := q_next s a, deq_log := deq_log s, bounced := bounced s @ [q_val s a]\<rparr>"
      by (cases s) auto
    with c_clear2 inv_reader_pop [OF inv, of a "bounced s @ [q_val s a]" "deq_log s"] r show ?thesis
      unfolding q_inv_def by auto
  next
    case c_done
    with inv_reader_local [OF inv, of R_Closed] r show ?thesis unfolding q_inv_def by auto
  qed
qed

lemma reachable_q_inv: "q_reachable s0 s \<Longrightarrow> q_inv s0 \<Longrightarrow> q_inv s"
  by (induction rule: q_reachable.induct) (auto intro: qstep_inv)


section \<open>Properties\<close>

text \<open>A run in which one producer enqueues the value 7 and the reader fetches and pops it.\<close>

lemma sample_run:
  "\<exists>s. q_reachable (init_qsys 0) s \<and> enq_log s = [7 :: nat] \<and> deq_log s = [7]
     \<and> q_reader s = R_Idle \<and> q_head s = Null \<and> q_stack s = Empty_Dummy
     \<and> n_blocks s = 1 \<and> n_wakeups s = 1 \<and> \<not> overtaken s"
proof -
  define s0 where "s0 = init_qsys (0 :: nat)"
  define s1 where "s1 = s0\<lparr>q_stack := Blocked_Dummy, n_blocks := 1\<rparr>"
  define s2 where "s2 = s1\<lparr>q_prod := (q_prod s1)(5 := P_Load 9), q_val := (q_val s1)(9 := 7)\<rparr>"
  define s3 where "s3 = s2\<lparr>q_prod := (q_prod s2)(5 := P_Test 9 Blocked_Dummy)\<rparr>"
  define s4 where "s4 = s3\<lparr>q_prod := (q_prod s3)(5 := P_Cas 9 Blocked_Dummy),
    q_next := (q_next s3)(9 := Null)\<rparr>"
  define s5 where "s5 = s4\<lparr>q_prod := (q_prod s4)(5 := P_Idle), q_stack := Node 9,
    enq_log := [7], n_wakeups := 1\<rparr>"
  define s6 where "s6 = s5\<lparr>q_reader := R_Fetch (Node 9)\<rparr>"
  define s7 where "s7 = s6\<lparr>q_reader := R_Move (Node 9), q_stack := Empty_Dummy\<rparr>"
  define s8 where "s8 = s7\<lparr>q_reader := R_Move Null, q_next := (q_next s7)(9 := Null),
    q_head := Node 9\<rparr>"
  define s9 where "s9 = s8\<lparr>q_reader := R_Idle\<rparr>"
  define s10 where "s10 = s9\<lparr>q_head := Null, deq_log := [7]\<rparr>"
  note defs = s0_def s1_def s2_def s3_def s4_def s5_def s6_def s7_def s8_def s9_def s10_def
    init_qsys_def
  have "qstep s0 s1" using r_block [of s0] by (simp add: defs)
  moreover have "qstep s1 s2" using p_start [of s1 5 9 7] by (auto simp: defs unused_def)
  moreover have "qstep s2 s3" using p_load [of s2 5 9] by (simp add: defs)
  moreover have "qstep s3 s4" using p_link [of s3 5 9 Blocked_Dummy] by (simp add: defs)
  moreover have "qstep s4 s5" using p_cas_ok [of s4 5 9 Blocked_Dummy] by (simp add: defs)
  moreover have "qstep s5 s6" using r_load [of s5] by (simp add: defs)
  moreover have "qstep s6 s7" using r_fetch_ok [of s6 "Node 9"] by (simp add: defs)
  moreover have "qstep s7 s8" using r_move [of s7 9] by (simp add: defs)
  moreover have "qstep s8 s9" using r_moved [of s8] by (simp add: defs)
  moreover have "qstep s9 s10" using r_pop [of s9 9] by (simp add: defs)
  ultimately have "q_reachable s0 s10" by (meson q_init q_step)
  then show ?thesis by (intro exI [of _ s10]) (simp add: defs)
qed

text \<open>
  C1: whatever the interleaving of the producers with the reader's \<^verbatim>\<open>try_pop\<close>, \<^verbatim>\<open>count\<close>,
  \<^verbatim>\<open>try_block\<close>, \<^verbatim>\<open>try_unblock\<close> and \<^verbatim>\<open>close\<close>, no published value is lost, delivered twice or made up;
  when the reader finds head and stack empty, or has closed the queue, every published value has
  been popped or handed to the visitor of \<^verbatim>\<open>close\<close>.  As long as \<^verbatim>\<open>count\<close> never fetched onto a
  non-empty \<^verbatim>\<open>head_\<close>, the values come out in exactly the order in which the compare-and-swap
  operations published them.
\<close>

theorem concurrent_fifo:
  assumes "q_reachable (init_qsys v) s"
  shows "\<exists>rest. mset (enq_log s) = mset (deq_log s @ bounced s @ rest)
    \<and> (\<not> overtaken s \<longrightarrow> enq_log s = deq_log s @ bounced s @ rest)
    \<and> (q_reader s = R_Idle \<and> q_head s = Null \<and> is_dummy_ptr (q_stack s) \<longrightarrow> rest = [])
    \<and> (q_reader s = R_Closed \<longrightarrow> q_stack s = Null \<and> rest = [])"
proof -
  from reachable_q_inv [OF assms q_inv_init] obtain hs ms xs where inv: "q_inv_at s hs ms xs"
    unfolding q_inv_def by blast
  show ?thesis
    using inv unfolding q_inv_at_def
    by (intro exI [of _ "map (q_val s) (rev ms @ hs @ rev xs)"]) (auto simp: is_dummy_ptr_def)
qed

theorem concurrent_fifo_witness:
  "\<exists>s rest. q_reachable (init_qsys (0 :: nat)) s \<and> \<not> overtaken s \<and> deq_log s = [7]
    \<and> enq_log s = deq_log s @ bounced s @ rest \<and> rest = []"
proof -
  obtain s where s: "q_reachable (init_qsys (0 :: nat)) s" "deq_log s = [7]"
    "q_reader s = R_Idle" "q_head s = Null" "q_stack s = Empty_Dummy" "\<not> overtaken s"
    using sample_run by blast
  from concurrent_fifo [OF s(1)] s show ?thesis by (auto simp: is_dummy_ptr_def)
qed

text \<open>
  C20: wake-ups are neither lost nor duplicated: the number of times the reader blocked equals the
  number of enqueue operations that reported \<open>unblocked_reader\<close> plus the number of times the
  reader unblocked itself, plus one while it is still blocked; and while it is blocked no
  element is waiting, so it never sleeps on data: everything published has been popped, in the
  order of publication unless a \<^verbatim>\<open>count\<close> let newer elements overtake.
\<close>

theorem wakeups_balanced:
  assumes "q_reachable (init_qsys v) s"
  shows "n_blocks s = n_wakeups s + n_unblocks s + (if q_stack s = Blocked_Dummy then 1 else 0)
    \<and> (q_stack s = Blocked_Dummy \<and> q_head s = Null \<longrightarrow>
         mset (enq_log s) = mset (deq_log s) \<and> (\<not> overtaken s \<longrightarrow> enq_log s = deq_log s))"
proof -
  from reachable_q_inv [OF assms q_inv_init] obtain hs ms xs where inv: "q_inv_at s hs ms xs"
    unfolding q_inv_def by blast
  have "mset (enq_log s) = mset (deq_log s) \<and> (\<not> overtaken s \<longrightarrow> enq_log s = deq_log s)" if b: "q_stack s = Blocked_Dummy" "q_head s = Null"
  proof -
    have "q_reader s = R_Idle"
      using inv b unfolding q_inv_at_def by (cases "q_reader s") auto
    with inv b show ?thesis unfolding q_inv_at_def by auto
  qed
  with inv show ?thesis unfolding q_inv_at_def by blast
qed

theorem wakeups_balanced_witness:
  "\<exists>s. q_reachable (init_qsys (0 :: nat)) s \<and> n_blocks s = 1 \<and> n_wakeups s = 1 \<and> n_unblocks s = 0"
proof -
  obtain s where s: "q_reachable (init_qsys (0 :: nat)) s" "n_blocks s = 1" "n_wakeups s = 1"
    "q_stack s = Empty_Dummy"
    using sample_run by blast
  from wakeups_balanced [OF s(1)] s show ?thesis by auto
qed

text \<open>
  C21: the memory of the queue stays well formed although popped addresses are reused freely: the
  chains behind \<^verbatim>\<open>head_\<close>, the nodes being moved and the stack are finite, disjoint and free of
  repetitions, no producer owns a node that is linked into the queue or owned by another
  producer, and a successful compare-and-swap always extends a proper chain even if the
  compared address was recycled.
\<close>

theorem queue_memory_safe:
  assumes "q_reachable (init_qsys v) s"
  shows "\<exists>hs ms xs. path (q_next s) (q_head s) hs \<and> path (q_next s) (move_ptr (q_reader s)) ms
    \<and> stack_path (q_next s) (q_stack s) xs \<and> distinct (hs @ ms @ xs)
    \<and> (\<forall>i a. p_elem (q_prod s i) = Some a \<longrightarrow> a \<notin> set (hs @ ms @ xs))
    \<and> (\<forall>i j a. p_elem (q_prod s i) = Some a \<and> p_elem (q_prod s j) = Some a \<longrightarrow> i = j)
    \<and> (\<forall>i a. q_prod s i = P_Cas a (q_stack s) \<longrightarrow> stack_path (q_next s) (Node a) (a # xs))"
proof -
  from reachable_q_inv [OF assms q_inv_init] obtain hs ms xs where inv: "q_inv_at s hs ms xs"
    unfolding q_inv_def by blast
  have "stack_path (q_next s) (Node a) (a # xs)" if "q_prod s i = P_Cas a (q_stack s)" for i a
    using inv_publish [OF inv that refl] unfolding q_inv_at_def by simp
  with inv show ?thesis
    unfolding q_inv_at_def producers_ok_def by blast
qed

theorem queue_memory_safe_witness:
  "\<exists>s hs ms xs. q_reachable (init_qsys (0 :: nat)) s \<and> enq_log s = [7]
    \<and> path (q_next s) (q_head s) hs \<and> path (q_next s) (move_ptr (q_reader s)) ms
    \<and> stack_path (q_next s) (q_stack s) xs \<and> distinct (hs @ ms @ xs)"
proof -
  obtain s where s: "q_reachable (init_qsys (0 :: nat)) s" "enq_log s = [7]"
    using sample_run by blast
  from queue_memory_safe [OF s(1)] s show ?thesis by blast
qed

end
