(* ===== verification/Shared_Spinlock.thy ===== *)
theory Shared_Spinlock
  imports Actor_Prelude
begin

text \<open>
  The reader-writer spinlock of actor pools and groups (detail/shared\_spinlock.hpp,
  shared\_spinlock.cpp) and the locks that use it (locks.hpp), with one step per atomic operation of a
  thread. The flag is a long of 64 bits that wraps around; it counts the readers and is the least long
  while a writer holds the lock. With fewer than 2^63 threads the count does not overflow.
  Compare-and-swap may fail spuriously.
\<close>

section \<open>Model\<close>

definition min_long :: int where "min_long = - (2 ^ 63)"

text \<open>The value of a long after an addition or subtraction.\<close>

definition wrap_long :: "int \<Rightarrow> int" where
  "wrap_long x = (x + 2 ^ 63) mod 2 ^ 64 - 2 ^ 63"

lemma wrap_long_id: "- (2 ^ 63) \<le> x \<Longrightarrow> x < 2 ^ 63 \<Longrightarrow> wrap_long x = x"
  by (simp add: wrap_long_def)

lemma wrap_long_max: "wrap_long (2 ^ 63) = min_long"
  by (simp add: wrap_long_def min_long_def)

text \<open>What a thread does: after a load it carries the value it saw.\<close>

datatype lock_pc = Out | Lock_Load | Lock_Try int | Holds | Shared_Load | Shared_Try int | Holds_Shared
  | Try_Lock int | Try_Shared int

record spin =
  flag :: int
  pcs :: "nat \<Rightarrow> lock_pc"

definition goto :: "nat \<Rightarrow> lock_pc \<Rightarrow> int \<Rightarrow> spin \<Rightarrow> spin" where
  "goto i p v s = \<lparr>flag = v, pcs = (pcs s)(i := p)\<rparr>"

text \<open>
  Steps of thread i. Taking the exclusive lock from a shared one first gives up the shared one, and
  the other way round.
\<close>

inductive spin_step :: "nat \<Rightarrow> spin \<Rightarrow> spin \<Rightarrow> bool" for i where
  lock_start: "pcs s i = Out \<Longrightarrow> spin_step i s (goto i Lock_Load (flag s) s)"
| lock_load: "pcs s i = Lock_Load \<Longrightarrow> spin_step i s (goto i (Lock_Try (flag s)) (flag s) s)"
| lock_again: "pcs s i = Lock_Try v \<Longrightarrow> v \<noteq> 0 \<Longrightarrow> spin_step i s (goto i (Lock_Try (flag s)) (flag s) s)"
| lock_cas: "pcs s i = Lock_Try 0 \<Longrightarrow> flag s = 0 \<Longrightarrow> spin_step i s (goto i Holds min_long s)"
| lock_cas_fails: "pcs s i = Lock_Try 0 \<Longrightarrow> spin_step i s (goto i (Lock_Try (flag s)) (flag s) s)"
| shared_start: "pcs s i = Out \<Longrightarrow> spin_step i s (goto i Shared_Load (flag s) s)"
| shared_load: "pcs s i = Shared_Load \<Longrightarrow> spin_step i s (goto i (Shared_Try (flag s)) (flag s) s)"
| shared_again: "pcs s i = Shared_Try v \<Longrightarrow> v < 0 \<Longrightarrow> spin_step i s (goto i (Shared_Try (flag s)) (flag s) s)"
| shared_cas: "pcs s i = Shared_Try v \<Longrightarrow> 0 \<le> v \<Longrightarrow> flag s = v \<Longrightarrow> spin_step i s (goto i Holds_Shared (wrap_long (v + 1)) s)"
| shared_cas_fails: "pcs s i = Shared_Try v \<Longrightarrow> 0 \<le> v \<Longrightarrow> spin_step i s (goto i (Shared_Try (flag s)) (flag s) s)"
| try_lock_load: "pcs s i = Out \<Longrightarrow> spin_step i s (goto i (Try_Lock (flag s)) (flag s) s)"
| try_lock_cas: "pcs s i = Try_Lock 0 \<Longrightarrow> flag s = 0 \<Longrightarrow> spin_step i s (goto i Holds min_long s)"
| try_lock_fails: "pcs s i = Try_Lock v \<Longrightarrow> spin_step i s (goto i Out (flag s) s)"
| try_shared_load: "pcs s i = Out \<Longrightarrow> spin_step i s (goto i (Try_Shared (flag s)) (flag s) s)"
| try_shared_cas: "pcs s i = Try_Shared v \<Longrightarrow> 0 \<le> v \<Longrightarrow> flag s = v \<Longrightarrow> spin_step i s (goto i Holds_Shared (wrap_long (v + 1)) s)"
| try_shared_fails: "pcs s i = Try_Shared v \<Longrightarrow> spin_step i s (goto i Out (flag s) s)"
| unlock: "pcs s i = Holds \<Longrightarrow> spin_step i s (goto i Out 0 s)"
| unlock_shared: "pcs s i = Holds_Shared \<Longrightarrow> spin_step i s (goto i Out (wrap_long (flag s - 1)) s)"
| upgrade: "pcs s i = Holds_Shared \<Longrightarrow> spin_step i s (goto i Lock_Load (wrap_long (flag s - 1)) s)"
| downgrade: "pcs s i = Holds \<Longrightarrow> spin_step i s (goto i Shared_Load 0 s)"

definition spin_init :: spin where
  "spin_init = \<lparr>flag = 0, pcs = (\<lambda>i. Out)\<rparr>"

section \<open>Mutual exclusion\<close>

text \<open>The threads that hold the lock, of n threads.\<close>

definition readers :: "nat \<Rightarrow> spin \<Rightarrow> nat set" where
  "readers n s = {i. i < n \<and> pcs s i = Holds_Shared}"

definition writers :: "nat \<Rightarrow> spin \<Rightarrow> nat set" where
  "writers n s = {i. i < n \<and> pcs s i = Holds}"

definition spin_inv :: "nat \<Rightarrow> spin \<Rightarrow> bool" where
  "spin_inv n s \<longleftrightarrow> (if writers n s = {} then flag s = int (card (readers n s))
     else flag s = min_long \<and> readers n s = {} \<and> card (writers n s) = 1)"

lemma finite_holders [simp]: "finite (readers n s)" "finite (writers n s)"
  by (simp_all add: readers_def writers_def)

lemma holders_goto:
  "readers n (goto i p v s) = (if p = Holds_Shared \<and> i < n then insert i (readers n s) else readers n s - {i})"
  "writers n (goto i p v s) = (if p = Holds \<and> i < n then insert i (writers n s) else writers n s - {i})"
  by (auto simp: readers_def writers_def goto_def)

lemma flag_goto [simp]: "flag (goto i p v s) = v"
  by (simp add: goto_def)

lemma not_holder:
  "pcs s i \<noteq> Holds_Shared \<Longrightarrow> readers n s - {i} = readers n s" "pcs s i \<noteq> Holds \<Longrightarrow> writers n s - {i} = writers n s"
  by (auto simp: readers_def writers_def)

lemma card_readers: "card (readers n s) \<le> n"
  using card_mono [of "{..< n}" "readers n s"] by (auto simp: readers_def)

text \<open>A step that neither takes nor gives up the lock.\<close>

lemma spin_inv_waits:
  assumes "spin_inv n s" and "pcs s i \<notin> {Holds, Holds_Shared}" and "p \<notin> {Holds, Holds_Shared}"
  shows "spin_inv n (goto i p (flag s) s)"
  using assms by (simp add: spin_inv_def holders_goto not_holder)

lemma spin_inv_free: "spin_inv n s \<Longrightarrow> 0 \<le> flag s \<Longrightarrow> writers n s = {}"
  by (auto simp: spin_inv_def min_long_def split: if_splits)

lemma spin_inv_leaves:
  assumes "spin_inv n s" and "pcs s i = Holds_Shared" and "i < n" and "p \<notin> {Holds, Holds_Shared}"
    and "n < 2 ^ 63"
  shows "spin_inv n (goto i p (wrap_long (flag s - 1)) s)"
proof -
  have i: "i \<in> readers n s" using assms(2,3) by (simp add: readers_def)
  then have "writers n s = {}" "0 < card (readers n s)" using assms(1) by (auto simp: spin_inv_def card_gt_0_iff split: if_splits)
  moreover from this have "wrap_long (flag s - 1) = flag s - 1"
    using assms(1,5) card_readers [of n s] by (intro wrap_long_id) (simp_all add: spin_inv_def)
  ultimately show ?thesis using assms i by (simp add: spin_inv_def holders_goto card_Diff_singleton of_nat_diff)
qed

text \<open>A thread joins the readers.\<close>

lemma spin_inv_enters:
  assumes "spin_inv n s" and "pcs s i \<noteq> Holds_Shared" and "pcs s i \<noteq> Holds" and "i < n" and "0 \<le> flag s" and "n < 2 ^ 63"
  shows "spin_inv n (goto i Holds_Shared (wrap_long (flag s + 1)) s)"
proof -
  have w: "writers n s = {}" using spin_inv_free [OF assms(1,5)] .
  have i: "i \<notin> readers n s" using assms(2) by (simp add: readers_def)
  have "card (insert i (readers n s)) \<le> n"
    using card_mono [of "{..< n}" "insert i (readers n s)"] assms(4) by (auto simp: readers_def)
  then have "flag s + 1 \<le> int n" "flag s = int (card (readers n s))" using w i assms(1) by (simp_all add: spin_inv_def)
  then have "wrap_long (flag s + 1) = flag s + 1" using assms(6) by (intro wrap_long_id) simp_all
  then show ?thesis using w i assms(1,3,4) by (simp add: spin_inv_def holders_goto)
qed

lemma spin_inv_step:
  assumes "spin_step i s t" and "i < n" and inv: "spin_inv n s" and n: "n < 2 ^ 63"
  shows "spin_inv n t"
  using assms(1)
proof cases
  case lock_cas
  then have "writers n s = {}" "readers n s = {}" using inv spin_inv_free [OF inv] by (auto simp: spin_inv_def)
  then show ?thesis using lock_cas \<open>i < n\<close> by (simp add: spin_inv_def holders_goto)
next
  case try_lock_cas
  then have "writers n s = {}" "readers n s = {}" using inv spin_inv_free [OF inv] by (auto simp: spin_inv_def)
  then show ?thesis using try_lock_cas \<open>i < n\<close> by (simp add: spin_inv_def holders_goto)
next
  case (shared_cas v)
  then show ?thesis using spin_inv_enters [OF inv, of i] \<open>i < n\<close> n by simp
next
  case (try_shared_cas v)
  then show ?thesis using spin_inv_enters [OF inv, of i] \<open>i < n\<close> n by simp
next
  case unlock
  then have "i \<in> writers n s" using \<open>i < n\<close> by (simp add: writers_def)
  then have "writers n s = {i}" "readers n s = {}" using inv by (auto simp: spin_inv_def card_1_singleton_iff split: if_splits)
  then show ?thesis using unlock by (simp add: spin_inv_def holders_goto)
next
  case downgrade
  then have "i \<in> writers n s" using \<open>i < n\<close> by (simp add: writers_def)
  then have "writers n s = {i}" "readers n s = {}" using inv by (auto simp: spin_inv_def card_1_singleton_iff split: if_splits)
  then show ?thesis using downgrade by (simp add: spin_inv_def holders_goto)
next
  case unlock_shared
  then show ?thesis using spin_inv_leaves [OF inv _ \<open>i < n\<close>] n by simp
next
  case upgrade
  then show ?thesis using spin_inv_leaves [OF inv _ \<open>i < n\<close>] n by simp
qed (simp_all add: spin_inv_waits [OF inv])

text \<open>All interleavings of n threads.\<close>

definition any_step :: "nat \<Rightarrow> spin \<Rightarrow> spin \<Rightarrow> bool" where
  "any_step n s t \<longleftrightarrow> (\<exists>i < n. spin_step i s t)"

lemma any_stepI: "spin_step i s t \<Longrightarrow> i < n \<Longrightarrow> any_step n s t"
  by (auto simp: any_step_def)

lemma spin_inv_reachable: "(any_step n)\<^sup>*\<^sup>* spin_init s \<Longrightarrow> n < 2 ^ 63 \<Longrightarrow> spin_inv n s"
proof (induction rule: rtranclp_induct)
  case base
  have "readers n spin_init = {}" "writers n spin_init = {}" by (auto simp: spin_init_def readers_def writers_def)
  then show ?case by (simp add: spin_inv_def spin_init_def)
qed (auto simp: any_step_def intro: spin_inv_step)

text \<open>A thread that runs alone while the lock is free, or shared, takes it.\<close>

lemma lock_alone:
  assumes "flag s = 0" and "pcs s i = Lock_Load \<or> pcs s i = Lock_Try v"
  shows "\<exists>t. (spin_step i)\<^sup>*\<^sup>* s t \<and> pcs t i = Holds"
proof -
  let ?u = "goto i (Lock_Try 0) 0 s"
  have u: "(spin_step i)\<^sup>*\<^sup>* s ?u"
    using lock_load [of s i] lock_again [of s i v] lock_cas_fails [of s i] assms r_into_rtranclp [of "spin_step i" s ?u]
    by (cases "pcs s i = Lock_Try 0") (auto simp: goto_def)
  have "spin_step i ?u (goto i Holds min_long ?u)" by (rule lock_cas) (simp_all add: goto_def)
  then have "(spin_step i)\<^sup>*\<^sup>* s (goto i Holds min_long ?u)" using u by (rule rtranclp.rtrancl_into_rtrancl [rotated])
  then show ?thesis by (auto simp: goto_def)
qed

lemma shared_alone:
  assumes "0 \<le> flag s" and "pcs s i = Shared_Load \<or> pcs s i = Shared_Try v"
  shows "\<exists>t. (spin_step i)\<^sup>*\<^sup>* s t \<and> pcs t i = Holds_Shared"
proof -
  let ?u = "goto i (Shared_Try (flag s)) (flag s) s"
  have "spin_step i s ?u"
    using shared_load [of s i] shared_again [of s i v] shared_cas_fails [of s i v] assms by (cases "0 \<le> v") auto
  moreover have "spin_step i ?u (goto i Holds_Shared (wrap_long (flag s + 1)) ?u)" by (rule shared_cas) (use assms in \<open>simp_all add: goto_def\<close>)
  ultimately have "(spin_step i)\<^sup>*\<^sup>* s (goto i Holds_Shared (wrap_long (flag s + 1)) ?u)" by (meson converse_rtranclp_into_rtranclp rtranclp.rtrancl_refl)
  then show ?thesis by (auto simp: goto_def)
qed

text \<open>
  C40: Whatever the interleaving of fewer than 2^63 threads, a thread that holds the lock exclusively is alone,
  also with respect to shared holders; the flag tells free, shared and exclusive apart: it is the least long iff
  a thread holds the lock exclusively, and otherwise the number of shared holders. A thread that
  waits gets the lock in a few steps of its own once nobody else has it, a reader already when no
  writer has it; but a thread that waits for the exclusive lock never gets it while a reader stays.
\<close>

theorem spinlock_correct:
  assumes "(any_step n)\<^sup>*\<^sup>* spin_init s" and "i < n" and "n < 2 ^ 63"
  shows "(pcs s i = Holds \<longrightarrow> flag s = min_long \<and> (\<forall>j < n. j \<noteq> i \<longrightarrow> pcs s j \<notin> {Holds, Holds_Shared}))
    \<and> (flag s = 0 \<longleftrightarrow> (\<forall>j < n. pcs s j \<notin> {Holds, Holds_Shared}))
    \<and> (0 < flag s \<longleftrightarrow> (\<exists>j < n. pcs s j = Holds_Shared))
    \<and> (flag s = min_long \<longleftrightarrow> (\<exists>j < n. pcs s j = Holds))
    \<and> ((\<forall>j < n. pcs s j \<noteq> Holds) \<longrightarrow> flag s = int (card {j. j < n \<and> pcs s j = Holds_Shared}))
    \<and> (flag s = 0 \<and> (pcs s i = Lock_Load \<or> pcs s i = Lock_Try v) \<longrightarrow> (\<exists>t. (spin_step i)\<^sup>*\<^sup>* s t \<and> pcs t i = Holds))
    \<and> (0 \<le> flag s \<and> (pcs s i = Shared_Load \<or> pcs s i = Shared_Try v) \<longrightarrow> (\<exists>t. (spin_step i)\<^sup>*\<^sup>* s t \<and> pcs t i = Holds_Shared))
    \<and> (pcs s i \<noteq> Holds \<and> spin_step i s t \<and> (\<exists>j < n. pcs s j = Holds_Shared) \<longrightarrow> pcs t i \<noteq> Holds)"
proof -
  note inv = spin_inv_reachable [OF assms(1,3)]
  have free: "flag s = 0 \<longleftrightarrow> writers n s = {} \<and> readers n s = {}" using inv by (auto simp: spin_inv_def min_long_def split: if_splits)
  have "flag s = min_long" "\<forall>j < n. j \<noteq> i \<longrightarrow> pcs s j \<notin> {Holds, Holds_Shared}" if "pcs s i = Holds"
  proof -
    have "i \<in> writers n s" using that assms(2) by (simp add: writers_def)
    then have "flag s = min_long" "writers n s = {i}" "readers n s = {}" using inv by (auto simp: spin_inv_def card_1_singleton_iff split: if_splits)
    then show "flag s = min_long" "\<forall>j < n. j \<noteq> i \<longrightarrow> pcs s j \<notin> {Holds, Holds_Shared}" by (auto simp: writers_def readers_def)
  qed
  moreover have "flag s = 0 \<longleftrightarrow> (\<forall>j < n. pcs s j \<notin> {Holds, Holds_Shared})" unfolding free by (auto simp: writers_def readers_def)
  moreover have "0 < flag s \<longleftrightarrow> (\<exists>j < n. pcs s j = Holds_Shared)"
    using inv card_gt_0_iff [of "readers n s"]
    by (auto simp: spin_inv_def min_long_def readers_def split: if_splits)
  moreover have "flag s = min_long \<longleftrightarrow> (\<exists>j < n. pcs s j = Holds)"
    using inv by (auto simp: spin_inv_def min_long_def writers_def split: if_splits)
  moreover have "(\<forall>j < n. pcs s j \<noteq> Holds) \<longrightarrow> flag s = int (card {j. j < n \<and> pcs s j = Holds_Shared})"
    using inv by (auto simp: spin_inv_def writers_def readers_def split: if_splits)
  moreover have "pcs t i \<noteq> Holds" if "pcs s i \<noteq> Holds" "spin_step i s t" "\<exists>j < n. pcs s j = Holds_Shared"
    using that(2) that(1,3) free by cases (auto simp: goto_def readers_def)
  ultimately show ?thesis using lock_alone [of s i v] shared_alone [of s i v] by blast
qed

text \<open>A thread holds the lock exclusively while another one starts to wait for it.\<close>

theorem spinlock_correct_witness:
  "\<exists>s. (any_step 2)\<^sup>*\<^sup>* spin_init s \<and> pcs s 0 = Holds \<and> flag s = min_long \<and> pcs s 1 = Shared_Load"
proof -
  let ?a = "goto 0 Lock_Load 0 spin_init"
  let ?b = "goto 0 (Lock_Try 0) 0 ?a"
  let ?c = "goto 0 Holds min_long ?b"
  let ?d = "goto 1 Shared_Load min_long ?c"
  have s: "any_step 2 spin_init ?a" "any_step 2 ?a ?b" "any_step 2 ?b ?c" "any_step 2 ?c ?d"
    using any_stepI [OF lock_start [of spin_init 0]] any_stepI [OF lock_load [of ?a 0]] any_stepI [OF lock_cas [of ?b 0]]
      any_stepI [OF shared_start [of ?c 1]] by (simp_all add: spin_init_def goto_def)
  have r: "(any_step 2)\<^sup>*\<^sup>* spin_init ?d" using s by (meson converse_rtranclp_into_rtranclp rtranclp.rtrancl_refl)
  have p: "pcs ?d 0 = Holds" "pcs ?d 1 = Shared_Load" by (simp_all add: goto_def)
  show ?thesis using spinlock_correct [OF r, of 0 0 ?d] r p by auto
qed

end
