(* ===== verification/Message_Id.thy ===== *)
theory Message_Id
  imports Actor_Prelude
begin

text \<open>
  Message ids (\<^verbatim>\<open>message_id.hpp\<close>): a 64-bit value whose top three bits are flags (response,
  answered, high priority) and whose lower 61 bits number the requests of an actor.  An id with
  an all-zero request number belongs to an asynchronous message.
\<close>

datatype message_priority = normal | high

datatype message_id = Message_Id (integer_value: u64)

definition response_flag_mask :: u64 where "response_flag_mask = 0x8000000000000000"
definition answered_flag_mask :: u64 where "answered_flag_mask = 0x4000000000000000"
definition high_prioity_flag_mask :: u64 where "high_prioity_flag_mask = 0x2000000000000000"
definition request_id_mask :: u64 where "request_id_mask = 0x1FFFFFFFFFFFFFFF"

definition invalid_message_id :: message_id where
  "invalid_message_id = Message_Id 0"

definition pre_increment :: "message_id \<Rightarrow> message_id" where
  "pre_increment m = Message_Id (integer_value m + 1)"

definition is_response :: "message_id \<Rightarrow> bool" where
  "is_response m \<longleftrightarrow> integer_value m AND response_flag_mask \<noteq> 0"

definition is_answered :: "message_id \<Rightarrow> bool" where
  "is_answered m \<longleftrightarrow> integer_value m AND answered_flag_mask \<noteq> 0"

definition is_high_priority :: "message_id \<Rightarrow> bool" where
  "is_high_priority m \<longleftrightarrow> integer_value m AND high_prioity_flag_mask \<noteq> 0"

definition valid :: "message_id \<Rightarrow> bool" where
  "valid m \<longleftrightarrow> integer_value m AND request_id_mask \<noteq> 0"

definition is_request :: "message_id \<Rightarrow> bool" where
  "is_request m \<longleftrightarrow> valid m \<and> \<not> is_response m"

definition response_id :: "message_id \<Rightarrow> message_id" where
  "response_id m = Message_Id (if is_request m then integer_value m OR response_flag_mask else 0)"

definition request_id :: "message_id \<Rightarrow> message_id" where
  "request_id m = Message_Id (integer_value m AND request_id_mask)"

definition with_high_priority :: "message_id \<Rightarrow> message_id" where
  "with_high_priority m = Message_Id (integer_value m OR high_prioity_flag_mask)"

definition with_normal_priority :: "message_id \<Rightarrow> message_id" where
  "with_normal_priority m = Message_Id (integer_value m AND NOT high_prioity_flag_mask)"

definition mark_as_answered :: "message_id \<Rightarrow> message_id" where
  "mark_as_answered m = Message_Id (integer_value m OR answered_flag_mask)"

definition from_integer_value :: "u64 \<Rightarrow> message_id" where
  "from_integer_value v = Message_Id v"

definition make_mid :: "message_priority \<Rightarrow> message_id" where
  "make_mid prio = (let res = invalid_message_id
     in if prio = high then with_high_priority res else res)"

definition compare_mid :: "message_id \<Rightarrow> message_id \<Rightarrow> int" where
  "compare_mid m other =
     (if integer_value m = integer_value other then 0
      else if integer_value m < integer_value other then - 1 else 1)"

section \<open>Bit-level characterisation\<close>

text \<open>Every operation is determined by what it does to the 64 bits.\<close>

definition flag :: "nat \<Rightarrow> message_id \<Rightarrow> bool" where
  "flag n m \<longleftrightarrow> bit (integer_value m) n"

lemma bit_masks:
  "bit response_flag_mask n \<longleftrightarrow> n = 63"
  "bit answered_flag_mask n \<longleftrightarrow> n = 62"
  "bit high_prioity_flag_mask n \<longleftrightarrow> n = 61"
  "bit request_id_mask n \<longleftrightarrow> n < 61"
proof -
  have m: "response_flag_mask = push_bit 63 1" "answered_flag_mask = push_bit 62 1"
    "high_prioity_flag_mask = push_bit 61 1" "request_id_mask = mask 61"
    by (simp_all add: response_flag_mask_def answered_flag_mask_def high_prioity_flag_mask_def
        request_id_mask_def mask_eq_exp_minus_1)
  have p: "bit (push_bit k (1 :: u64)) n \<longleftrightarrow> n = k" if "k < 64" for k
    using that by (auto simp: bit_simps)
  show "bit response_flag_mask n \<longleftrightarrow> n = 63" "bit answered_flag_mask n \<longleftrightarrow> n = 62"
    "bit high_prioity_flag_mask n \<longleftrightarrow> n = 61" "bit request_id_mask n \<longleftrightarrow> n < 61"
    unfolding m by (rule p, simp)+ (auto simp: bit_simps)
qed

lemma and_single_bit:
  assumes "\<And>k. bit (w :: u64) k \<longleftrightarrow> k = n" and "n < 64"
  shows "(v AND w \<noteq> 0) \<longleftrightarrow> bit v n"
  using assms by (auto simp: word_eq_iff_bits bit_simps)

lemma flags_by_bits [mid_defs]:
  "is_response m \<longleftrightarrow> flag 63 m"
  "is_answered m \<longleftrightarrow> flag 62 m"
  "is_high_priority m \<longleftrightarrow> flag 61 m"
  "valid m \<longleftrightarrow> (\<exists>n < 61. flag n m)"
  by (simp_all add: is_response_def is_answered_def is_high_priority_def flag_def
      and_single_bit bit_masks)
    (force simp: valid_def word_eq_iff_bits bit_simps bit_masks)

lemma flag_ops [mid_defs]:
  "flag n (request_id m) \<longleftrightarrow> flag n m \<and> n < 61"
  "flag n (with_high_priority m) \<longleftrightarrow> flag n m \<or> n = 61"
  "flag n (with_normal_priority m) \<longleftrightarrow> flag n m \<and> n \<noteq> 61"
  "flag n (mark_as_answered m) \<longleftrightarrow> flag n m \<or> n = 62"
  "flag n (response_id m) \<longleftrightarrow> is_request m \<and> (flag n m \<or> n = 63)"
  "\<not> flag n invalid_message_id"
  by (auto simp: flag_def request_id_def with_high_priority_def with_normal_priority_def
      mark_as_answered_def response_id_def invalid_message_id_def bit_simps bit_masks
      dest: bit_imp_le_length)

lemma mid_eqI: "(\<And>n. n < 64 \<Longrightarrow> flag n m \<longleftrightarrow> flag n m') \<Longrightarrow> m = m'"
  by (cases m; cases m') (auto simp: flag_def intro: bit_word_eqI)

text \<open>Predicates of the ids the operations return, one rewrite rule per pair.\<close>

lemma predicates_of_ops [simp]:
  "valid (with_high_priority m) = valid m"
  "valid (with_normal_priority m) = valid m"
  "valid (mark_as_answered m) = valid m"
  "valid (request_id m) = valid m"
  "valid (response_id m) = is_request m"
  "is_response (with_high_priority m) = is_response m"
  "is_response (with_normal_priority m) = is_response m"
  "is_response (mark_as_answered m) = is_response m"
  "is_response (response_id m) = is_request m"
  "\<not> is_response (request_id m)"
  "is_answered (with_high_priority m) = is_answered m"
  "is_answered (with_normal_priority m) = is_answered m"
  "is_answered (mark_as_answered m)"
  "is_high_priority (with_high_priority m)"
  "\<not> is_high_priority (with_normal_priority m)"
  "\<not> valid invalid_message_id" "\<not> is_response invalid_message_id"
  by (auto simp: mid_defs is_request_def)

lemma is_request_ops [simp]:
  "is_request (with_high_priority m) = is_request m"
  "is_request (with_normal_priority m) = is_request m"
  "is_request (mark_as_answered m) = is_request m"
  "\<not> is_request (response_id m)"
  "is_request (request_id m) = valid m"
  by (auto simp: is_request_def)

lemma response_id_eq_iff:
  assumes "is_request m" and "is_request m'"
  shows "response_id m = response_id m' \<longleftrightarrow> m = m'"
proof
  assume eq: "response_id m = response_id m'"
  show "m = m'"
  proof (rule mid_eqI)
    fix n :: nat assume "n < 64"
    have "flag n (response_id m) \<longleftrightarrow> flag n (response_id m')" by (simp add: eq)
    with assms show "flag n m \<longleftrightarrow> flag n m'"
      by (cases "n = 63") (auto simp: mid_defs is_request_def)
  qed
qed simp

section \<open>The order of message ids\<close>

instantiation message_id :: linorder
begin

definition less_eq_message_id :: "message_id \<Rightarrow> message_id \<Rightarrow> bool" where
  "m \<le> m' \<longleftrightarrow> integer_value m \<le> integer_value m'"

definition less_message_id :: "message_id \<Rightarrow> message_id \<Rightarrow> bool" where
  "m < m' \<longleftrightarrow> integer_value m < integer_value m'"

instance
  by standard (auto simp: less_eq_message_id_def less_message_id_def message_id.expand)

end

lemma compare_mid_order:
  "compare_mid m m' < 0 \<longleftrightarrow> m < m'"
  "compare_mid m m' = 0 \<longleftrightarrow> m = m'"
  "compare_mid m m' > 0 \<longleftrightarrow> m' < m"
  by (auto simp: compare_mid_def less_message_id_def message_id.expand)

lemma flag_small: "integer_value m < 2 ^ 61 \<Longrightarrow> 61 \<le> n \<Longrightarrow> \<not> flag n m"
  using unat_less_not_bit [of "integer_value m" 61 n]
  by (simp add: flag_def word_less_nat_alt)

lemma pre_increment_below:
  assumes lt: "integer_value m < request_id_mask"
  shows "is_request (pre_increment m) \<and> \<not> is_high_priority (pre_increment m)
      \<and> \<not> is_answered (pre_increment m) \<and> m < pre_increment m
      \<and> request_id (pre_increment m) = pre_increment m"
proof -
  let ?m = "pre_increment m"
  have "integer_value m < integer_value ?m" and b: "integer_value ?m < 2 ^ 61"
    using lt by (simp_all add: request_id_mask_def pre_increment_def word_less_nat_alt
        unat_word_ariths)
  then have ord: "m < ?m" and "integer_value ?m \<noteq> 0"
    by (auto simp: less_message_id_def)
  then obtain n where n: "flag n ?m"
    by (auto simp: flag_def word_eq_iff_bits)
  with flag_small [OF b] have "n < 61" by (meson not_le)
  with n flag_small [OF b] have "is_request ?m" "\<not> is_high_priority ?m" "\<not> is_answered ?m"
    by (auto simp: mid_defs is_request_def)
  moreover have "request_id ?m = ?m"
    using flag_small [OF b] by (intro mid_eqI) (auto simp: mid_defs, meson not_le)
  ultimately show ?thesis using ord by simp
qed

section \<open>Properties\<close>

text \<open>
  C25: the response id of a request is a valid response id that keeps the request number and the
  priority and answered flags, the response id of anything else is the invalid id, and distinct
  requests get distinct response ids.
\<close>

theorem response_id_correct:
  "(is_request m \<longrightarrow> is_response (response_id m) \<and> valid (response_id m)
      \<and> request_id (response_id m) = request_id m
      \<and> is_high_priority (response_id m) = is_high_priority m
      \<and> is_answered (response_id m) = is_answered m)
   \<and> (\<not> is_request m \<longrightarrow> response_id m = invalid_message_id)
   \<and> (is_request m \<and> is_request m' \<and> response_id m = response_id m' \<longrightarrow> m = m')"
proof (intro conjI impI)
  assume r: "is_request m"
  show "is_response (response_id m)" "valid (response_id m)" using r by simp_all
  show "request_id (response_id m) = request_id m"
    using r by (intro mid_eqI) (auto simp: mid_defs)
  show "is_high_priority (response_id m) = is_high_priority m"
    "is_answered (response_id m) = is_answered m"
    using r by (auto simp: mid_defs)
next
  assume "\<not> is_request m"
  then show "response_id m = invalid_message_id"
    by (simp add: response_id_def invalid_message_id_def)
next
  assume "is_request m \<and> is_request m' \<and> response_id m = response_id m'"
  then show "m = m'" using response_id_eq_iff by blast
qed

theorem response_id_correct_witness:
  "is_request (Message_Id 7) \<and> response_id (Message_Id 7) = Message_Id 0x8000000000000007
   \<and> is_response (response_id (Message_Id 7)) \<and> valid (response_id (Message_Id 7))"
proof -
  have r: "is_request (Message_Id 7)"
    by (simp add: is_request_def valid_def is_response_def request_id_mask_def
        response_flag_mask_def)
  with response_id_correct [of "Message_Id 7" "Message_Id 7"] show ?thesis
    by (simp add: response_id_def response_flag_mask_def)
qed

text \<open>
  The three flags and the request number are independent of each other: each setter changes
  its own field only, switching the priority back and forth restores the id, and the request
  number is what remains when all flags are removed.
\<close>

lemma message_id_fields_independent:
  "request_id (with_high_priority m) = request_id m
   \<and> request_id (with_normal_priority m) = request_id m
   \<and> request_id (mark_as_answered m) = request_id m
   \<and> is_answered (with_high_priority m) = is_answered m
   \<and> is_response (with_high_priority m) = is_response m
   \<and> is_high_priority (mark_as_answered m) = is_high_priority m
   \<and> with_normal_priority (with_high_priority m) = with_normal_priority m
   \<and> (m = (if is_high_priority m then with_high_priority else with_normal_priority) m)
   \<and> request_id m = request_id (request_id m)
   \<and> (\<not> is_response (request_id m) \<and> \<not> is_answered (request_id m)
      \<and> \<not> is_high_priority (request_id m))"
  by (intro conjI mid_eqI) (auto simp: mid_defs)

text \<open>
  C31: incrementing a request number below \<open>2 ^ 61 - 1\<close> yields the next valid request with no flag
  raised, and the increment after the last number runs into the high-priority flag: it produces
  an id that is not a request at all.
\<close>

theorem pre_increment_wraps_into_flags:
  "(integer_value m < request_id_mask \<longrightarrow>
      is_request (pre_increment m) \<and> \<not> is_high_priority (pre_increment m)
      \<and> \<not> is_answered (pre_increment m) \<and> m < pre_increment m
      \<and> request_id (pre_increment m) = pre_increment m)
   \<and> (integer_value m = request_id_mask \<longrightarrow>
      pre_increment m = make_mid high \<and> \<not> is_request (pre_increment m))"
  using pre_increment_below [of m]
  by (auto simp: pre_increment_def request_id_mask_def make_mid_def
      with_high_priority_def invalid_message_id_def high_prioity_flag_mask_def is_request_def
      valid_def)

theorem pre_increment_wraps_into_flags_witness:
  "is_request (pre_increment (Message_Id 41))
   \<and> pre_increment (Message_Id request_id_mask) = make_mid high
   \<and> \<not> is_request (pre_increment (Message_Id request_id_mask))"
  using pre_increment_wraps_into_flags [of "Message_Id 41"]
    pre_increment_wraps_into_flags [of "Message_Id request_id_mask"]
  by (simp add: request_id_mask_def, metis)

end
