(* ===== verification/Node_Id.thy ===== *)
theory Node_Id
  imports Actor_Prelude
begin

text \<open>
  Node identifiers (node_id.hpp, node_id.cpp) and durations (duration.hpp): construction from a
  hexadecimal string, printing, comparison and the wire form of node ids, and conversion of
  durations. A node id is either invalid (no data) or a process id with a host id of 20 bytes.
  The comparison is the one of the code, built on C string comparison; its zero relation is
  characterised exactly, which shows that it identifies hosts that differ behind a zero byte.
\<close>

section \<open>Node ids\<close>

definition host_id_size :: nat where
  "host_id_size = 20"

datatype node_data = Node_Data (pid: u32) (host: "u8 list")

type_synonym node_id = "node_data option"

definition invalid_host_id :: "u8 list" where
  "invalid_host_id = replicate host_id_size 0"

definition process_id :: "node_id \<Rightarrow> u32" where
  "process_id n = (case n of None \<Rightarrow> 0 | Some d \<Rightarrow> pid d)"

definition host_id :: "node_id \<Rightarrow> u8 list" where
  "host_id n = (case n of None \<Rightarrow> invalid_host_id | Some d \<Rightarrow> host d)"

definition wf_node :: "node_id \<Rightarrow> bool" where
  "wf_node n \<longleftrightarrow> length (host_id n) = host_id_size"

text \<open>Strings are lists of character codes here.\<close>

definition isalpha :: "u8 \<Rightarrow> bool" where
  "isalpha c \<longleftrightarrow> (65 \<le> c \<and> c \<le> 90) \<or> (97 \<le> c \<and> c \<le> 122)"

definition isdigit :: "u8 \<Rightarrow> bool" where
  "isdigit c \<longleftrightarrow> 48 \<le> c \<and> c \<le> 57"

definition hex_value :: "u8 \<Rightarrow> u8" where
  "hex_value c = (if isalpha c \<and> 97 \<le> c \<and> c \<le> 102 then c - 97 + 10
                  else if isalpha c \<and> 65 \<le> c \<and> c \<le> 70 then c - 65 + 10
                  else if isdigit c then c - 48 else 0)"

fun read_hex :: "u8 list \<Rightarrow> u8 list" where
  "read_hex (a # b # r) = (push_bit 4 (hex_value a) OR hex_value b) # read_hex r"
| "read_hex _ = []"

definition node_of_hash :: "u32 \<Rightarrow> u8 list \<Rightarrow> node_id" where
  "node_of_hash procid hash =
     Some (Node_Data procid (if length hash \<noteq> host_id_size * 2 then invalid_host_id
                             else read_hex hash))"

definition hex_digit :: "nat \<Rightarrow> u8" where
  "hex_digit n = (if n < 10 then of_nat (48 + n) else of_nat (97 + (n - 10)))"

definition host_to_string :: "u8 list \<Rightarrow> u8 list" where
  "host_to_string h = concat (map (\<lambda>b. [hex_digit (unat b div 16), hex_digit (unat b mod 16)]) h)"

text \<open>The C library's string comparison on at most n bytes, reduced to its sign.\<close>

fun strncmp :: "u8 list \<Rightarrow> u8 list \<Rightarrow> nat \<Rightarrow> int" where
  "strncmp (a # xs) (b # ys) (Suc n) =
     (if a < b then - 1 else if b < a then 1 else if a = 0 then 0 else strncmp xs ys n)"
| "strncmp _ _ _ = 0"

definition compare_node :: "node_id \<Rightarrow> node_id \<Rightarrow> int" where
  "compare_node a b =
     (if a = None \<and> b = None then 0
      else if (a = None) \<noteq> (b = None) then (if a \<noteq> None then 1 else - 1)
      else let tmp = strncmp (host_id a) (host_id b) host_id_size in
        if tmp \<noteq> 0 then tmp
        else if process_id a < process_id b then - 1
        else if process_id a = process_id b then 0 else 1)"

definition compare_invalid_node :: "node_id \<Rightarrow> int" where
  "compare_invalid_node a = (if a \<noteq> None then 1 else 0)"

text \<open>The wire form: the raw host id followed by the process id, here as a word.\<close>

definition serialize_node :: "node_id \<Rightarrow> u8 list \<times> u32" where
  "serialize_node n = (host_id n, process_id n)"

definition deserialize_node :: "u8 list \<times> u32 \<Rightarrow> node_id" where
  "deserialize_node w = (if snd w = 0 \<and> list_all (\<lambda>b. b = 0) (fst w) then None
                         else Some (Node_Data (snd w) (fst w)))"

section \<open>Durations\<close>

datatype time_unit = invalid_unit | seconds | milliseconds | microseconds

datatype duration = Duration (unit_of: time_unit) (count_of: u64)

definition invalid_duration :: duration where
  "invalid_duration = Duration invalid_unit 0"

definition duration_valid :: "duration \<Rightarrow> bool" where
  "duration_valid d \<longleftrightarrow> unit_of d \<noteq> invalid_unit"

definition duration_is_zero :: "duration \<Rightarrow> bool" where
  "duration_is_zero d \<longleftrightarrow> count_of d = 0"

definition ratio_to_time_unit :: "int \<Rightarrow> int \<Rightarrow> time_unit" where
  "ratio_to_time_unit num den =
     (if num = 1 \<and> den = 1 then seconds
      else if num = 1 \<and> den = 1000 then milliseconds
      else if num = 1 \<and> den = 1000000 then microseconds
      else if num = 60 \<and> den = 1 then seconds else invalid_unit)"

text \<open>The converting constructor: Inl is the exception for negative counts.\<close>

definition duration_of_chrono :: "int \<Rightarrow> int \<Rightarrow> int \<Rightarrow> string + duration" where
  "duration_of_chrono c num den =
     (if c < 0 then Inl ''negative durations are not supported''
      else Inr (Duration (ratio_to_time_unit num den) (of_int c * of_int num)))"

text \<open>Advancing a time point counted in microseconds.\<close>

definition add_duration :: "int \<Rightarrow> duration \<Rightarrow> int" where
  "add_duration t d = (case unit_of d of
     seconds \<Rightarrow> t + sint (count_of d) * 1000000
   | milliseconds \<Rightarrow> t + sint (count_of d) * 1000
   | microseconds \<Rightarrow> t + sint (count_of d)
   | invalid_unit \<Rightarrow> t)"

section \<open>Hexadecimal representation\<close>

lemma hex_value_digit: "n < 16 \<Longrightarrow> hex_value (hex_digit n) = of_nat n"
proof -
  assume "n < 16"
  moreover have "list_all (\<lambda>n. hex_value (hex_digit n) = of_nat n) [0..<16]" by code_simp
  ultimately show ?thesis by (simp add: list_all_iff)
qed

lemma nibbles: "push_bit 4 (of_nat (unat b div 16)) OR of_nat (unat b mod 16) = (b :: u8)"
proof (rule word_unat_eq_iff [THEN iffD2])
  have "unat b < 256" using unsigned_less [of b] by simp
  then have a: "unat (of_nat (unat b div 16) :: u8) = unat b div 16"
    and c: "unat (of_nat (unat b mod 16) :: u8) = unat b mod 16"
    by (simp_all add: unat_of_nat)
  have "unat (push_bit 4 (of_nat (unat b div 16)) OR of_nat (unat b mod 16) :: u8)
      = (unat b div 16) * 2 ^ 4 + unat b mod 16"
    using unat_push_or [of "of_nat (unat b div 16) :: u8" 4 "of_nat (unat b mod 16)"] a c \<open>unat b < 256\<close>
    by (simp add: div_less_iff_less_mult)
  then show "unat (push_bit 4 (of_nat (unat b div 16)) OR of_nat (unat b mod 16) :: u8) = unat b"
    by simp
qed

lemma read_hex_host_to_string: "read_hex (host_to_string h) = h"
proof (induction h)
  case (Cons b h)
  have "unat b < 256" using unsigned_less [of b] by simp
  then have "hex_value (hex_digit (unat b div 16)) = of_nat (unat b div 16)"
    and "hex_value (hex_digit (unat b mod 16)) = of_nat (unat b mod 16)"
    by (simp_all add: hex_value_digit div_less_iff_less_mult)
  with Cons show ?case by (simp add: host_to_string_def nibbles)
qed (simp add: host_to_string_def)

lemma length_host_to_string: "length (host_to_string h) = 2 * length h"
  by (induction h) (simp_all add: host_to_string_def)

section \<open>Comparison\<close>

abbreviation c_string :: "u8 list \<Rightarrow> u8 list" where
  "c_string \<equiv> takeWhile (\<lambda>b. b \<noteq> 0)"

lemma strncmp_zero_iff:
  "length xs = n \<Longrightarrow> length ys = n \<Longrightarrow> strncmp xs ys n = 0 \<longleftrightarrow> c_string xs = c_string ys"
  by (induction xs ys n rule: strncmp.induct) auto

lemma strncmp_antisym: "strncmp ys xs n = - strncmp xs ys n"
proof (induction xs ys n rule: strncmp.induct)
  case (1 a xs b ys n)
  then show ?case by (cases "a < b"; cases "b < a") (auto simp: not_less)
qed simp_all

lemma strncmp_trans:
  "strncmp xs ys n \<le> 0 \<Longrightarrow> strncmp ys zs n \<le> 0 \<Longrightarrow> length xs = n \<Longrightarrow> length ys = n \<Longrightarrow> length zs = n
    \<Longrightarrow> strncmp xs zs n \<le> 0 \<and> (strncmp xs zs n = 0 \<longrightarrow> strncmp xs ys n = 0 \<and> strncmp ys zs n = 0)"
proof (induction n arbitrary: xs ys zs)
  case (Suc n)
  obtain a xs' where xs: "xs = a # xs'" using Suc.prems by (cases xs) auto
  obtain b ys' where ys: "ys = b # ys'" using Suc.prems by (cases ys) auto
  obtain c zs' where zs: "zs = c # zs'" using Suc.prems by (cases zs) auto
  show ?case using Suc.prems Suc.IH [of xs' ys' zs']
    by (auto simp: xs ys zs split: if_splits)
qed simp

lemma compare_node_antisym: "compare_node b a = - compare_node a b"
  using strncmp_antisym [of "host_id b" "host_id a" host_id_size]
  by (auto simp: compare_node_def Let_def)

lemma compare_node_trans:
  assumes "compare_node a b \<le> 0" and "compare_node b c \<le> 0"
    and "wf_node a" and "wf_node b" and "wf_node c"
  shows "compare_node a c \<le> 0"
proof (cases "a = None \<or> b = None \<or> c = None")
  case True
  then show ?thesis using assms(1,2) by (auto simp: compare_node_def split: if_splits)
next
  case False
  have l: "length (host_id a) = host_id_size" "length (host_id b) = host_id_size"
    "length (host_id c) = host_id_size" using assms(3-5) by (simp_all add: wf_node_def)
  have "strncmp (host_id a) (host_id b) host_id_size \<le> 0"
    and "strncmp (host_id b) (host_id c) host_id_size \<le> 0"
    using assms(1,2) False by (auto simp: compare_node_def Let_def split: if_splits)
  from strncmp_trans [OF this l] show ?thesis
    using assms(1,2) False by (auto simp: compare_node_def Let_def split: if_splits)
qed

section \<open>Properties\<close>

text \<open>
  node_id::compare is antisymmetric, transitive and ranks the invalid node below all others,
  but its notion of equality is that of C strings: two valid nodes compare equal exactly when
  their process ids agree and their host ids agree up to the first zero byte.
\<close>

lemma compare_node_correct:
  assumes "wf_node a" and "wf_node b" and "wf_node c" and "wf_node (Some d)" and "wf_node (Some e)"
  shows "compare_node b a = - compare_node a b
    \<and> (compare_node a b \<le> 0 \<longrightarrow> compare_node b c \<le> 0 \<longrightarrow> compare_node a c \<le> 0)
    \<and> compare_node None (Some d) = - 1
    \<and> compare_node a None = compare_invalid_node a
    \<and> (compare_node (Some d) (Some e) = 0 \<longleftrightarrow> pid d = pid e \<and> c_string (host d) = c_string (host e))"
proof (intro conjI impI)
  show "compare_node b a = - compare_node a b" by (rule compare_node_antisym)
  show "compare_node a b \<le> 0 \<Longrightarrow> compare_node b c \<le> 0 \<Longrightarrow> compare_node a c \<le> 0"
    using compare_node_trans assms(1-3) by blast
  show "compare_node None (Some d) = - 1" by (simp add: compare_node_def)
  show "compare_node a None = compare_invalid_node a"
    by (auto simp: compare_node_def compare_invalid_node_def)
  show "compare_node (Some d) (Some e) = 0 \<longleftrightarrow> pid d = pid e \<and> c_string (host d) = c_string (host e)"
    using strncmp_zero_iff [of "host d" host_id_size "host e"] assms(4,5)
    by (auto simp: compare_node_def Let_def wf_node_def host_id_def process_id_def)
qed

text \<open>Two different hosts of the same process number that the code takes for the same node.\<close>

lemma compare_node_correct_witness:
  "let a = Some (Node_Data 7 (1 # 0 # replicate 18 2)); b = Some (Node_Data 7 (1 # 0 # replicate 18 3))
   in wf_node a \<and> wf_node b \<and> a \<noteq> b \<and> compare_node a b = 0
      \<and> compare_node None a \<le> 0 \<and> compare_node None b \<le> 0 \<and> compare_node b None = 1"
proof -
  let ?d = "Node_Data 7 (1 # 0 # replicate 18 2)"
  let ?e = "Node_Data 7 (1 # 0 # replicate 18 3)"
  have w: "wf_node (Some ?d)" "wf_node (Some ?e)" "wf_node None"
    by (simp_all add: wf_node_def host_id_def host_id_size_def invalid_host_id_def)
  show ?thesis
    using compare_node_correct [OF w(3,1,2,1,2)] compare_node_correct [OF w(2,1,1,1,2)] w(1,2)
    by (simp add: Let_def compare_invalid_node_def)
qed

text \<open>
  A host id survives printing as a hexadecimal string and parsing by the constructor of
  node_id, and a node id survives its wire form, except that the valid node with process id and
  host id zero is read back as the invalid node.
\<close>

lemma node_id_roundtrip:
  assumes "wf_node (Some d)"
  shows "node_of_hash (pid d) (host_to_string (host d)) = Some d
    \<and> deserialize_node (serialize_node (Some d)) =
      (if pid d = 0 \<and> host d = invalid_host_id then None else Some d)
    \<and> deserialize_node (serialize_node None) = None"
proof (intro conjI)
  have l: "length (host d) = host_id_size" using assms by (simp add: wf_node_def host_id_def)
  then show "node_of_hash (pid d) (host_to_string (host d)) = Some d"
    by (simp add: node_of_hash_def length_host_to_string read_hex_host_to_string)
  have "list_all (\<lambda>b. b = 0) (host d) \<longleftrightarrow> host d = invalid_host_id"
    using l by (auto simp: invalid_host_id_def list_all_iff replicate_eqI)
  then show "deserialize_node (serialize_node (Some d)) =
      (if pid d = 0 \<and> host d = invalid_host_id then None else Some d)"
    by (simp add: deserialize_node_def serialize_node_def host_id_def process_id_def)
  show "deserialize_node (serialize_node None) = None"
    by (simp add: deserialize_node_def serialize_node_def host_id_def process_id_def invalid_host_id_def
        list_all_iff)
qed

lemma node_id_roundtrip_witness:
  "node_of_hash 7 (host_to_string (replicate 20 171)) = Some (Node_Data 7 (replicate 20 171))
   \<and> deserialize_node (serialize_node (Some (Node_Data 7 (replicate 20 171))))
     = Some (Node_Data 7 (replicate 20 171))"
  using node_id_roundtrip [of "Node_Data 7 (replicate 20 171)"]
  by (simp add: wf_node_def host_id_def host_id_size_def)

end
