(* ===== verification/Message.thy ===== *)
theory Message
  imports Message_Id Node_Id "HOL-Library.Sublist" "HOL-Library.Multiset"
begin

text \<open>
  Messages: type-erased tuples (message.hpp, message.cpp) and the representations behind them
  (tuple_vals, decorated_tuple, concatenated_tuple, message_builder), with the type numbers and
  type tokens of type_nr.hpp. A message is a possibly absent message_data; the views created by
  drop, slice and concat are kept as the code builds them (index mappings and flattened
  concatenations), and the lemmas show that each is the list operation it stands for and that the
  cached type token is the token of its elements. The pattern matcher lives in Try_Match.
\<close>

section \<open>Types and elements\<close>

type_synonym actor_addr = "nat option"
type_synonym group_ptr = nat

abbreviation (input) invalid_actor_addr :: actor_addr where
  "invalid_actor_addr \<equiv> None"

datatype type_id =
    T_actor | T_actorvec | T_addr | T_addrvec | T_atom | T_channel | T_charbuf | T_down
  | T_duration | T_exit | T_group | T_group_down | T_i16 | T_i32 | T_i64 | T_i8 | T_ldouble
  | T_message | T_message_id | T_node | T_str | T_strmap | T_strset | T_strvec | T_sync_exited
  | T_sync_timeout | T_timeout | T_u16 | T_u16str | T_u32 | T_u32str | T_u64 | T_u8 | T_unit
  | T_bool | T_double | T_float | T_custom nat

definition sorted_builtin_types :: "type_id list" where
  "sorted_builtin_types =
    [T_actor, T_actorvec, T_addr, T_addrvec, T_atom, T_channel, T_charbuf, T_down,
     T_duration, T_exit, T_group, T_group_down, T_i16, T_i32, T_i64, T_i8, T_ldouble,
     T_message, T_message_id, T_node, T_str, T_strmap, T_strset, T_strvec, T_sync_exited,
     T_sync_timeout, T_timeout, T_u16, T_u16str, T_u32, T_u32str, T_u64, T_u8, T_unit,
     T_bool, T_double, T_float]"

text \<open>The position of a type in a list, minus one when it is absent.\<close>

fun tl_find :: "type_id list \<Rightarrow> type_id \<Rightarrow> nat \<Rightarrow> int" where
  "tl_find [] t p = - 1"
| "tl_find (x # xs) t p = (if x = t then int p else tl_find xs t (Suc p))"

definition type_nr :: "type_id \<Rightarrow> u16" where
  "type_nr t = of_int (tl_find sorted_builtin_types t 0 + 1)"

text \<open>The type number of an integral type by its size in bytes and signedness.\<close>

definition int_types_by_size :: "(type_id \<times> type_id) option list" where
  "int_types_by_size = [None, Some (T_i8, T_u8), Some (T_i16, T_u16), None, Some (T_i32, T_u32),
     None, None, None, Some (T_i64, T_u64)]"

definition type_nr_integral :: "nat \<Rightarrow> bool \<Rightarrow> u16 option" where
  "type_nr_integral bytes is_signed =
     (if bytes < length int_types_by_size
      then map_option (\<lambda>p. type_nr (if is_signed then fst p else snd p)) (int_types_by_size ! bytes)
      else None)"

text \<open>
  Elements of a message. Opaque stands for a value of a floating point type or of a type of the
  user; sets and maps of strings are sorted lists.
\<close>

datatype elem =
    Actor actor_addr | Actorvec "actor_addr list" | Addr actor_addr | Addrvec "actor_addr list" | Atom u64
  | Channel "(nat + group_ptr) option" | Charbuf "u8 list"
  | Down actor_addr u32 | Dur duration | Exit actor_addr u32 | Group "group_ptr option" | Group_Down "group_ptr option"
  | I16 u16 | I32 u32 | I64 u64 | I8 u8
  | Msg "elem list" | Mid message_id | Node node_id | Str string | Strmap "(string \<times> string) list"
  | Strset "string list" | Strvec "string list"
  | Sync_Exited actor_addr u32 | Sync_Timeout | Timeout u32
  | U16 u16 | U16str "u16 list" | U32 u32 | U32str "u32 list" | U64 u64 | U8 u8 | Unit | Bool bool | Opaque type_id nat

fun type_of :: "elem \<Rightarrow> type_id" where
  "type_of (Actor _) = T_actor"
| "type_of (Actorvec _) = T_actorvec"
| "type_of (Addr _) = T_addr"
| "type_of (Addrvec _) = T_addrvec"
| "type_of (Atom _) = T_atom"
| "type_of (Channel _) = T_channel"
| "type_of (Charbuf _) = T_charbuf"
| "type_of (Down _ _) = T_down"
| "type_of (Dur _) = T_duration"
| "type_of (Exit _ _) = T_exit"
| "type_of (Group _) = T_group"
| "type_of (Group_Down _) = T_group_down"
| "type_of (I16 _) = T_i16"
| "type_of (I32 _) = T_i32"
| "type_of (I64 _) = T_i64"
| "type_of (I8 _) = T_i8"
| "type_of (Msg _) = T_message"
| "type_of (Mid _) = T_message_id"
| "type_of (Node _) = T_node"
| "type_of (Str _) = T_str"
| "type_of (Strmap _) = T_strmap"
| "type_of (Strset _) = T_strset"
| "type_of (Strvec _) = T_strvec"
| "type_of (Sync_Exited _ _) = T_sync_exited"
| "type_of Sync_Timeout = T_sync_timeout"
| "type_of (Timeout _) = T_timeout"
| "type_of (U16 _) = T_u16"
| "type_of (U16str _) = T_u16str"
| "type_of (U32 _) = T_u32"
| "type_of (U32str _) = T_u32str"
| "type_of (U64 _) = T_u64"
| "type_of (U8 _) = T_u8"
| "type_of Unit = T_unit"
| "type_of (Bool _) = T_bool"
| "type_of (Opaque t _) = t"

text \<open>The run-time type information of types without a number.\<close>

fun rtti_of :: "type_id \<Rightarrow> nat option" where
  "rtti_of (T_custom n) = Some n"
| "rtti_of _ = None"

section \<open>Type tokens\<close>

definition make_type_token :: u32 where
  "make_type_token = 0xFFFFFFFF"

definition add_to_type_token :: "u32 \<Rightarrow> u16 \<Rightarrow> u32" where
  "add_to_type_token token tnr = push_bit 6 token OR ucast tnr"

fun type_token_helper :: "u32 \<Rightarrow> u16 list \<Rightarrow> u32" where
  "type_token_helper r [] = r"
| "type_token_helper r (i # is) = type_token_helper (push_bit 6 r OR ucast i) is"

definition make_type_token_from_list :: "type_id list \<Rightarrow> u32" where
  "make_type_token_from_list ts = type_token_helper 0xFFFFFFFF (map type_nr ts)"

section \<open>Message data\<close>

datatype message_data =
    Tuple_Vals "elem list"
  | Decorated message_data "nat list" u32
  | Concatenated "message_data list" u32 nat

fun md_size :: "message_data \<Rightarrow> nat" where
  "md_size (Tuple_Vals xs) = length xs"
| "md_size (Decorated d m t) = length m"
| "md_size (Concatenated ds t n) = n"

text \<open>None is the exception thrown for a position behind the last element.\<close>

fun select_tuple :: "message_data list \<Rightarrow> nat \<Rightarrow> (message_data \<times> nat) option" where
  "select_tuple [] idx = None"
| "select_tuple (m # ms) idx =
     (if md_size m \<le> idx then select_tuple ms (idx - md_size m) else Some (m, idx))"

lemma select_tuple_in_set: "select_tuple ds i = Some (m, j) \<Longrightarrow> m \<in> set ds \<and> j < md_size m"
  by (induction ds i rule: select_tuple.induct) (auto split: if_splits)

text \<open>
  All element accessors of the representations dispatch to the stored element in the same way;
  the accessed feature is a parameter. None marks an access out of range.
\<close>

function md_access :: "(elem \<Rightarrow> 'a) \<Rightarrow> message_data \<Rightarrow> nat \<Rightarrow> 'a option" where
  "md_access f (Tuple_Vals xs) pos = (if pos < length xs then Some (f (xs ! pos)) else None)"
| "md_access f (Decorated d m t) pos = (if pos < length m then md_access f d (m ! pos) else None)"
| "md_access f (Concatenated ds t n) pos =
     (case select_tuple ds pos of None \<Rightarrow> None | Some (m, i) \<Rightarrow> md_access f m i)"
  by pat_completeness auto

termination md_access
proof (relation "measure (\<lambda>(f, d, p). size d)")
  fix ds t n pos a and m :: message_data and i
  assume a: "select_tuple ds pos = Some a" "(m, i) = a"
  then have "m \<in> set ds" using select_tuple_in_set by metis
  then have "size m \<le> size_list size ds" by (metis size_list_estimation' order_refl)
  then show "((f, m, i), f, Concatenated ds t n, pos) \<in> measure (\<lambda>(f, d, p). size d)" for f :: "elem \<Rightarrow> 'a"
    by simp
qed auto

definition md_at :: "message_data \<Rightarrow> nat \<Rightarrow> elem option" where
  "md_at d pos = md_access (\<lambda>e. e) d pos"

definition md_type_nr_at :: "message_data \<Rightarrow> nat \<Rightarrow> u16 option" where
  "md_type_nr_at d pos = md_access (\<lambda>e. type_nr (type_of e)) d pos"

text \<open>The comparison of an element's type with a type number and run-time type information.\<close>

definition elem_matches :: "u16 \<Rightarrow> nat option \<Rightarrow> elem \<Rightarrow> bool" where
  "elem_matches tnr rtti e = (let et = type_nr (type_of e) in
     if et \<noteq> tnr then False else et \<noteq> 0 \<or> rtti = rtti_of (type_of e))"

definition md_match_element :: "message_data \<Rightarrow> nat \<Rightarrow> u16 \<Rightarrow> nat option \<Rightarrow> bool option" where
  "md_match_element d pos tnr rtti = md_access (elem_matches tnr rtti) d pos"

fun md_type_token :: "message_data \<Rightarrow> u32" where
  "md_type_token (Tuple_Vals xs) = make_type_token_from_list (map type_of xs)"
| "md_type_token (Decorated d m t) = t"
| "md_type_token (Concatenated ds t n) = t"

text \<open>
  The constructor of decorated_tuple computes the token over the mapped type numbers; None is an
  index out of range (an assertion in the code).
\<close>

fun decorated_token :: "message_data \<Rightarrow> nat list \<Rightarrow> u32 \<Rightarrow> u32 option" where
  "decorated_token d [] t = Some t"
| "decorated_token d (i # is) t = (case md_type_nr_at d i of None \<Rightarrow> None
     | Some tnr \<Rightarrow> decorated_token d is (push_bit 6 t OR ucast tnr))"

definition decorated_tuple :: "message_data \<Rightarrow> nat list \<Rightarrow> message_data option" where
  "decorated_tuple d v = map_option (Decorated d v) (decorated_token d v 0xFFFFFFFF)"

definition decorated_make :: "message_data \<Rightarrow> nat list \<Rightarrow> message_data option" where
  "decorated_make d v = (case d of
     Decorated d' pmap t \<Rightarrow>
       (if list_all (\<lambda>i. i < length pmap) v then decorated_tuple d' (map (\<lambda>i. pmap ! i) v) else None)
   | _ \<Rightarrow> decorated_tuple d v)"

fun concat_parts :: "message_data option list \<Rightarrow> message_data list" where
  "concat_parts [] = []"
| "concat_parts (None # xs) = concat_parts xs"
| "concat_parts (Some (Concatenated ds t n) # xs) = ds @ concat_parts xs"
| "concat_parts (Some d # xs) = d # concat_parts xs"

definition md_type_nrs :: "message_data \<Rightarrow> u16 list" where
  "md_type_nrs d = map (\<lambda>i. the (md_type_nr_at d i)) [0..<md_size d]"

definition concatenated_tuple :: "message_data option list \<Rightarrow> message_data" where
  "concatenated_tuple xs = (let ds = concat_parts xs in
     Concatenated ds
       (foldl add_to_type_token make_type_token (concat (map md_type_nrs ds)))
       (foldl (\<lambda>tmp d. tmp + md_size d) 0 ds))"

text \<open>
  Value comparison: by size, then by type names, then by values. Elements of the model carry both
  their type and value, so that the last two steps are the comparison of elements.
\<close>

definition md_equals :: "message_data \<Rightarrow> message_data \<Rightarrow> bool" where
  "md_equals a b \<longleftrightarrow> md_size a = md_size b
     \<and> list_all (\<lambda>i. map_option type_of (md_at a i) = map_option type_of (md_at b i)) [0..<md_size a]
     \<and> list_all (\<lambda>i. md_at a i = md_at b i) [0..<md_size a]"

section \<open>Messages\<close>

type_synonym message = "message_data option"

definition make_message :: "elem list \<Rightarrow> message" where
  "make_message xs = (if xs = [] then None else Some (Tuple_Vals xs))"

definition msg_size :: "message \<Rightarrow> nat" where
  "msg_size m = (case m of None \<Rightarrow> 0 | Some d \<Rightarrow> md_size d)"

definition msg_empty :: "message \<Rightarrow> bool" where
  "msg_empty m \<longleftrightarrow> msg_size m = 0"

definition msg_type_token :: "message \<Rightarrow> u32" where
  "msg_type_token m = (case m of None \<Rightarrow> 0xFFFFFFFF | Some d \<Rightarrow> md_type_token d)"

definition msg_at :: "message \<Rightarrow> nat \<Rightarrow> elem option" where
  "msg_at m p = (case m of None \<Rightarrow> None | Some d \<Rightarrow> md_at d p)"

definition msg_match_element :: "message \<Rightarrow> nat \<Rightarrow> u16 \<Rightarrow> nat option \<Rightarrow> bool option" where
  "msg_match_element m p tnr rtti = (case m of None \<Rightarrow> None | Some d \<Rightarrow> md_match_element d p tnr rtti)"

definition msg_equals :: "message \<Rightarrow> message \<Rightarrow> bool" where
  "msg_equals a b =
     (if msg_empty a then msg_empty b
      else if msg_empty b then False else md_equals (the a) (the b))"

text \<open>A view on a message by an index mapping; the inner option is the message.\<close>

definition decorate_msg :: "message \<Rightarrow> nat list \<Rightarrow> message option" where
  "decorate_msg m v = (case m of None \<Rightarrow> None | Some d \<Rightarrow> map_option Some (decorated_make d v))"

definition msg_drop :: "message \<Rightarrow> nat \<Rightarrow> message option" where
  "msg_drop m n = (if n = 0 then Some m else if n \<ge> msg_size m then Some None
     else decorate_msg m [n..<msg_size m])"

definition msg_drop_right :: "message \<Rightarrow> nat \<Rightarrow> message option" where
  "msg_drop_right m n = (if n = 0 then Some m else if n \<ge> msg_size m then Some None
     else decorate_msg m [0..<msg_size m - n])"

definition msg_take :: "message \<Rightarrow> nat \<Rightarrow> message option" where
  "msg_take m n = (if n \<ge> msg_size m then Some m else msg_drop_right m (msg_size m - n))"

definition msg_take_right :: "message \<Rightarrow> nat \<Rightarrow> message option" where
  "msg_take_right m n = (if n \<ge> msg_size m then Some m else msg_drop m (msg_size m - n))"

definition msg_slice :: "message \<Rightarrow> nat \<Rightarrow> nat \<Rightarrow> message option" where
  "msg_slice m pos n = (let s = msg_size m in if pos \<ge> s then Some None
     else decorate_msg m [pos..<pos + min (s - pos) n])"

definition concat_impl :: "message list \<Rightarrow> message" where
  "concat_impl xs = (case filter (\<lambda>p. p \<noteq> None) xs of
     [] \<Rightarrow> None | [d] \<Rightarrow> d | _ \<Rightarrow> Some (concatenated_tuple xs))"

fun match_elements_impl :: "message \<Rightarrow> nat \<Rightarrow> type_id list \<Rightarrow> bool" where
  "match_elements_impl m p [] = True"
| "match_elements_impl m p (t # ts) =
     (msg_match_element m p (type_nr t) (rtti_of t) = Some True \<and> match_elements_impl m (Suc p) ts)"

definition match_elements :: "message \<Rightarrow> type_id list \<Rightarrow> bool" where
  "match_elements m ts \<longleftrightarrow> msg_size m = length ts \<and> match_elements_impl m 0 ts"

text \<open>
  Extraction: slices are offered to the handler from left to right and from long to short; an
  accepted slice is cut out and the search goes on at the same index. The handler may keep state.
\<close>

fun try_slices :: "('s \<Rightarrow> message \<Rightarrow> bool \<times> 's) \<Rightarrow> 's \<Rightarrow> message \<Rightarrow> nat \<Rightarrow> nat \<Rightarrow> (nat option \<times> 's) option" where
  "try_slices h st m i 0 = Some (None, st)"
| "try_slices h st m i (Suc n) = (case msg_slice m i (Suc n) of None \<Rightarrow> None
     | Some sl \<Rightarrow> (case h st sl of
         (True, st') \<Rightarrow> Some (Some (Suc n), st')
       | (False, st') \<Rightarrow> try_slices h st' m i n))"

function find_slice :: "('s \<Rightarrow> message \<Rightarrow> bool \<times> 's) \<Rightarrow> 's \<Rightarrow> message \<Rightarrow> nat \<Rightarrow> ((nat \<times> nat) option \<times> 's) option" where
  "find_slice h st m i = (if i \<ge> msg_size m then Some (None, st) else
     case try_slices h st m i (msg_size m - i) of None \<Rightarrow> None
     | Some (Some n, st') \<Rightarrow> Some (Some (i, n), st')
     | Some (None, st') \<Rightarrow> find_slice h st' m (Suc i))"
  by pat_completeness auto

termination find_slice
  by (relation "measure (\<lambda>(h, st, m, i). msg_size m - i)") auto

declare find_slice.simps [simp del]

definition cut_mapping :: "nat \<Rightarrow> nat \<Rightarrow> nat \<Rightarrow> nat list" where
  "cut_mapping s i n = [0..<i] @ [i + n..<s]"

text \<open>Each accepted slice shortens the message, so that size + 1 rounds are enough fuel.\<close>

fun extract_fuel :: "nat \<Rightarrow> ('s \<Rightarrow> message \<Rightarrow> bool \<times> 's) \<Rightarrow> 's \<Rightarrow> message \<Rightarrow> nat \<Rightarrow> (message \<times> 's) option" where
  "extract_fuel 0 h st m start = None"
| "extract_fuel (Suc k) h st m start = (case find_slice h st m start of None \<Rightarrow> None
     | Some (None, st') \<Rightarrow> Some (m, st')
     | Some (Some (i, n), st') \<Rightarrow>
         (let mapping = cut_mapping (msg_size m) i n in
          if mapping = [] then Some (None, st')
          else case decorate_msg m mapping of None \<Rightarrow> None
            | Some m' \<Rightarrow> extract_fuel k h st' m' i))"

definition extract_msg :: "('s \<Rightarrow> message \<Rightarrow> bool \<times> 's) \<Rightarrow> 's \<Rightarrow> message \<Rightarrow> (message \<times> 's) option" where
  "extract_msg h st m = extract_fuel (Suc (msg_size m)) h st m 0"

section \<open>The builder\<close>

record message_builder =
  elements :: "elem list"
  builder_token :: u32

definition builder_init :: message_builder where
  "builder_init = \<lparr>elements = [], builder_token = 0xFFFFFFFF\<rparr>"

definition builder_append :: "message_builder \<Rightarrow> elem \<Rightarrow> message_builder" where
  "builder_append b e = \<lparr>elements = elements b @ [e],
     builder_token = push_bit 6 (builder_token b) OR ucast (type_nr (type_of e))\<rparr>"

definition builder_clear :: "message_builder \<Rightarrow> message_builder" where
  "builder_clear b = \<lparr>elements = [], builder_token = 0xFFFFFFFF\<rparr>"

definition builder_to_message :: "message_builder \<Rightarrow> message" where
  "builder_to_message b = Some (Tuple_Vals (elements b))"

section \<open>Elements of a representation\<close>

fun elems :: "message_data \<Rightarrow> elem list" where
  "elems (Tuple_Vals xs) = xs"
| "elems (Decorated d m t) = map (\<lambda>i. elems d ! i) m"
| "elems (Concatenated ds t n) = concat (map elems ds)"

definition contents_of :: "message \<Rightarrow> elem list" where
  "contents_of m = (case m of None \<Rightarrow> [] | Some d \<Rightarrow> elems d)"

abbreviation token_of :: "elem list \<Rightarrow> u32" where
  "token_of xs \<equiv> make_type_token_from_list (map type_of xs)"

fun wf_md :: "message_data \<Rightarrow> bool" where
  "wf_md (Tuple_Vals xs) \<longleftrightarrow> True"
| "wf_md (Decorated d m t) \<longleftrightarrow> wf_md d \<and> list_all (\<lambda>i. i < md_size d) m
     \<and> t = token_of (map (\<lambda>i. elems d ! i) m)"
| "wf_md (Concatenated ds t n) \<longleftrightarrow> list_all wf_md ds
     \<and> t = token_of (concat (map elems ds)) \<and> n = sum_list (map md_size ds)"

definition wf_msg :: "message \<Rightarrow> bool" where
  "wf_msg m = (case m of None \<Rightarrow> True | Some d \<Rightarrow> wf_md d)"

lemma length_elems [simp]: "wf_md d \<Longrightarrow> length (elems d) = md_size d"
  by (induction d rule: wf_md.induct)
    (auto simp: length_concat comp_def list_all_iff intro!: arg_cong [of _ _ sum_list])

lemma select_tuple_elems:
  "list_all wf_md ds \<Longrightarrow> i < sum_list (map md_size ds) \<Longrightarrow>
   \<exists>m j. select_tuple ds i = Some (m, j) \<and> m \<in> set ds \<and> j < md_size m
     \<and> concat (map elems ds) ! i = elems m ! j"
proof (induction ds i rule: select_tuple.induct)
  case (2 m ms idx)
  show ?case
  proof (cases "md_size m \<le> idx")
    case True
    then have "idx - md_size m < sum_list (map md_size ms)" using "2.prems"(2) by simp
    then show ?thesis using "2.IH" True "2.prems"(1) by (auto simp: nth_append)
  next
    case False
    then show ?thesis using "2.prems"(1) by (auto simp: nth_append)
  qed
qed simp

lemma select_tuple_none:
  "sum_list (map md_size ds) \<le> i \<Longrightarrow> select_tuple ds i = None"
  by (induction ds i rule: select_tuple.induct) auto

lemma md_access_elems:
  "wf_md d \<Longrightarrow> md_access f d i = (if i < md_size d then Some (f (elems d ! i)) else None)"
proof (induction f d i rule: md_access.induct)
  case (2 f d m t pos)
  then show ?case by (auto simp: list_all_iff)
next
  case (3 f ds t n pos)
  show ?case
  proof (cases "pos < n")
    case True
    then obtain m j where s: "select_tuple ds pos = Some (m, j)" "m \<in> set ds" "j < md_size m"
      "concat (map elems ds) ! pos = elems m ! j"
      using select_tuple_elems [of ds pos] "3.prems" by auto
    moreover have "wf_md m" using "3.prems" s(2) by (simp add: list_all_iff)
    ultimately show ?thesis using "3.IH" [OF s(1) refl] True by simp
  next
    case False
    then have "select_tuple ds pos = None" using select_tuple_none "3.prems" by simp
    with False show ?thesis by simp
  qed
qed simp

lemma md_at_elems [simp]: "wf_md d \<Longrightarrow> md_at d i = (if i < md_size d then Some (elems d ! i) else None)"
  by (simp add: md_at_def md_access_elems)

lemma md_type_nr_at_elems [simp]:
  "wf_md d \<Longrightarrow> md_type_nr_at d i = (if i < md_size d then Some (type_nr (type_of (elems d ! i))) else None)"
  by (simp add: md_type_nr_at_def md_access_elems)

lemma md_type_nrs_elems: "wf_md d \<Longrightarrow> md_type_nrs d = map (\<lambda>e. type_nr (type_of e)) (elems d)"
  by (intro nth_equalityI) (auto simp: md_type_nrs_def)

lemma msg_size_contents [simp]: "wf_msg m \<Longrightarrow> msg_size m = length (contents_of m)"
  by (auto simp: wf_msg_def msg_size_def contents_of_def split: option.splits)

section \<open>Tokens of views\<close>

lemma type_token_helper_foldl: "type_token_helper r is = foldl add_to_type_token r is"
  by (induction "is" arbitrary: r) (simp_all add: add_to_type_token_def)

lemma decorated_token_elems:
  "wf_md d \<Longrightarrow> list_all (\<lambda>i. i < md_size d) v \<Longrightarrow>
   decorated_token d v t = Some (type_token_helper t (map (\<lambda>i. type_nr (type_of (elems d ! i))) v))"
  by (induction v arbitrary: t) auto

lemma decorated_tuple_wf:
  assumes "wf_md d" and "list_all (\<lambda>i. i < md_size d) v"
  obtains r where "decorated_tuple d v = Some r" and "wf_md r" and "elems r = map (\<lambda>i. elems d ! i) v"
    and "md_size r = length v"
proof -
  let ?r = "Decorated d v (token_of (map (\<lambda>i. elems d ! i) v))"
  have "decorated_tuple d v = Some ?r"
    using assms by (simp add: decorated_tuple_def decorated_token_elems make_type_token_from_list_def comp_def)
  moreover have "wf_md ?r" using assms by simp
  ultimately show thesis using that [of ?r] by simp
qed

lemma decorated_make_wf:
  assumes "wf_md d" and "list_all (\<lambda>i. i < md_size d) v"
  obtains r where "decorated_make d v = Some r" and "wf_md r" and "elems r = map (\<lambda>i. elems d ! i) v"
proof (cases d)
  case (Decorated d' pmap t)
  have "wf_md d'" and "list_all (\<lambda>i. i < md_size d') (map (\<lambda>i. pmap ! i) v)"
    using assms Decorated by (auto simp: list_all_iff)
  from decorated_tuple_wf [OF this] obtain r where
    r: "decorated_tuple d' (map (\<lambda>i. pmap ! i) v) = Some r" "wf_md r"
      "elems r = map (\<lambda>i. elems d' ! i) (map (\<lambda>i. pmap ! i) v)" by blast
  moreover have "elems r = map (\<lambda>i. elems d ! i) v"
    using r(3) assms(2) by (auto simp: Decorated list_all_iff)
  moreover have "decorated_make d v = Some r"
    using assms(2) r(1) by (simp add: decorated_make_def Decorated)
  ultimately show thesis using that by blast
next
  case (Tuple_Vals xs)
  then have "decorated_make d v = decorated_tuple d v" by (simp add: decorated_make_def)
  then show thesis using decorated_tuple_wf [OF assms] that by metis
next
  case (Concatenated ds t n)
  then have "decorated_make d v = decorated_tuple d v" by (simp add: decorated_make_def)
  then show thesis using decorated_tuple_wf [OF assms] that by metis
qed

lemma decorate_msg_wf:
  assumes "wf_msg m" and "m \<noteq> None" and "list_all (\<lambda>i. i < msg_size m) v"
  obtains r where "decorate_msg m v = Some r" and "wf_msg r"
    and "contents_of r = map (\<lambda>i. contents_of m ! i) v"
proof -
  obtain d where d: "m = Some d" "wf_md d" using assms(1,2) by (auto simp: wf_msg_def)
  then have "list_all (\<lambda>i. i < md_size d) v" using assms(3) by (simp add: msg_size_def)
  from decorated_make_wf [OF d(2) this] obtain r where
    "decorated_make d v = Some r" "wf_md r" "elems r = map (\<lambda>i. elems d ! i) v" by blast
  then show thesis using that [of "Some r"] d
    by (simp add: decorate_msg_def wf_msg_def contents_of_def)
qed

lemma map_nth_upt: "b \<le> length xs \<Longrightarrow> map (\<lambda>i. xs ! i) [a..<b] = take (b - a) (drop a xs)"
  by (intro nth_equalityI) auto

lemma msg_none_or_some:
  "wf_msg m \<Longrightarrow> n < msg_size m \<Longrightarrow> m \<noteq> None"
  by (cases m) (simp_all add: msg_size_def)

lemma msg_slice_wf:
  assumes "wf_msg m"
  obtains r where "msg_slice m p n = Some r" and "wf_msg r" and "contents_of r = take n (drop p (contents_of m))"
proof (cases "p < msg_size m")
  case True
  let ?v = "[p..<p + min (msg_size m - p) n]"
  have "list_all (\<lambda>i. i < msg_size m) ?v" using True by (auto simp: list_all_iff)
  from decorate_msg_wf [OF assms msg_none_or_some [OF assms True] this] obtain r where
    r: "decorate_msg m ?v = Some r" "wf_msg r" "contents_of r = map (\<lambda>i. contents_of m ! i) ?v" by blast
  moreover have "map (\<lambda>i. contents_of m ! i) ?v = take n (drop p (contents_of m))"
    using True assms by (subst map_nth_upt) (auto simp: min_def)
  ultimately show thesis using that [of r] True by (simp add: msg_slice_def Let_def)
next
  case False
  then show thesis using that [of None] assms
    by (simp add: msg_slice_def wf_msg_def contents_of_def [of None])
qed

lemma msg_drop_wf:
  assumes "wf_msg m"
  obtains r where "msg_drop m n = Some r" and "wf_msg r" and "contents_of r = drop n (contents_of m)"
proof (cases "n = 0 \<or> msg_size m \<le> n")
  case True
  then show thesis using that [of "if n = 0 then m else None"] assms
    by (cases "n = 0") (auto simp: msg_drop_def wf_msg_def [of None] contents_of_def [of None])
next
  case False
  let ?v = "[n..<msg_size m]"
  have l: "list_all (\<lambda>i. i < msg_size m) ?v" by (auto simp: list_all_iff)
  have "m \<noteq> None" using msg_none_or_some [of m n] False assms by auto
  from decorate_msg_wf [OF assms this l] obtain r where
    "decorate_msg m ?v = Some r" "wf_msg r" "contents_of r = map (\<lambda>i. contents_of m ! i) ?v" by blast
  then show thesis using that [of r] False assms by (simp add: msg_drop_def map_nth_upt)
qed

lemma msg_drop_right_wf:
  assumes "wf_msg m"
  obtains r where "msg_drop_right m n = Some r" and "wf_msg r"
    and "contents_of r = take (length (contents_of m) - n) (contents_of m)"
proof (cases "n = 0 \<or> msg_size m \<le> n")
  case True
  then show thesis using that [of "if n = 0 then m else None"] assms
    by (cases "n = 0") (auto simp: msg_drop_right_def wf_msg_def [of None] contents_of_def [of None])
next
  case False
  let ?v = "[0..<msg_size m - n]"
  have l: "list_all (\<lambda>i. i < msg_size m) ?v" by (auto simp: list_all_iff)
  have "m \<noteq> None" using msg_none_or_some [of m n] False assms by auto
  from decorate_msg_wf [OF assms this l] obtain r where
    "decorate_msg m ?v = Some r" "wf_msg r" "contents_of r = map (\<lambda>i. contents_of m ! i) ?v" by blast
  then show thesis using that [of r] False assms by (simp add: msg_drop_right_def map_nth_upt)
qed

section \<open>Concatenation\<close>

lemma concat_parts_wf:
  "list_all wf_msg xs \<Longrightarrow> list_all wf_md (concat_parts xs)
     \<and> concat (map elems (concat_parts xs)) = concat (map contents_of xs)"
  by (induction xs rule: concat_parts.induct) (auto simp: wf_msg_def contents_of_def)

lemma foldl_sizes: "foldl (\<lambda>tmp d. tmp + md_size d) a ds = a + sum_list (map md_size ds)"
  by (induction ds arbitrary: a) auto

lemma concatenated_tuple_wf:
  assumes "list_all wf_msg xs"
  shows "wf_md (concatenated_tuple xs)" and "elems (concatenated_tuple xs) = concat (map contents_of xs)"
proof -
  note w = concat_parts_wf [OF assms]
  have "concat (map md_type_nrs (concat_parts xs))
      = map (\<lambda>e. type_nr (type_of e)) (concat (map elems (concat_parts xs)))"
    unfolding map_concat map_map
    using w by (intro arg_cong [of _ _ concat] map_cong) (auto simp: list_all_iff md_type_nrs_elems)
  then show "wf_md (concatenated_tuple xs)"
    using w by (simp add: concatenated_tuple_def Let_def foldl_sizes make_type_token_from_list_def
        type_token_helper_foldl make_type_token_def comp_def)
  show "elems (concatenated_tuple xs) = concat (map contents_of xs)"
    using w by (simp add: concatenated_tuple_def Let_def)
qed

lemma concat_map_filter_none:
  "concat (map contents_of (filter (\<lambda>p. p \<noteq> None) xs)) = concat (map contents_of xs)"
  by (induction xs) (auto simp: contents_of_def)

lemma concat_impl_wf:
  assumes "list_all wf_msg xs"
  shows "wf_msg (concat_impl xs)" and "contents_of (concat_impl xs) = concat (map contents_of xs)"
proof -
  have w: "list_all wf_msg (filter (\<lambda>p. p \<noteq> None) xs)" using assms by (simp add: list_all_iff)
  have c: "concat (map contents_of (filter (\<lambda>p. p \<noteq> None) xs)) = concat (map contents_of xs)"
    by (rule concat_map_filter_none)
  show "wf_msg (concat_impl xs)"
    using w concatenated_tuple_wf(1) [OF assms]
    by (auto simp: concat_impl_def wf_msg_def split: list.splits)
  show "contents_of (concat_impl xs) = concat (map contents_of xs)"
    using c concatenated_tuple_wf(2) [OF assms]
    by (auto simp: concat_impl_def contents_of_def [of "Some _"] contents_of_def [of None] split: list.splits)
qed

section \<open>Types\<close>

lemma tl_find_bounds: 
  "tl_find ts t p = - 1 \<and> t \<notin> set ts
   \<or> int p \<le> tl_find ts t p \<and> tl_find ts t p < int (p + length ts) \<and> t \<in> set ts"
  by (induction ts t p rule: tl_find.induct) auto

lemma tl_find_inj: "t \<in> set ts \<Longrightarrow> tl_find ts t p = tl_find ts t' p \<Longrightarrow> t = t'"
proof (induction ts t p rule: tl_find.induct)
  case (2 x xs t p)
  then show ?case
    using tl_find_bounds [of xs t' "Suc p"] tl_find_bounds [of xs t "Suc p"] by (auto split: if_splits)
qed simp

lemma builtin_iff: "t \<in> set sorted_builtin_types \<longleftrightarrow> rtti_of t = None"
  by (cases t) (simp_all add: sorted_builtin_types_def)

lemma length_builtin [simp]: "length sorted_builtin_types = 37"
  by (simp add: sorted_builtin_types_def)

lemma unat_type_nr: "int (unat (type_nr t)) = tl_find sorted_builtin_types t 0 + 1"
proof -
  have "0 \<le> tl_find sorted_builtin_types t 0 + 1 \<and> tl_find sorted_builtin_types t 0 + 1 < 2 ^ 16"
    using tl_find_bounds [of sorted_builtin_types t 0] by auto
  then show ?thesis
    by (simp add: type_nr_def unsigned_of_int take_bit_eq_mod del: of_int_add)
qed

lemma type_nr_less: "unat (type_nr t) \<le> 37"
  using unat_type_nr [of t] tl_find_bounds [of sorted_builtin_types t 0] length_builtin by linarith

lemma type_nr_0: "type_nr t = 0 \<longleftrightarrow> rtti_of t \<noteq> None"
proof -
  have "type_nr t = 0 \<longleftrightarrow> tl_find sorted_builtin_types t 0 = - 1"
    using unat_type_nr [of t] unat_eq_zero [of "type_nr t"] by linarith
  then show ?thesis
    using tl_find_bounds [of sorted_builtin_types t 0] builtin_iff [of t] by auto
qed

lemma rtti_inj: "rtti_of t = Some n \<Longrightarrow> t = T_custom n"
  by (cases t) simp_all

lemma type_nr_rtti_inj: "type_nr t = type_nr t' \<and> (type_nr t = 0 \<longrightarrow> rtti_of t = rtti_of t') \<longleftrightarrow> t = t'"
proof
  assume a: "type_nr t = type_nr t' \<and> (type_nr t = 0 \<longrightarrow> rtti_of t = rtti_of t')"
  show "t = t'"
  proof (cases "type_nr t = 0")
    case True
    then obtain n where "rtti_of t = Some n" using type_nr_0 by auto
    then show ?thesis using a True rtti_inj by metis
  next
    case False
    then have "t \<in> set sorted_builtin_types" using type_nr_0 builtin_iff by blast
    moreover have "tl_find sorted_builtin_types t 0 = tl_find sorted_builtin_types t' 0"
      using a unat_type_nr [of t] unat_type_nr [of t'] by simp
    ultimately show ?thesis by (rule tl_find_inj)
  qed
qed simp

lemma elem_matches_iff: "elem_matches (type_nr t) (rtti_of t) e \<longleftrightarrow> type_of e = t"
  using type_nr_rtti_inj [of "type_of e" t] by (auto simp: elem_matches_def Let_def)

lemma msg_match_element_iff:
  "wf_msg m \<Longrightarrow> msg_match_element m p (type_nr t) (rtti_of t) =
     (if p < length (contents_of m) then Some (type_of (contents_of m ! p) = t) else None)"
  by (auto simp: msg_match_element_def md_match_element_def md_access_elems elem_matches_iff wf_msg_def
      contents_of_def split: option.splits)

lemma match_elements_impl_iff:
  "wf_msg m \<Longrightarrow> length (contents_of m) = p + length ts \<Longrightarrow>
     match_elements_impl m p ts \<longleftrightarrow> map type_of (drop p (contents_of m)) = ts"
proof (induction m p ts rule: match_elements_impl.induct)
  case (2 m p t ts)
  have "drop p (contents_of m) = contents_of m ! p # drop (Suc p) (contents_of m)"
    using "2.prems" by (intro Cons_nth_drop_Suc [symmetric]) simp
  then show ?case using 2 by (simp add: msg_match_element_iff)
qed simp

section \<open>Extraction\<close>

text \<open>What a handler accepted: the elements of a slice it answered with true.\<close>

definition accepts :: "('s \<Rightarrow> message \<Rightarrow> bool \<times> 's) \<Rightarrow> elem list \<Rightarrow> bool" where
  "accepts h xs \<longleftrightarrow> (\<exists>st sl. wf_msg sl \<and> contents_of sl = xs \<and> fst (h st sl))"

lemma try_slices_result:
  assumes "wf_msg m" and "n \<le> length (contents_of m) - i"
  shows "\<exists>res st'. try_slices h st m i n = Some (res, st')
    \<and> (\<forall>k. res = Some k \<longrightarrow> 0 < k \<and> k \<le> n \<and> accepts h (take k (drop i (contents_of m))))"
  using assms(2)
proof (induction n arbitrary: st)
  case (Suc n)
  obtain sl where sl: "msg_slice m i (Suc n) = Some sl" "wf_msg sl"
    "contents_of sl = take (Suc n) (drop i (contents_of m))" using msg_slice_wf [OF assms(1)] by blast
  obtain b st' where h: "h st sl = (b, st')" by fastforce
  show ?case
  proof (cases b)
    case True
    then have "accepts h (take (Suc n) (drop i (contents_of m)))"
      using sl h by (auto simp: accepts_def intro!: exI [of _ st] exI [of _ sl])
    then show ?thesis using sl h True by auto
  next
    case False
    then show ?thesis using sl h Suc.IH [of st'] Suc.prems by force
  qed
qed simp

lemma find_slice_result:
  assumes "wf_msg m"
  shows "\<exists>res st'. find_slice h st m i = Some (res, st')
    \<and> (\<forall>j n. res = Some (j, n) \<longrightarrow> i \<le> j \<and> 0 < n \<and> j + n \<le> length (contents_of m)
        \<and> accepts h (take n (drop j (contents_of m))))"
  using assms
proof (induction h st m i rule: find_slice.induct)
  case (1 h st m i)
  show ?case
  proof (cases "i \<ge> msg_size m")
    case True
    then show ?thesis by (subst find_slice.simps) simp
  next
    case False
    obtain res st' where t: "try_slices h st m i (msg_size m - i) = Some (res, st')"
      "\<forall>k. res = Some k \<longrightarrow> 0 < k \<and> k \<le> msg_size m - i \<and> accepts h (take k (drop i (contents_of m)))"
      using try_slices_result [OF "1.prems", of "msg_size m - i" i h st] "1.prems" by auto
    show ?thesis
    proof (cases res)
      case None
      from "1.IH" [OF False t(1) refl None "1.prems"] obtain r st'' where
        "find_slice h st' m (Suc i) = Some (r, st'')"
        "\<forall>j n. r = Some (j, n) \<longrightarrow> Suc i \<le> j \<and> 0 < n \<and> j + n \<le> length (contents_of m)
          \<and> accepts h (take n (drop j (contents_of m)))" by blast
      then show ?thesis using False t(1) None
        by (subst find_slice.simps) (fastforce dest: Suc_leD)
    next
      case (Some k)
      then show ?thesis using False t "1.prems"
        by (subst find_slice.simps) auto
    qed
  qed
qed

lemma cut_mapping_contents:
  "i + n \<le> length xs \<Longrightarrow> map (\<lambda>k. xs ! k) (cut_mapping (length xs) i n) = take i xs @ drop (i + n) xs"
  by (simp add: cut_mapping_def map_nth_upt)

lemma split_slice: "i + n \<le> length xs \<Longrightarrow> take i xs @ take n (drop i xs) @ drop (i + n) xs = xs"
  by (metis append_take_drop_id drop_drop add.commute)

text \<open>
  The relation between a message and what extraction leaves of it: accepted slices are taken out
  one after the other.
\<close>

inductive cut_steps :: "(elem list \<Rightarrow> bool) \<Rightarrow> elem list \<Rightarrow> elem list \<Rightarrow> bool" for P where
  cut_refl: "cut_steps P xs xs"
| cut_step: "P ys \<Longrightarrow> ys \<noteq> [] \<Longrightarrow> cut_steps P (as @ bs) zs \<Longrightarrow> cut_steps P (as @ ys @ bs) zs"

lemma cut_steps_subseq: "cut_steps P xs zs \<Longrightarrow> subseq zs xs"
proof (induction rule: cut_steps.induct)
  case (cut_step ys as bs zs)
  have "subseq (as @ bs) (as @ ys @ bs)"
    by (metis list_emb_append2 list_emb_append_mono subseq_order.order_refl)
  then show ?case using cut_step.IH subseq_order.trans by blast
qed simp

lemma extract_fuel_result:
  assumes "wf_msg m" and "length (contents_of m) < k"
  shows "\<exists>r st'. extract_fuel k h st m i = Some (r, st') \<and> wf_msg r
    \<and> cut_steps (accepts h) (contents_of m) (contents_of r)"
  using assms
proof (induction k arbitrary: m st i)
  case (Suc k)
  let ?xs = "contents_of m"
  obtain res st' where f: "find_slice h st m i = Some (res, st')"
    "\<forall>j n. res = Some (j, n) \<longrightarrow> i \<le> j \<and> 0 < n \<and> j + n \<le> length ?xs \<and> accepts h (take n (drop j ?xs))"
    using find_slice_result [OF Suc.prems(1), of h st i] by blast
  show ?case
  proof (cases res)
    case None
    then have "extract_fuel (Suc k) h st m i = Some (m, st')" using f(1) by simp
    then show ?thesis using Suc.prems(1) cut_steps.cut_refl by blast
  next
    case (Some p)
    obtain j n where p: "res = Some (j, n)" using Some by (cases p) auto
    then have jn: "0 < n" "j + n \<le> length ?xs" "accepts h (take n (drop j ?xs))" using f(2) by auto
    let ?v = "cut_mapping (msg_size m) j n"
    have ne: "take n (drop j ?xs) \<noteq> []" using jn by auto
    have cut: "cut_steps (accepts h) (take j ?xs @ drop (j + n) ?xs) zs \<Longrightarrow> cut_steps (accepts h) ?xs zs" for zs
      using cut_steps.cut_step [where P = "accepts h", OF jn(3) ne, of "take j ?xs" "drop (j + n) ?xs" zs]
      by (simp only: split_slice [OF jn(2)])
    have m: "map (\<lambda>k. ?xs ! k) ?v = take j ?xs @ drop (j + n) ?xs"
      using cut_mapping_contents [OF jn(2)] Suc.prems(1) by simp
    show ?thesis
    proof (cases "?v = []")
      case True
      then have "take j ?xs @ drop (j + n) ?xs = []" using m by (metis list.map_disc_iff)
      then have "cut_steps (accepts h) ?xs []" using cut [of "[]"] cut_steps.cut_refl by metis
      moreover have "extract_fuel (Suc k) h st m i = Some (None, st')" using f(1) p True by simp
      moreover have "wf_msg None" "contents_of None = []" by (simp_all add: wf_msg_def contents_of_def)
      ultimately show ?thesis by metis
    next
      case False
      have l: "list_all (\<lambda>k. k < msg_size m) ?v" using jn Suc.prems(1) by (auto simp: cut_mapping_def list_all_iff)
      have "m \<noteq> None" using jn(1,2) by (cases m) (auto simp: contents_of_def)
      from decorate_msg_wf [OF Suc.prems(1) this l] obtain m' where
        m': "decorate_msg m ?v = Some m'" "wf_msg m'" "contents_of m' = map (\<lambda>k. ?xs ! k) ?v" by blast
      have "length (contents_of m') < k" using m' m jn Suc.prems(2) by simp
      from Suc.IH [OF m'(2) this, of st' j] obtain r st'' where
        r: "extract_fuel k h st' m' j = Some (r, st'')" "wf_msg r"
          "cut_steps (accepts h) (contents_of m') (contents_of r)" by blast
      have "extract_fuel (Suc k) h st m i = Some (r, st'')" using f(1) p False m'(1) r(1) by simp
      moreover have "cut_steps (accepts h) ?xs (contents_of r)"
        using cut r(3) unfolding m'(3) m by blast
      ultimately show ?thesis using r(2) by blast
    qed
  qed
qed simp

section \<open>Tokens\<close>

lemma bit_type_nr_high: "6 \<le> k \<Longrightarrow> \<not> bit (type_nr t) k"
proof -
  have "unat (type_nr t) < 2 ^ 6" using type_nr_less [of t] by simp
  then show "6 \<le> k \<Longrightarrow> \<not> bit (type_nr t) k" by (rule unat_less_not_bit)
qed

lemma bit_add_to_type_token:
  "k < 32 \<Longrightarrow> bit (add_to_type_token r (type_nr t)) k = (if k < 6 then bit (type_nr t) k else bit r (k - 6))"
  using bit_type_nr_high [of k t] by (auto simp: add_to_type_token_def bit_simps)

lemma type_nr_not_63:
  assumes "\<forall>k < 6. bit (type_nr t) k" shows False
proof -
  have "type_nr t = mask 6"
    using assms bit_type_nr_high [of _ t] by (intro bit_word_eqI) (auto simp: bit_simps simp flip: not_le)
  then show False using type_nr_less [of t] by (simp add: mask_eq_exp_minus_1)
qed

lemma token_of_snoc:
  "make_type_token_from_list (ts @ [t]) = add_to_type_token (make_type_token_from_list ts) (type_nr t)"
  by (simp add: make_type_token_from_list_def type_token_helper_foldl)

lemma token_of_Nil: "k < 32 \<Longrightarrow> bit (token_of []) k"
proof -
  have "token_of [] = mask 32" by (simp add: make_type_token_from_list_def mask_eq_exp_minus_1)
  then show "k < 32 \<Longrightarrow> bit (token_of []) k" by (simp add: bit_simps)
qed

lemma token_low_bits_inj:
  "n \<le> 5 \<Longrightarrow> length xs \<le> n \<Longrightarrow> length ys \<le> n \<Longrightarrow> \<forall>k < 6 * n. bit (token_of xs) k = bit (token_of ys) k \<Longrightarrow>
     map (\<lambda>e. type_nr (type_of e)) xs = map (\<lambda>e. type_nr (type_of e)) ys"
proof (induction n arbitrary: xs ys)
  case (Suc n)
  have k32: "k < 32" if "k < 6 * Suc n" for k using Suc.prems(1) that by presburger
  have empty: False if "zs = []" "zs' = ws @ [w]"
    "\<forall>k < 6 * Suc n. bit (token_of zs) k = bit (token_of zs') k" for zs zs' ws w
  proof (rule type_nr_not_63 [of "type_of w"], intro allI impI)
    fix k :: nat
    assume "k < 6"
    then show "bit (type_nr (type_of w)) k"
      using that token_of_Nil [of k] k32 [of k] by (auto simp: token_of_snoc bit_add_to_type_token)
  qed
  show ?case
  proof (cases xs rule: rev_cases)
    case Nil
    then show ?thesis using empty [of xs ys] Suc.prems(4) by (cases ys rule: rev_cases) auto
  next
    case (snoc xs' x)
    note xs = this
    show ?thesis
    proof (cases ys rule: rev_cases)
      case Nil
      then show ?thesis using empty [of ys xs xs' x] Suc.prems(4) xs by auto
    next
      case (snoc ys' y)
      have b: "bit (add_to_type_token (token_of xs') (type_nr (type_of x))) k
          = bit (add_to_type_token (token_of ys') (type_nr (type_of y))) k" if "k < 6 * Suc n" for k
        using Suc.prems(4) that xs snoc by (simp add: token_of_snoc)
      have "type_nr (type_of x) = type_nr (type_of y)"
      proof (rule bit_word_eqI)
        fix k
        assume "k < LENGTH(16)"
        show "bit (type_nr (type_of x)) k = bit (type_nr (type_of y)) k"
          using b [of k] bit_type_nr_high k32 [of k] by (cases "k < 6") (auto simp: bit_add_to_type_token)
      qed
      moreover have "bit (token_of xs') k = bit (token_of ys') k" if "k < 6 * n" for k
        using b [of "k + 6"] that k32 [of "k + 6"] by (simp add: bit_add_to_type_token)
      ultimately show ?thesis using Suc.IH [of xs' ys'] Suc.prems(1-3) xs snoc by simp
    qed
  qed
qed simp

lemma msg_type_token_contents: "wf_msg m \<Longrightarrow> msg_type_token m = token_of (contents_of m)"
proof -
  have d: "wf_md d \<Longrightarrow> md_type_token d = token_of (elems d)" for d by (cases d) simp_all
  show "wf_msg m \<Longrightarrow> msg_type_token m = token_of (contents_of m)"
    using d by (cases m)
      (simp_all add: wf_msg_def msg_type_token_def contents_of_def make_type_token_from_list_def)
qed

section \<open>Properties\<close>

text \<open>
  C19: The views of a message (drop, drop_right, take, take_right, slice and concatenation) never
  fail on well-formed messages, are well formed again and hold exactly the elements of the list
  operation of the same name, however deeply views are nested.
\<close>

theorem message_views_correct:
  assumes "wf_msg m"
  shows "(\<exists>r. msg_drop m n = Some r \<and> wf_msg r \<and> contents_of r = drop n (contents_of m))
    \<and> (\<exists>r. msg_drop_right m n = Some r \<and> wf_msg r
      \<and> contents_of r = take (length (contents_of m) - n) (contents_of m))
    \<and> (\<exists>r. msg_take m n = Some r \<and> wf_msg r \<and> contents_of r = take n (contents_of m))
    \<and> (\<exists>r. msg_take_right m n = Some r \<and> wf_msg r
      \<and> contents_of r = drop (length (contents_of m) - n) (contents_of m))
    \<and> (\<exists>r. msg_slice m p n = Some r \<and> wf_msg r \<and> contents_of r = take n (drop p (contents_of m)))
    \<and> (list_all wf_msg ms \<longrightarrow> wf_msg (concat_impl ms)
      \<and> contents_of (concat_impl ms) = concat (map contents_of ms))"
proof (intro conjI impI)
  show "\<exists>r. msg_drop m n = Some r \<and> wf_msg r \<and> contents_of r = drop n (contents_of m)" for n
    using msg_drop_wf [OF assms] by metis
  then show "\<exists>r. msg_take_right m n = Some r \<and> wf_msg r
      \<and> contents_of r = drop (length (contents_of m) - n) (contents_of m)"
    using assms by (simp add: msg_take_right_def)
  show "\<exists>r. msg_drop_right m n = Some r \<and> wf_msg r
      \<and> contents_of r = take (length (contents_of m) - n) (contents_of m)" for n
    using msg_drop_right_wf [OF assms] by metis
  then have "\<exists>r. msg_drop_right m (length (contents_of m) - n) = Some r \<and> wf_msg r
      \<and> contents_of r = take (length (contents_of m) - (length (contents_of m) - n)) (contents_of m)" .
  then show "\<exists>r. msg_take m n = Some r \<and> wf_msg r \<and> contents_of r = take n (contents_of m)"
    using assms by (auto simp: msg_take_def)
  show "\<exists>r. msg_slice m p n = Some r \<and> wf_msg r \<and> contents_of r = take n (drop p (contents_of m))"
    using msg_slice_wf [OF assms] by metis
  show "list_all wf_msg ms \<Longrightarrow> wf_msg (concat_impl ms)"
    and "list_all wf_msg ms \<Longrightarrow> contents_of (concat_impl ms) = concat (map contents_of ms)"
    by (simp_all add: concat_impl_wf)
qed

theorem message_views_correct_witness:
  "let m = make_message [U32 1, U32 2, U32 3] in
   \<exists>r. msg_slice m 1 1 = Some r \<and> contents_of (concat_impl [m, r]) = [U32 1, U32 2, U32 3, U32 2]"
proof -
  let ?m = "make_message [U32 1, U32 2, U32 3]"
  have m: "wf_msg ?m" "contents_of ?m = [U32 1, U32 2, U32 3]"
    by (simp_all add: make_message_def wf_msg_def contents_of_def)
  obtain r where r: "msg_slice ?m 1 1 = Some r" "wf_msg r" "contents_of r = [U32 2]"
    using message_views_correct [OF m(1), of 1 1] m(2) by auto
  have "contents_of (concat_impl [?m, r]) = [U32 1, U32 2, U32 3, U32 2]"
    using message_views_correct [OF m(1), of _ _ "[?m, r]"] m r by simp
  then show ?thesis using r(1) by (auto simp: Let_def)
qed

text \<open>
  The cached type token of a message is the token of its element types, for every
  representation, and tokens of messages with up to five elements determine the type numbers of
  the elements, so that two such messages with equal tokens and only numbered types have the same
  types.
\<close>

lemma type_token_correct:
  assumes "wf_msg m" and "length xs \<le> 5" and "length ys \<le> 5"
  shows "msg_type_token m = make_type_token_from_list (map type_of (contents_of m))
    \<and> (make_type_token_from_list (map type_of xs) = make_type_token_from_list (map type_of ys) \<longleftrightarrow>
      map (\<lambda>e. type_nr (type_of e)) xs = map (\<lambda>e. type_nr (type_of e)) ys)"
proof (intro conjI)
  show "msg_type_token m = token_of (contents_of m)" using assms(1) by (rule msg_type_token_contents)
  have e: "map (\<lambda>e. type_nr (type_of e)) zs = map type_nr (map type_of zs)" for zs by simp
  show "token_of xs = token_of ys \<longleftrightarrow>
      map (\<lambda>e. type_nr (type_of e)) xs = map (\<lambda>e. type_nr (type_of e)) ys"
    using token_low_bits_inj [of 5 xs ys] assms(2,3) unfolding make_type_token_from_list_def e by auto
qed

lemma type_token_correct_witness:
  "msg_type_token (make_message [Str ''a'', U16 1]) = make_type_token_from_list [T_str, T_u16]
   \<and> make_type_token_from_list [T_str] \<noteq> make_type_token_from_list [T_u16]"
  using type_token_correct [of "make_message [Str ''a'', U16 1]" "[Str ''a'']" "[U16 1]"]
  by (simp add: make_message_def wf_msg_def contents_of_def type_nr_def sorted_builtin_types_def)

text \<open>
  C27: Extraction always returns, whatever the handler does; what is left of the message is what
  remains after cutting out, one after the other, slices the handler accepted, and in particular
  a subsequence of the original elements.
\<close>

theorem extract_terminates_and_cuts:
  assumes "wf_msg m"
  shows "\<exists>r st'. extract_msg h st m = Some (r, st') \<and> wf_msg r
    \<and> cut_steps (accepts h) (contents_of m) (contents_of r) \<and> subseq (contents_of r) (contents_of m)"
proof -
  have "length (contents_of m) < Suc (msg_size m)" using assms by simp
  from extract_fuel_result [OF assms this, of h st 0] show ?thesis
    using cut_steps_subseq unfolding extract_msg_def by blast
qed

text \<open>The example of the documentation: pairs of floats and of integers are cut from (1, 2.f, 3.f, 4).\<close>

theorem extract_terminates_and_cuts_witness:
  "let h = (\<lambda>(n :: nat) sl. if map type_of (contents_of sl) \<in> {[T_float, T_float], [T_i32, T_i32]}
       then (True, n + 1) else (False, n));
       m = make_message [I32 1, Opaque T_float 2, Opaque T_float 3, I32 4]
   in \<exists>r. extract_msg h 0 m = Some (r, 1) \<and> contents_of r = [I32 1, I32 4]
      \<and> subseq (contents_of r) (contents_of m)"
proof -
  let ?h = "\<lambda>(n :: nat) sl. if map type_of (contents_of sl) \<in> {[T_float, T_float], [T_i32, T_i32]}
       then (True, n + 1) else (False, n)"
  let ?m = "make_message [I32 1, Opaque T_float 2, Opaque T_float 3, I32 4]"
  have "wf_msg ?m" by (simp add: make_message_def wf_msg_def)
  from extract_terminates_and_cuts [OF this, of ?h 0] obtain r st' where
    e: "extract_msg ?h 0 ?m = Some (r, st')" "subseq (contents_of r) (contents_of ?m)" by blast
  moreover have "map_option (\<lambda>(r, st'). (contents_of r, st')) (extract_msg ?h 0 ?m)
      = Some ([I32 1, I32 4], 1)"
    by code_simp
  ultimately show ?thesis by (auto simp: Let_def)
qed

end
