(* ===== verification/Try_Match.thy ===== *)
theory Try_Match
  imports Message
begin

text \<open>
  Pattern matching on messages (try_match.hpp, try_match.cpp) and the dispatch of behaviors over
  their match cases (match_case.hpp, behavior_impl.cpp). Patterns are arrays of meta elements with
  wildcards; the matcher backtracks over a capture array with one commit point. Writes behind the
  end of that array are errors of the model (None). The matcher is compared with a declarative
  definition of wildcard matching, and the type token filter in front of it is shown to be
  transparent.
\<close>

section \<open>Meta elements\<close>

datatype match_fun = fun_match_element | fun_match_atom_constant | fun_null

record meta_element =
  me_v :: u64
  me_typenr :: u16
  me_type :: "nat option"
  me_fun :: match_fun

text \<open>The parameter types of a match case.\<close>

datatype pattern_type = PT type_id | PT_atom u64 | PT_anything

fun meta_element_factory :: "pattern_type \<Rightarrow> meta_element" where
  "meta_element_factory (PT t) =
     \<lparr>me_v = 0, me_typenr = type_nr t, me_type = rtti_of t, me_fun = fun_match_element\<rparr>"
| "meta_element_factory (PT_atom v) =
     \<lparr>me_v = v, me_typenr = type_nr T_atom, me_type = None, me_fun = fun_match_atom_constant\<rparr>"
| "meta_element_factory PT_anything =
     \<lparr>me_v = 0, me_typenr = 0, me_type = None, me_fun = fun_null\<rparr>"

definition is_wildcard :: "meta_element \<Rightarrow> bool" where
  "is_wildcard me \<longleftrightarrow> me_typenr me = 0 \<and> me_type me = None"

text \<open>The matching functions yield the element whose address they store.\<close>

definition match_element :: "meta_element \<Rightarrow> message \<Rightarrow> nat \<Rightarrow> elem option" where
  "match_element me m pos =
     (if msg_match_element m pos (me_typenr me) (me_type me) = Some True then msg_at m pos else None)"

definition match_atom_constant :: "meta_element \<Rightarrow> message \<Rightarrow> nat \<Rightarrow> elem option" where
  "match_atom_constant me m pos =
     (if msg_match_element m pos (type_nr T_atom) None \<noteq> Some True then None
      else case msg_at m pos of
        Some (Atom v) \<Rightarrow> if me_v me \<noteq> v then None else Some (Atom v)
      | _ \<Rightarrow> None)"

definition me_call :: "meta_element \<Rightarrow> message \<Rightarrow> nat \<Rightarrow> elem option" where
  "me_call me m pos = (case me_fun me of
     fun_match_element \<Rightarrow> match_element me m pos
   | fun_match_atom_constant \<Rightarrow> match_atom_constant me m pos
   | fun_null \<Rightarrow> None)"

section \<open>The matcher\<close>

record scr =
  data :: "elem option list"
  pos :: nat
  fallback_pos :: nat

definition scr_init :: "nat \<Rightarrow> scr" where
  "scr_init n = \<lparr>data = replicate (if n > 0 then n else 1) None, pos = 0, fallback_pos = 0\<rparr>"

definition commit :: "scr \<Rightarrow> scr" where
  "commit s = s\<lparr>fallback_pos := pos s\<rparr>"

definition rollback :: "scr \<Rightarrow> scr" where
  "rollback s = s\<lparr>pos := fallback_pos s\<rparr>"

text \<open>Storing through current and advancing; None is a write behind the array.\<close>

definition store_inc :: "scr \<Rightarrow> elem \<Rightarrow> scr option" where
  "store_inc s e = (if pos s < length (data s)
     then Some (s\<lparr>data := (data s)[pos s := Some e], pos := Suc (pos s)\<rparr>) else None)"

function try_match_from :: "message \<Rightarrow> nat \<Rightarrow> meta_element list \<Rightarrow> scr \<Rightarrow> (bool \<times> scr) option"
  and submatch :: "message \<Rightarrow> nat \<Rightarrow> meta_element list \<Rightarrow> scr \<Rightarrow> (bool \<times> scr) option" where
  "try_match_from m mp [] s =
     (if mp < msg_size m then Some (False, s) else Some (True, s))"
| "try_match_from m mp (p # ps) s =
     (if mp < msg_size m then
        if is_wildcard p then
          if ps = [] then Some (True, s) else submatch m mp ps (commit s)
        else (case me_call p m mp of None \<Rightarrow> Some (False, s)
          | Some e \<Rightarrow> (case store_inc s e of None \<Rightarrow> None
              | Some s' \<Rightarrow> try_match_from m (Suc mp) ps s'))
      else Some (list_all is_wildcard (p # ps), s))"
| "submatch m mp ps s =
     (if mp < msg_size m then
        (case try_match_from m mp ps s of None \<Rightarrow> None
         | Some (True, s') \<Rightarrow> Some (True, s')
         | Some (False, s') \<Rightarrow> submatch m (Suc mp) ps (rollback s'))
      else Some (False, s))"
  by pat_completeness auto

termination
  by (relation "measures [\<lambda>x. case x of Inl (m, mp, ps, s) \<Rightarrow> length ps | Inr (m, mp, ps, s) \<Rightarrow> length ps,
      \<lambda>x. case x of Inl (m, mp, ps, s) \<Rightarrow> msg_size m - mp | Inr (m, mp, ps, s) \<Rightarrow> msg_size m - mp,
      \<lambda>x. case x of Inl _ \<Rightarrow> 0 | Inr _ \<Rightarrow> 1]") auto

declare submatch.simps [simp del]

definition captures :: "meta_element list \<Rightarrow> nat" where
  "captures ps = length (filter (\<lambda>p. \<not> is_wildcard p) ps)"

definition try_match :: "message \<Rightarrow> meta_element list \<Rightarrow> (bool \<times> scr) option" where
  "try_match m ps = try_match_from m 0 ps (scr_init (captures ps))"

section \<open>Match cases and behaviors\<close>

text \<open>
  A match case: its cached wildcard flag and type token, its pattern, its guard on the captured
  values (projections and guards of advanced cases) and its body, which yields the optional
  response message (None for skip_message).
\<close>

record match_case =
  has_wildcard :: bool
  type_token :: u32
  catch_all :: bool
  pattern :: "pattern_type list"
  guard :: "elem list \<Rightarrow> bool"
  body :: "elem list \<Rightarrow> message option"

fun pattern_token_type :: "pattern_type \<Rightarrow> type_id option" where
  "pattern_token_type (PT t) = Some t"
| "pattern_token_type (PT_atom v) = Some T_atom"
| "pattern_token_type PT_anything = None"

text \<open>The type number of anything is that of an unnumbered type.\<close>

definition pattern_nr :: "pattern_type \<Rightarrow> u16" where
  "pattern_nr p = (case pattern_token_type p of Some t \<Rightarrow> type_nr t | None \<Rightarrow> 0)"

definition pattern_token :: "pattern_type list \<Rightarrow> u32" where
  "pattern_token ps = type_token_helper 0xFFFFFFFF (map pattern_nr ps)"

definition trivial_match_case :: "pattern_type list \<Rightarrow> (elem list \<Rightarrow> message option) \<Rightarrow> match_case" where
  "trivial_match_case ps f = \<lparr>has_wildcard = False, type_token = pattern_token ps,
     catch_all = False, pattern = ps, guard = (\<lambda>_. True), body = f\<rparr>"

definition catch_all_match_case :: "message option \<Rightarrow> match_case" where
  "catch_all_match_case r = \<lparr>has_wildcard = True, type_token = 0xFFFFFFFF,
     catch_all = True, pattern = [], guard = (\<lambda>_. True), body = (\<lambda>_. r)\<rparr>"

definition advanced_match_case ::
  "pattern_type list \<Rightarrow> (elem list \<Rightarrow> bool) \<Rightarrow> (elem list \<Rightarrow> message option) \<Rightarrow> match_case" where
  "advanced_match_case ps g f = \<lparr>has_wildcard = (PT_anything \<in> set ps), type_token = pattern_token ps,
     catch_all = False, pattern = ps, guard = g, body = f\<rparr>"

datatype case_result = no_match | match "message option"

text \<open>The outer option is the memory error of the matcher.\<close>

definition invoke_case :: "match_case \<Rightarrow> message \<Rightarrow> case_result option" where
  "invoke_case c m = (if catch_all c then Some (match (body c [])) else case try_match m (map meta_element_factory (pattern c)) of
     None \<Rightarrow> None
   | Some (False, s) \<Rightarrow> Some no_match
   | Some (True, s) \<Rightarrow> (let args = map the (take (pos s) (data s)) in
       Some (if guard c args then match (body c args) else no_match)))"

text \<open>behavior\_impl::invoke: the first case that passes the filter and matches decides.\<close>

fun invoke_cases :: "match_case list \<Rightarrow> message \<Rightarrow> message option option" where
  "invoke_cases [] m = Some None"
| "invoke_cases (c # cs) m =
     (if has_wildcard c \<or> type_token c = msg_type_token m
      then (case invoke_case c m of None \<Rightarrow> None
        | Some no_match \<Rightarrow> invoke_cases cs m
        | Some (match r) \<Rightarrow> Some r)
      else invoke_cases cs m)"

datatype behavior_impl =
    Default_Behavior (cases_of: "match_case list") (tout: duration)
  | Combinator behavior_impl behavior_impl

fun timeout_impl :: "behavior_impl \<Rightarrow> duration" where
  "timeout_impl (Default_Behavior cs d) = d"
| "timeout_impl (Combinator a b) = timeout_impl b"

fun invoke_impl :: "behavior_impl \<Rightarrow> message \<Rightarrow> message option option" where
  "invoke_impl (Default_Behavior cs d) m = invoke_cases cs m"
| "invoke_impl (Combinator a b) m = (case invoke_impl a m of
     None \<Rightarrow> None
   | Some (Some r) \<Rightarrow> Some (Some r)
   | Some None \<Rightarrow> invoke_impl b m)"

definition or_else :: "behavior_impl \<Rightarrow> behavior_impl \<Rightarrow> behavior_impl" where
  "or_else a b = Combinator a b"

section \<open>Wildcard matching as a relation\<close>

definition me_ok :: "meta_element \<Rightarrow> elem \<Rightarrow> bool" where
  "me_ok p e = (case me_fun p of
     fun_match_element \<Rightarrow> elem_matches (me_typenr p) (me_type p) e
   | fun_match_atom_constant \<Rightarrow> (case e of Atom v \<Rightarrow> v = me_v p | _ \<Rightarrow> False)
   | fun_null \<Rightarrow> False)"

text \<open>Pattern, elements it covers, and the elements captured by its non-wildcards.\<close>

inductive glob :: "meta_element list \<Rightarrow> elem list \<Rightarrow> elem list \<Rightarrow> bool" where
  glob_Nil: "glob [] [] []"
| glob_wild: "is_wildcard p \<Longrightarrow> glob ps xs cs \<Longrightarrow> glob (p # ps) (ys @ xs) cs"
| glob_elem: "\<not> is_wildcard p \<Longrightarrow> me_ok p x \<Longrightarrow> glob ps xs cs \<Longrightarrow> glob (p # ps) (x # xs) (x # cs)"

inductive_simps glob_Nil_simps: "glob [] xs cs"
inductive_cases glob_ConsE: "glob (p # ps) xs cs"

lemma glob_length: "glob ps xs cs \<Longrightarrow> length cs = captures ps"
  by (induction rule: glob.induct) (simp_all add: captures_def)

lemma glob_empty_input: "glob ps xs cs \<Longrightarrow> xs = [] \<Longrightarrow> list_all is_wildcard ps"
  by (induction rule: glob.induct) auto

lemma glob_all_wild: "list_all is_wildcard ps \<Longrightarrow> ps \<noteq> [] \<or> xs = [] \<Longrightarrow> glob ps xs []"
proof (induction ps arbitrary: xs)
  case (Cons p ps)
  have "glob (p # ps) (xs @ []) []" using Cons.prems Cons.IH [of "[]"] by (intro glob.glob_wild) auto
  then show ?case by simp
qed (simp add: glob.glob_Nil)

lemma glob_wild_iff:
  "is_wildcard p \<Longrightarrow> glob (p # ps) xs cs \<longleftrightarrow> (\<exists>k \<le> length xs. glob ps (drop k xs) cs)"
proof
  assume "is_wildcard p" "glob (p # ps) xs cs"
  then obtain ys xs' where "xs = ys @ xs'" "glob ps xs' cs" by (auto elim: glob_ConsE)
  then show "\<exists>k \<le> length xs. glob ps (drop k xs) cs" by (intro exI [of _ "length ys"]) simp
next
  assume p: "is_wildcard p" and "\<exists>k \<le> length xs. glob ps (drop k xs) cs"
  then obtain k where "glob ps (drop k xs) cs" by blast
  from glob.glob_wild [OF p this, of "take k xs"] show "glob (p # ps) xs cs" by simp
qed

lemma glob_elem_iff:
  "\<not> is_wildcard p \<Longrightarrow>
   glob (p # ps) (x # xs) cs \<longleftrightarrow> me_ok p x \<and> (\<exists>cs'. cs = x # cs' \<and> glob ps xs cs')"
  by (auto elim: glob_ConsE intro: glob.glob_elem)

lemma me_call_contents:
  assumes "wf_msg m" and "i < length (contents_of m)"
  shows "me_call p m i = (if me_ok p (contents_of m ! i) then Some (contents_of m ! i) else None)"
proof -
  obtain d where d: "m = Some d" "wf_md d" "i < md_size d"
    using assms by (cases m) (auto simp: wf_msg_def contents_of_def)
  have at: "msg_at m i = Some (contents_of m ! i)"
    using d by (simp add: msg_at_def contents_of_def)
  have me: "msg_match_element m i t r = Some (elem_matches t r (contents_of m ! i))" for t r
    using d by (simp add: msg_match_element_def md_match_element_def md_access_elems contents_of_def)
  have "elem_matches (type_nr T_atom) None (Atom v)" for v
    using elem_matches_iff [of T_atom "Atom v"] by simp
  then show ?thesis
    by (auto simp: me_call_def me_ok_def match_element_def match_atom_constant_def at me
        split: match_fun.splits elem.splits)
qed

section \<open>Correctness of the matcher\<close>

text \<open>Wildcards only at the end; one group of captures after the first wildcard.\<close>

fun tail_ok :: "meta_element list \<Rightarrow> bool" where
  "tail_ok [] = True"
| "tail_ok (p # ps) = (if is_wildcard p then list_all is_wildcard ps else tail_ok ps)"

fun safe_pattern :: "meta_element list \<Rightarrow> bool" where
  "safe_pattern [] = True"
| "safe_pattern (p # ps) = (if is_wildcard p then tail_ok ps else safe_pattern ps)"

text \<open>What a run of the matcher from a storage state may yield.\<close>

definition outcome :: "message \<Rightarrow> nat \<Rightarrow> meta_element list \<Rightarrow> scr \<Rightarrow> bool \<Rightarrow> scr \<Rightarrow> bool" where
  "outcome m mp ps s b s' \<longleftrightarrow> length (data s') = length (data s)
     \<and> take (pos s) (data s') = take (pos s) (data s)
     \<and> (if b then \<exists>cs. glob ps (drop mp (contents_of m)) cs
            \<and> take (pos s') (data s') = take (pos s) (data s) @ map Some cs \<and> pos s' = pos s + length cs
        else \<forall>cs. \<not> glob ps (drop mp (contents_of m)) cs)"

lemma try_match_all_wild:
  "list_all is_wildcard ps \<Longrightarrow> ps \<noteq> [] \<Longrightarrow>
   \<exists>s'. try_match_from m mp ps s = Some (True, s') \<and> data s' = data s \<and> pos s' = pos s"
proof (induction ps arbitrary: s)
  case (Cons p ps)
  show ?case
  proof (cases "mp < msg_size m \<and> ps \<noteq> []")
    case True
    then obtain s' where "try_match_from m mp ps (commit s) = Some (True, s')"
      "data s' = data (commit s)" "pos s' = pos (commit s)" using Cons by auto
    then show ?thesis using True Cons.prems by (simp add: submatch.simps [of m mp] commit_def)
  next
    case False
    then show ?thesis using Cons.prems by auto
  qed
qed simp

lemma store_inc_ok:
  assumes "pos s < length (data s)"
  obtains s' where "store_inc s e = Some s'" and "pos s' = Suc (pos s)" and "fallback_pos s' = fallback_pos s"
    and "length (data s') = length (data s)" and "take (Suc (pos s)) (data s') = take (pos s) (data s) @ [Some e]"
    and "take (pos s) (data s') = take (pos s) (data s)"
  using assms that [of "s\<lparr>data := (data s)[pos s := Some e], pos := Suc (pos s)\<rparr>"]
  by (simp add: store_inc_def take_Suc_conv_app_nth)

text \<open>One element matched against a non-wildcard.\<close>

lemma try_match_elem_step:
  assumes "wf_msg m" and "\<not> is_wildcard p" and "mp < length (contents_of m)"
    and "pos s < length (data s)" and "me_ok p (contents_of m ! mp)"
    and "\<And>s1. pos s1 = Suc (pos s) \<Longrightarrow> fallback_pos s1 = fallback_pos s \<Longrightarrow> length (data s1) = length (data s)
      \<Longrightarrow> \<exists>b s'. try_match_from m (Suc mp) ps s1 = Some (b, s') \<and> outcome m (Suc mp) ps s1 b s'
        \<and> (\<not> b \<longrightarrow> P \<longrightarrow> fallback_pos s' = fallback_pos s1)"
  shows "\<exists>b s'. try_match_from m mp (p # ps) s = Some (b, s') \<and> outcome m mp (p # ps) s b s'
    \<and> (\<not> b \<longrightarrow> P \<longrightarrow> fallback_pos s' = fallback_pos s)"
proof -
  let ?x = "contents_of m ! mp"
  obtain s1 where s1: "store_inc s ?x = Some s1" "pos s1 = Suc (pos s)" "fallback_pos s1 = fallback_pos s"
    "length (data s1) = length (data s)" "take (Suc (pos s)) (data s1) = take (pos s) (data s) @ [Some ?x]"
    using store_inc_ok [OF assms(4), of ?x] by metis
  obtain b s' where r: "try_match_from m (Suc mp) ps s1 = Some (b, s')" "outcome m (Suc mp) ps s1 b s'"
    "\<not> b \<longrightarrow> P \<longrightarrow> fallback_pos s' = fallback_pos s1" using assms(6) [OF s1(2-4)] by blast
  have d: "drop mp (contents_of m) = ?x # drop (Suc mp) (contents_of m)"
    using assms(3) by (simp add: Cons_nth_drop_Suc)
  have t: "take (pos s) (data s') = take (pos s) (take (Suc (pos s)) (data s'))" by simp
  have "outcome m mp (p # ps) s b s'"
  proof (cases b)
    case True
    then obtain cs where cs: "glob ps (drop (Suc mp) (contents_of m)) cs"
      "take (pos s') (data s') = take (Suc (pos s)) (data s1) @ map Some cs" "pos s' = Suc (pos s) + length cs"
      using r(2) s1(2) by (auto simp: outcome_def)
    then have "glob (p # ps) (drop mp (contents_of m)) (?x # cs)"
      using assms(2,5) by (simp add: d glob_elem_iff)
    then show ?thesis using True r(2) s1 cs(2,3) t assms(4)
      by (auto simp: outcome_def intro!: exI [of _ "?x # cs"])
  next
    case False
    then show ?thesis using r(2) s1 assms(2,4,5) t by (auto simp: outcome_def d glob_elem_iff)
  qed
  moreover have "try_match_from m mp (p # ps) s = Some (b, s')"
    using assms(1-3,5) s1(1) r(1) by (simp add: me_call_contents)
  ultimately show ?thesis using r(3) s1(3) by auto
qed

lemma try_match_elem_fail:
  assumes "wf_msg m" and "\<not> is_wildcard p" and "mp < length (contents_of m)" and "\<not> me_ok p (contents_of m ! mp)"
  shows "try_match_from m mp (p # ps) s = Some (False, s) \<and> outcome m mp (p # ps) s False s"
proof -
  have "drop mp (contents_of m) = contents_of m ! mp # drop (Suc mp) (contents_of m)"
    using assms(3) by (simp add: Cons_nth_drop_Suc)
  then show ?thesis using assms by (simp add: me_call_contents outcome_def glob_elem_iff)
qed

lemma try_match_end:
  assumes "wf_msg m" and "length (contents_of m) \<le> mp"
  shows "try_match_from m mp ps s = Some (list_all is_wildcard ps, s)
    \<and> outcome m mp ps s (list_all is_wildcard ps) s"
proof -
  have "try_match_from m mp ps s = Some (list_all is_wildcard ps, s)" using assms by (cases ps) auto
  moreover have "outcome m mp ps s (list_all is_wildcard ps) s"
    using assms glob_all_wild [of ps "[]"] glob_empty_input [of ps "[]"]
    by (auto simp: outcome_def intro!: exI [of _ "[]"])
  ultimately show ?thesis by blast
qed

lemma outcome_all_wild:
  "list_all is_wildcard ps \<Longrightarrow> ps \<noteq> [] \<Longrightarrow> data s' = data s \<Longrightarrow> pos s' = pos s \<Longrightarrow> outcome m mp ps s True s'"
  using glob_all_wild [of ps] by (auto simp: outcome_def intro!: exI [of _ "[]"])

lemma tail_match:
  "wf_msg m \<Longrightarrow> tail_ok ps \<Longrightarrow> pos s + captures ps \<le> length (data s) \<Longrightarrow>
   \<exists>b s'. try_match_from m mp ps s = Some (b, s') \<and> outcome m mp ps s b s'
     \<and> (\<not> b \<longrightarrow> True \<longrightarrow> fallback_pos s' = fallback_pos s)"
proof (induction ps arbitrary: mp s)
  case Nil
  then show ?case by (cases "mp < length (contents_of m)") (auto simp: outcome_def glob_Nil_simps)
next
  case (Cons p ps)
  show ?case
  proof (cases "mp < length (contents_of m)")
    case False
    then show ?thesis using try_match_end [OF Cons.prems(1), of mp "p # ps" s] by auto
  next
    case True
    show ?thesis
    proof (cases "is_wildcard p")
      case w: True
      then have aw: "list_all is_wildcard (p # ps)" using Cons.prems(2) by simp
      then obtain s' where "try_match_from m mp (p # ps) s = Some (True, s')" "data s' = data s" "pos s' = pos s"
        using try_match_all_wild [of "p # ps" m mp s] by auto
      then show ?thesis using outcome_all_wild [OF aw, of s' s] by blast
    next
      case nw: False
      show ?thesis
      proof (cases "me_ok p (contents_of m ! mp)")
        case ok: True
        have "pos s < length (data s)" using Cons.prems(3) nw by (simp add: captures_def)
        then show ?thesis
        proof (rule try_match_elem_step [OF Cons.prems(1) nw True _ ok])
          fix s1 :: scr
          assume "pos s1 = Suc (pos s)" "length (data s1) = length (data s)"
          then show "\<exists>b s'. try_match_from m (Suc mp) ps s1 = Some (b, s') \<and> outcome m (Suc mp) ps s1 b s'
              \<and> (\<not> b \<longrightarrow> True \<longrightarrow> fallback_pos s' = fallback_pos s1)"
            using Cons.prems nw by (intro Cons.IH) (auto simp: captures_def)
        qed
      next
        case bad: False
        then show ?thesis using try_match_elem_fail [OF Cons.prems(1) nw True bad] by blast
      qed
    qed
  qed
qed

text \<open>Shifting the start of the elements a wildcard covers.\<close>

lemma glob_wild_shift:
  assumes "is_wildcard w" and "\<not> glob ps (drop mp xs) cs" and "mp < length xs"
  shows "glob (w # ps) (drop (Suc mp) xs) cs \<longleftrightarrow> glob (w # ps) (drop mp xs) cs"
proof -
  have "(\<exists>k \<le> length xs - mp. glob ps (drop (k + mp) xs) cs)
      \<longleftrightarrow> (\<exists>k \<le> length xs - Suc mp. glob ps (drop (k + Suc mp) xs) cs)" (is "?a \<longleftrightarrow> ?b")
  proof
    assume ?a
    then obtain k where k: "k \<le> length xs - mp" "glob ps (drop (k + mp) xs) cs" by blast
    then have "k \<noteq> 0" using assms(2) by (metis add_0)
    then show ?b using k by (intro exI [of _ "k - 1"]) auto
  next
    assume ?b
    then obtain k where "k \<le> length xs - Suc mp" "glob ps (drop (k + Suc mp) xs) cs" by blast
    then show ?a using assms(3) by (intro exI [of _ "Suc k"]) auto
  qed
  then show ?thesis using assms(1) by (simp add: glob_wild_iff)
qed

lemma submatch_tail:
  assumes "wf_msg m" and "tail_ok ps" and "\<not> list_all is_wildcard ps" and "is_wildcard w"
  shows "pos s + captures ps \<le> length (data s) \<Longrightarrow> fallback_pos s = pos s \<Longrightarrow>
    \<exists>b s'. submatch m mp ps s = Some (b, s') \<and> outcome m mp (w # ps) s b s'"
proof (induction "length (contents_of m) - mp" arbitrary: mp s)
  case 0
  then have "submatch m mp ps s = Some (False, s)" using assms(1) by (simp add: submatch.simps)
  moreover have "\<not> glob (w # ps) (drop mp (contents_of m)) cs" for cs
    using glob_empty_input [of "w # ps" "drop mp (contents_of m)" cs] assms(3) "0.hyps" by auto
  ultimately show ?case by (auto simp: outcome_def)
next
  case (Suc n)
  have mp: "mp < length (contents_of m)" using Suc.hyps(2) by simp
  obtain b s1 where r: "try_match_from m mp ps s = Some (b, s1)" "outcome m mp ps s b s1"
    "\<not> b \<longrightarrow> fallback_pos s1 = fallback_pos s"
    using tail_match [OF assms(1,2) Suc.prems(1)] by blast
  show ?case
  proof (cases b)
    case True
    then obtain cs where cs: "glob ps (drop mp (contents_of m)) cs"
      "take (pos s1) (data s1) = take (pos s) (data s) @ map Some cs" "pos s1 = pos s + length cs"
      using r(2) by (auto simp: outcome_def)
    have "glob (w # ps) ([] @ drop mp (contents_of m)) cs"
      using cs(1) assms(4) by (intro glob.glob_wild) auto
    then have "outcome m mp (w # ps) s True s1" using r(2) cs(2,3) by (auto simp: outcome_def)
    moreover have "submatch m mp ps s = Some (True, s1)"
      using r(1) True mp assms(1) by (simp add: submatch.simps [of m mp])
    ultimately show ?thesis by blast
  next
    case False
    have rb: "pos (rollback s1) = pos s" "fallback_pos (rollback s1) = pos (rollback s1)"
      "length (data (rollback s1)) = length (data s)"
      "take (pos s) (data (rollback s1)) = take (pos s) (data s)"
      using r(2,3) False Suc.prems(2) by (auto simp: rollback_def outcome_def)
    have "n = length (contents_of m) - Suc mp" using Suc.hyps(2) by simp
    then obtain b' s' where r': "submatch m (Suc mp) ps (rollback s1) = Some (b', s')"
      "outcome m (Suc mp) (w # ps) (rollback s1) b' s'"
      using Suc.hyps(1) [of "Suc mp" "rollback s1"] Suc.prems(1) rb by auto
    have sh: "glob (w # ps) (drop (Suc mp) (contents_of m)) cs \<longleftrightarrow> glob (w # ps) (drop mp (contents_of m)) cs" for cs
      using r(2) False mp by (intro glob_wild_shift [OF assms(4)]) (auto simp: outcome_def)
    have "outcome m mp (w # ps) s b' s'"
      using r'(2) rb unfolding outcome_def sh by (simp split: if_splits)
    then show ?thesis using r(1) r'(1) False mp assms(1) by (simp add: submatch.simps [of m mp])
  qed
qed

lemma safe_match:
  "wf_msg m \<Longrightarrow> safe_pattern ps \<Longrightarrow> pos s + captures ps \<le> length (data s) \<Longrightarrow>
   \<exists>b s'. try_match_from m mp ps s = Some (b, s') \<and> outcome m mp ps s b s'
     \<and> (\<not> b \<longrightarrow> False \<longrightarrow> fallback_pos s' = fallback_pos s)"
proof (induction ps arbitrary: mp s)
  case Nil
  then show ?case by (cases "mp < length (contents_of m)") (auto simp: outcome_def glob_Nil_simps)
next
  case (Cons p ps)
  show ?case
  proof (cases "mp < length (contents_of m)")
    case False
    then show ?thesis using try_match_end [OF Cons.prems(1), of mp "p # ps" s] by auto
  next
    case True
    consider (aw) "list_all is_wildcard (p # ps)" | (w) "is_wildcard p" "\<not> list_all is_wildcard ps"
      | (ok) "\<not> is_wildcard p" "me_ok p (contents_of m ! mp)"
      | (bad) "\<not> is_wildcard p" "\<not> me_ok p (contents_of m ! mp)" by auto
    then show ?thesis
    proof cases
      case aw
      then obtain s' where "try_match_from m mp (p # ps) s = Some (True, s')" "data s' = data s" "pos s' = pos s"
        using try_match_all_wild [of "p # ps" m mp s] by auto
      then show ?thesis using outcome_all_wild [OF aw, of s' s] by blast
    next
      case w
      have "ps \<noteq> []" using w by auto
      moreover obtain b s' where "submatch m mp ps (commit s) = Some (b, s')"
        "outcome m mp (p # ps) (commit s) b s'"
        using submatch_tail [OF Cons.prems(1) _ w(2,1), of "commit s" mp] Cons.prems w
        by (auto simp: commit_def captures_def)
      moreover have "outcome m mp (p # ps) (commit s) b s' = outcome m mp (p # ps) s b s'"
        by (simp add: outcome_def commit_def)
      ultimately show ?thesis using w True Cons.prems(1) by simp
    next
      case ok
      have "pos s < length (data s)" using Cons.prems(3) ok(1) by (simp add: captures_def)
      then show ?thesis
      proof (rule try_match_elem_step [OF Cons.prems(1) ok(1) True _ ok(2)])
        fix s1 :: scr
        assume "pos s1 = Suc (pos s)" "length (data s1) = length (data s)"
        then show "\<exists>b s'. try_match_from m (Suc mp) ps s1 = Some (b, s') \<and> outcome m (Suc mp) ps s1 b s'
            \<and> (\<not> b \<longrightarrow> False \<longrightarrow> fallback_pos s' = fallback_pos s1)"
          using Cons.prems ok(1) by (intro Cons.IH) (auto simp: captures_def)
      qed
    next
      case bad
      then show ?thesis using try_match_elem_fail [OF Cons.prems(1) bad(1) True bad(2)] by blast
    qed
  qed
qed

lemma try_match_safe:
  assumes "wf_msg m" and "safe_pattern ps"
  obtains b s where "try_match m ps = Some (b, s)" and "b \<longleftrightarrow> (\<exists>cs. glob ps (contents_of m) cs)"
    and "b \<Longrightarrow> \<exists>cs. glob ps (contents_of m) cs \<and> take (pos s) (data s) = map Some cs \<and> pos s = length cs"
proof -
  have "pos (scr_init (captures ps)) + captures ps \<le> length (data (scr_init (captures ps)))"
    by (simp add: scr_init_def)
  from safe_match [OF assms this, of 0] obtain b s where
    r: "try_match_from m 0 ps (scr_init (captures ps)) = Some (b, s)"
      "outcome m 0 ps (scr_init (captures ps)) b s" by blast
  then show thesis
    by (intro that [of b s]) (auto simp: try_match_def outcome_def scr_init_def split: if_splits)
qed

section \<open>The type token filter\<close>

lemma is_wildcard_factory: "is_wildcard (meta_element_factory p) \<longleftrightarrow> p = PT_anything"
  by (cases p) (auto simp: is_wildcard_def type_nr_0)

lemma tail_ok_no_wild: "list_all (\<lambda>p. \<not> is_wildcard p) ps \<Longrightarrow> safe_pattern ps"
  by (induction ps) auto

lemma me_ok_factory: "me_ok (meta_element_factory p) e \<Longrightarrow> pattern_nr p = type_nr (type_of e)"
  by (cases p) (auto simp: me_ok_def pattern_nr_def elem_matches_iff split: elem.splits)

lemma glob_types:
  "glob ms xs cs \<Longrightarrow> ms = map meta_element_factory ps \<Longrightarrow> PT_anything \<notin> set ps \<Longrightarrow>
     map pattern_nr ps = map (\<lambda>e. type_nr (type_of e)) xs"
  by (induction arbitrary: ps rule: glob.induct)
    (auto simp: is_wildcard_factory me_ok_factory)

text \<open>Cases as the constructors build them.\<close>

definition wf_case :: "match_case \<Rightarrow> bool" where
  "wf_case c \<longleftrightarrow> (\<exists>ps g f r. (PT_anything \<notin> set ps \<and> c = trivial_match_case ps f)
     \<or> c = catch_all_match_case r
     \<or> (safe_pattern (map meta_element_factory ps) \<and> c = advanced_match_case ps g f))"

lemma wf_case_trivial: "PT_anything \<notin> set ps \<Longrightarrow> wf_case (trivial_match_case ps f)"
  by (auto simp: wf_case_def)

lemma wf_case_catch_all: "wf_case (catch_all_match_case r)"
  by (auto simp: wf_case_def)

lemma safe_pattern_no_wild: "PT_anything \<notin> set ps \<Longrightarrow> safe_pattern (map meta_element_factory ps)"
  by (intro tail_ok_no_wild) (auto simp: list_all_iff is_wildcard_factory)

lemma token_filter_sound:
  assumes "wf_case c" and "wf_msg m" and "\<not> (has_wildcard c \<or> type_token c = msg_type_token m)"
  shows "invoke_case c m = Some no_match"
proof -
  let ?ms = "map meta_element_factory (pattern c)"
  have p: "\<not> catch_all c" "PT_anything \<notin> set (pattern c)" "type_token c = pattern_token (pattern c)"
    using assms(1,3) by (auto simp: wf_case_def trivial_match_case_def advanced_match_case_def catch_all_match_case_def)
  have "\<not> glob ?ms (contents_of m) cs" for cs
  proof
    assume "glob ?ms (contents_of m) cs"
    from glob_types [OF this refl p(2)] have "pattern_token (pattern c) = token_of (contents_of m)"
      by (simp add: pattern_token_def make_type_token_from_list_def comp_def)
    then have "pattern_token (pattern c) = msg_type_token m"
      using msg_type_token_contents [OF assms(2)] by simp
    with p(3) assms(3) show False by simp
  qed
  then obtain s where "try_match m ?ms = Some (False, s)"
    using try_match_safe [OF assms(2) safe_pattern_no_wild [OF p(2)]] by metis
  then show ?thesis using p(1) by (simp add: invoke_case_def)
qed

section \<open>Properties\<close>

text \<open>
  C18: On a well-formed message and a pattern in which at most one group of captures follows the
  first wildcard, try_match returns, never writes outside of its capture array, reports success
  exactly when the pattern covers the message in the declarative sense, and then has captured the
  elements under the non-wildcards in order.
\<close>

theorem try_match_correct:
  assumes "wf_msg m" and "safe_pattern (map meta_element_factory ps)"
  shows "\<exists>b s. try_match m (map meta_element_factory ps) = Some (b, s)
    \<and> (b \<longleftrightarrow> (\<exists>cs. glob (map meta_element_factory ps) (contents_of m) cs))
    \<and> (b \<longrightarrow> (\<exists>cs. glob (map meta_element_factory ps) (contents_of m) cs
          \<and> take (pos s) (data s) = map Some cs))"
proof -
  obtain b s where "try_match m (map meta_element_factory ps) = Some (b, s)"
    and "b \<longleftrightarrow> (\<exists>cs. glob (map meta_element_factory ps) (contents_of m) cs)"
    and "b \<Longrightarrow> \<exists>cs. glob (map meta_element_factory ps) (contents_of m) cs
      \<and> take (pos s) (data s) = map Some cs \<and> pos s = length cs"
    using try_match_safe [OF assms] by metis
  then show ?thesis by (intro exI [of _ b] exI [of _ s]) blast
qed

theorem try_match_correct_witness:
  "let m = make_message [U32 1, Str ''a'', U16 2]; ps = map meta_element_factory [PT_anything, PT T_u16]
   in map_option fst (try_match m ps) = Some True \<and> (\<exists>cs. glob ps [U32 1, Str ''a'', U16 2] cs)"
proof -
  let ?m = "make_message [U32 1, Str ''a'', U16 2]"
  let ?ps = "[PT_anything, PT T_u16]"
  have w: "wf_msg ?m" "contents_of ?m = [U32 1, Str ''a'', U16 2]"
    by (simp_all add: make_message_def wf_msg_def contents_of_def)
  have s: "safe_pattern (map meta_element_factory ?ps)" by (simp add: is_wildcard_def)
  have t: "map_option fst (try_match ?m (map meta_element_factory ?ps)) = Some True" by code_simp
  show ?thesis using try_match_correct [OF w(1) s] t unfolding w(2) Let_def by fastforce
qed

text \<open>
  The failure of the single commit point: a second wildcard commits the position behind the first
  capture, so that each attempt of the first wildcard starts one slot further.
\<close>

lemma submatch_no_element:
  assumes "wf_msg m" and "\<not> is_wildcard q" and "\<forall>e \<in> set (contents_of m). \<not> me_ok q e" and "pos s = fallback_pos s"
  shows "submatch m mp (q # rest) s = Some (False, s)"
proof (induction "length (contents_of m) - mp" arbitrary: mp)
  case (Suc n)
  then have "me_call q m mp = None" "mp < msg_size m"
    using assms(1,3) by (simp_all add: me_call_contents)
  moreover have "rollback s = s" using assms(4) by (simp add: rollback_def)
  ultimately show ?case using Suc(1) [of "Suc mp"] Suc(2) assms(2) by (subst submatch.simps) simp
qed (use assms(1) in \<open>simp add: submatch.simps\<close>)

lemma submatch_overflows:
  assumes "wf_msg m" and "\<not> is_wildcard p" and "is_wildcard w" and "\<not> is_wildcard q"
    and "\<forall>e \<in> set (contents_of m). me_ok p e \<and> \<not> me_ok q e"
  shows "pos s = mp \<Longrightarrow> mp \<le> length (data s) \<Longrightarrow> length (data s) < length (contents_of m) \<Longrightarrow>
    submatch m mp (p # w # q # rest) s = None"
proof (induction "length (data s) - mp" arbitrary: mp s)
  case 0
  then show ?case using assms(1,2,5) by (subst submatch.simps) (simp add: me_call_contents store_inc_def)
next
  case (Suc n)
  let ?x = "contents_of m ! mp"
  let ?s = "s\<lparr>data := (data s)[mp := Some ?x], pos := Suc mp\<rparr>"
  have st: "me_call p m mp = Some ?x" "store_inc s ?x = Some ?s" "mp < msg_size m" "Suc mp < msg_size m"
    using Suc(2-5) assms(1,5) by (simp_all add: me_call_contents store_inc_def)
  have "submatch m (Suc mp) (q # rest) (commit ?s) = Some (False, commit ?s)"
    by (rule submatch_no_element) (use assms in \<open>simp_all add: commit_def\<close>)
  then have "try_match_from m mp (p # w # q # rest) s = Some (False, commit ?s)"
    using st assms(2,3) by simp
  moreover have "submatch m (Suc mp) (p # w # q # rest) (rollback (commit ?s)) = None"
    by (rule Suc(1)) (use Suc(2-5) in \<open>simp_all add: rollback_def commit_def\<close>)
  ultimately show ?case using st(3) by (subst submatch.simps) simp
qed

lemma glob_needs_element: "glob ps xs cs \<Longrightarrow> q \<in> set ps \<Longrightarrow> \<not> is_wildcard q \<Longrightarrow> \<exists>x \<in> set xs. me_ok q x"
  by (induction rule: glob.induct) auto

text \<open>
  C33: For every pattern that starts with a wildcard, an element p, a second wildcard and an element q, and
  every message with more elements than the pattern has captures, all of which match p and none of which
  matches q, the matcher writes behind its capture array, although the pattern does not cover the
  message and the matcher should say so: backtracking of the first wildcard does not restore the capture position.
\<close>

theorem try_match_overflow:
  assumes "wf_msg m" and "p \<noteq> PT_anything" and "q \<noteq> PT_anything"
    and "\<forall>e \<in> set (contents_of m). me_ok (meta_element_factory p) e \<and> \<not> me_ok (meta_element_factory q) e"
    and "captures (map meta_element_factory (PT_anything # p # PT_anything # q # rest)) < length (contents_of m)"
  shows "try_match m (map meta_element_factory (PT_anything # p # PT_anything # q # rest)) = None
    \<and> \<not> (\<exists>cs. glob (map meta_element_factory (PT_anything # p # PT_anything # q # rest)) (contents_of m) cs)"
proof
  let ?f = meta_element_factory
  let ?ps = "map ?f (PT_anything # p # PT_anything # q # rest)"
  have w: "is_wildcard (?f PT_anything)" "\<not> is_wildcard (?f p)" "\<not> is_wildcard (?f q)"
    using assms(2,3) by (simp_all only: is_wildcard_factory) simp_all
  have c: "0 < captures ?ps" using w by (simp add: captures_def)
  have "submatch m 0 (?f p # ?f PT_anything # ?f q # map ?f rest) (commit (scr_init (captures ?ps))) = None"
    by (rule submatch_overflows [OF assms(1) w(2,1,3) assms(4)])
      (use assms(5) c in \<open>simp_all add: scr_init_def commit_def\<close>)
  then show "try_match m ?ps = None"
    using w(1) assms(1,5) by (auto simp: try_match_def)
  show "\<not> (\<exists>cs. glob ?ps (contents_of m) cs)"
    using glob_needs_element [of ?ps "contents_of m" _ "?f q"] w(3) assms(4) by auto
qed

theorem try_match_overflow_witness:
  "try_match (make_message [I32 1, I32 2, I32 3])
     (map meta_element_factory [PT_anything, PT T_i32, PT_anything, PT T_str]) = None"
proof -
  let ?m = "make_message [I32 1, I32 2, I32 3]"
  have c: "contents_of ?m = [I32 1, I32 2, I32 3]" "wf_msg ?m"
    by (simp_all add: make_message_def wf_msg_def contents_of_def)
  have o: "\<forall>e \<in> set [I32 1, I32 2, I32 3]. me_ok (meta_element_factory (PT T_i32)) e \<and> \<not> me_ok (meta_element_factory (PT T_str)) e"
    by code_simp
  have k: "captures (map meta_element_factory [PT_anything, PT T_i32, PT_anything, PT T_str]) < length [I32 1, I32 2, I32 3]"
    by code_simp
  show ?thesis
    using try_match_overflow [OF c(2), of "PT T_i32" "PT T_str" "[]"] o k unfolding c(1) by blast
qed

text \<open>
  C26: The type token filter of behaviors is transparent: running the match cases of a behavior
  with the filter gives the result of trying every case in order, which is the result of the first
  case that matches.
\<close>

theorem token_filter_transparent:
  assumes "wf_msg m" and "\<forall>c \<in> set cs. wf_case c"
  shows "(\<exists>r. invoke_cases cs m = Some r)
    \<and> invoke_cases cs m = (case find (\<lambda>c. invoke_case c m \<noteq> Some no_match) cs of
       None \<Rightarrow> Some None
     | Some c \<Rightarrow> (case invoke_case c m of Some (match r) \<Rightarrow> Some r | _ \<Rightarrow> None))"
proof (intro conjI)
  have ex: "\<exists>x. invoke_case c m = Some x" if c: "c \<in> set cs" for c
  proof (cases "catch_all c")
    case False
    then have "safe_pattern (map meta_element_factory (pattern c))"
      using assms(2) c safe_pattern_no_wild
      by (fastforce simp: wf_case_def trivial_match_case_def advanced_match_case_def catch_all_match_case_def)
    from try_match_safe [OF assms(1) this] obtain b s where
      "try_match m (map meta_element_factory (pattern c)) = Some (b, s)" by metis
    then show ?thesis using False by (cases b) (auto simp: invoke_case_def Let_def)
  qed (simp add: invoke_case_def)
  show "\<exists>r. invoke_cases cs m = Some r"
    using ex by (induction cs) (fastforce split: case_result.splits)+
  show "invoke_cases cs m = (case find (\<lambda>c. invoke_case c m \<noteq> Some no_match) cs of
       None \<Rightarrow> Some None
     | Some c \<Rightarrow> (case invoke_case c m of Some (match r) \<Rightarrow> Some r | _ \<Rightarrow> None))"
    using assms(2) ex
  proof (induction cs)
    case (Cons c cs)
    then show ?case using token_filter_sound [OF _ assms(1), of c]
      by (fastforce split: option.splits case_result.splits)
  qed simp
qed

theorem token_filter_transparent_witness:
  "let cs = [trivial_match_case [PT T_str] (\<lambda>_. Some None), catch_all_match_case (Some (make_message [U16 1]))]
   in \<exists>r. invoke_cases cs (make_message [U32 1]) = Some r"
proof -
  have "\<forall>c \<in> set [trivial_match_case [PT T_str] (\<lambda>_. Some None), catch_all_match_case (Some (make_message [U16 1]))]. wf_case c"
    using wf_case_trivial [of "[PT T_str]"] wf_case_catch_all by simp
  moreover have "wf_msg (make_message [U32 1])" by (simp add: make_message_def wf_msg_def)
  ultimately show ?thesis unfolding Let_def using token_filter_transparent by blast
qed

end
