(* ===== verification/Abstract_Actor.thy ===== *)
theory Abstract_Actor
  imports Message
begin

text \<open>
  The part of an actor every implementation shares (abstract_actor.hpp, abstract_actor.cpp): flags,
  exit reason, the list of attachables (monitors, links, group subscriptions, functors), links
  between actors, cleanup on exit, and the proxies that forward to remote actors
  (forwarding_actor_proxy.cpp). Actors live in a store indexed by their address; what an operation
  enqueues to a mailbox, unsubscribes, calls or hands to the scheduler is appended to a log, in
  program order. Each
  operation that the code guards with the mutex of the actor is one step; the order in which two
  mutexes are taken is modelled separately in Link_Locking.
\<close>

section \<open>Exit reasons\<close>

definition not_exited :: u32 where "not_exited = 0x00000"

definition exit_normal :: u32 where "exit_normal = 0x00001"

definition unhandled_exception :: u32 where "unhandled_exception = 0x00002"

definition unhandled_sync_failure :: u32 where "unhandled_sync_failure = 0x00004"

definition exit_unknown :: u32 where "exit_unknown = 0x00006"

definition out_of_workers :: u32 where "out_of_workers = 0x00007"

definition user_shutdown :: u32 where "user_shutdown = 0x00010"

definition exit_kill :: u32 where "exit_kill = 0x00011"

definition remote_link_unreachable :: u32 where "remote_link_unreachable = 0x00101"

definition user_defined :: u32 where "user_defined = 0x10000"

lemmas exit_reason_defs = not_exited_def exit_normal_def unhandled_exception_def
  unhandled_sync_failure_def exit_unknown_def out_of_workers_def user_shutdown_def exit_kill_def
  remote_link_unreachable_def user_defined_def

definition s_names_table :: "string list" where
  "s_names_table = [''not_exited'', ''normal'', ''unhandled_exception'', ''-invalid-'',
     ''unhandled_sync_failure'', ''-invalid-'', ''unknown'', ''out_of_workers'']"

definition as_string :: "u32 \<Rightarrow> string" where
  "as_string v =
     (if v \<le> out_of_workers then s_names_table ! unat v
      else if v = user_shutdown then ''user_shutdown''
      else if v = exit_kill then ''kill''
      else if v = remote_link_unreachable then ''remote_link_unreachable''
      else if v < user_defined then ''-invalid-'' else ''user_defined'')"

section \<open>State\<close>

datatype observe_type = monitor | link

datatype attachable =
    Default_Attachable actor_addr observe_type
  | Subscription group_ptr
  | Functor nat

datatype token =
    Anonymous_Token
  | Subscription_Token "group_ptr option"
  | Observe_Token actor_addr observe_type

text \<open>The manager of a proxy may be invalid; all other actors are local.\<close>

datatype actor_kind = Local | Proxy actor_addr

record actor_state =
  id_no :: u32
  exit_rsn :: u32
  aflags :: u32
  attachables :: "attachable list"
  kind :: actor_kind

datatype event =
    Enqueue nat actor_addr message_id "elem list"
  | Unsubscribe group_ptr actor_addr
  | Run_Functor nat nat u32
  | Delayed duration nat actor_addr message_id "elem list"
  | Schedule nat
  | Notify nat

record world =
  actor_at :: "nat \<Rightarrow> actor_state"
  log :: "event list"
  running :: u64

definition set_actor :: "nat \<Rightarrow> (actor_state \<Rightarrow> actor_state) \<Rightarrow> world \<Rightarrow> world" where
  "set_actor a f w = w\<lparr>actor_at := (actor_at w)(a := f (actor_at w a))\<rparr>"

definition emit :: "event \<Rightarrow> world \<Rightarrow> world" where
  "emit e w = w\<lparr>log := log w @ [e]\<rparr>"

definition address :: "nat \<Rightarrow> actor_addr" where
  "address a = Some a"

definition exited :: "world \<Rightarrow> nat \<Rightarrow> bool" where
  "exited w a \<longleftrightarrow> exit_rsn (actor_at w a) \<noteq> not_exited"

definition is_abstract_actor_flag :: u32 where "is_abstract_actor_flag = 0x100000"

text \<open>The constructors of local actors and of proxies.\<close>

definition new_actor :: "u32 \<Rightarrow> actor_state" where
  "new_actor ids = \<lparr>id_no = ids + 1, exit_rsn = not_exited, aflags = is_abstract_actor_flag,
     attachables = [], kind = Local\<rparr>"

definition new_proxy :: "u32 \<Rightarrow> nat \<Rightarrow> actor_state" where
  "new_proxy i mgr = \<lparr>id_no = i, exit_rsn = not_exited, aflags = is_abstract_actor_flag,
     attachables = [], kind = Proxy (Some mgr)\<rparr>"

section \<open>Flags\<close>

definition trap_exit_flag :: u32 where "trap_exit_flag = 0x01"

definition has_timeout_flag :: u32 where "has_timeout_flag = 0x02"

definition is_registered_flag :: u32 where "is_registered_flag = 0x04"

definition is_initialized_flag :: u32 where "is_initialized_flag = 0x08"

definition is_blocking_flag :: u32 where "is_blocking_flag = 0x10"

definition is_detached_flag :: u32 where "is_detached_flag = 0x20"

definition is_priority_aware_flag :: u32 where "is_priority_aware_flag = 0x40"

definition is_serializable_flag :: u32 where "is_serializable_flag = 0x40"

definition is_migrated_from_flag :: u32 where "is_migrated_from_flag = 0x80"

lemmas flag_defs = trap_exit_flag_def has_timeout_flag_def is_registered_flag_def
  is_initialized_flag_def is_blocking_flag_def is_detached_flag_def is_priority_aware_flag_def
  is_serializable_flag_def is_migrated_from_flag_def

definition set_flag :: "bool \<Rightarrow> u32 \<Rightarrow> u32 \<Rightarrow> u32" where
  "set_flag enable m x = (if enable then x OR m else x AND NOT m)"

definition get_flag :: "u32 \<Rightarrow> u32 \<Rightarrow> bool" where
  "get_flag m x \<longleftrightarrow> x AND m \<noteq> 0"

text \<open>Registration keeps the registry's count of running actors in step with the flag.\<close>

definition is_registered :: "world \<Rightarrow> nat \<Rightarrow> bool" where
  "is_registered w a = get_flag is_registered_flag (aflags (actor_at w a))"

definition set_registered :: "nat \<Rightarrow> bool \<Rightarrow> world \<Rightarrow> world" where
  "set_registered a value w =
     (if is_registered w a = value then w
      else let w' = (if value then w\<lparr>running := running w + 1\<rparr> else w\<lparr>running := running w - 1\<rparr>)
           in set_actor a (aflags_update (set_flag value is_registered_flag)) w')"

section \<open>Enqueuing\<close>

text \<open>
  The atoms of the messages a proxy sends to its manager; their values are those of the atom
  encoding and do not matter here.
\<close>

record proxy_atoms =
  forward_atom :: u64
  link_atom :: u64
  unlink_atom :: u64

definition forward_msg :: "proxy_atoms \<Rightarrow> nat \<Rightarrow> actor_addr \<Rightarrow> message_id \<Rightarrow> elem list \<Rightarrow> world \<Rightarrow> world" where
  "forward_msg at a sender mid msg w = (case kind (actor_at w a) of
     Proxy (Some mgr) \<Rightarrow> emit (Enqueue mgr None invalid_message_id
       [Atom (forward_atom at), Addr sender, Addr (address a), Mid mid, Msg msg]) w
   | _ \<Rightarrow> w)"

text \<open>The virtual enqueue: a proxy forwards, any other actor gets the message into its mailbox.\<close>

definition enqueue_to :: "proxy_atoms \<Rightarrow> nat \<Rightarrow> actor_addr \<Rightarrow> message_id \<Rightarrow> elem list \<Rightarrow> world \<Rightarrow> world" where
  "enqueue_to at a sender mid msg w = (case kind (actor_at w a) of
     Proxy _ \<Rightarrow> forward_msg at a sender mid msg w
   | Local \<Rightarrow> emit (Enqueue a sender mid msg) w)"

definition enqueue_addr :: "proxy_atoms \<Rightarrow> actor_addr \<Rightarrow> actor_addr \<Rightarrow> message_id \<Rightarrow> elem list \<Rightarrow> world \<Rightarrow> world" where
  "enqueue_addr at dest sender mid msg w = (case dest of None \<Rightarrow> w | Some a \<Rightarrow> enqueue_to at a sender mid msg w)"

section \<open>Attachables\<close>

fun attachable_matches :: "attachable \<Rightarrow> token \<Rightarrow> bool" where
  "attachable_matches (Default_Attachable obs ty) (Observe_Token o' t') = (o' = obs \<and> t' = ty)"
| "attachable_matches (Subscription g) (Subscription_Token None) = True"
| "attachable_matches (Subscription g) (Subscription_Token (Some g')) = (g' = g)"
| "attachable_matches _ _ = False"

text \<open>
  The observer of a default attachable is a valid address in every call of the code that creates one
  (linking and monitoring return early for invalid addresses); for the invalid address, which the code
  would dereference, the model sends nothing.
\<close>

fun actor_exited :: "proxy_atoms \<Rightarrow> attachable \<Rightarrow> nat \<Rightarrow> u32 \<Rightarrow> world \<Rightarrow> world" where
  "actor_exited at (Default_Attachable obs ty) self rsn w =
     enqueue_addr at obs (address self) (with_high_priority invalid_message_id)
       [if ty = monitor then Down (address self) rsn else Exit (address self) rsn] w"
| "actor_exited at (Subscription g) self rsn w = emit (Unsubscribe g (address self)) w"
| "actor_exited at (Functor f) self rsn w = emit (Run_Functor f self rsn) w"

definition attach_impl :: "nat \<Rightarrow> attachable \<Rightarrow> world \<Rightarrow> world" where
  "attach_impl a x w = set_actor a (attachables_update (\<lambda>xs. x # xs)) w"

definition attach :: "proxy_atoms \<Rightarrow> nat \<Rightarrow> attachable option \<Rightarrow> world \<Rightarrow> world" where
  "attach at a ptr w = (case ptr of None \<Rightarrow> w | Some x \<Rightarrow>
     if exit_rsn (actor_at w a) = not_exited then attach_impl a x w
     else actor_exited at x a (exit_rsn (actor_at w a)) w)"

text \<open>
  detach\_impl recurses on the list through a reference; a dry run that does not stop at the first
  hit calls itself on the same position again and does not return (None).
\<close>

partial_function (option) detach_impl ::
  "token \<Rightarrow> bool \<Rightarrow> bool \<Rightarrow> attachable list \<Rightarrow> (nat \<times> attachable list) option" where
  "detach_impl what stop_on_hit dry_run xs = (case xs of
     [] \<Rightarrow> Some (0, [])
   | x # r \<Rightarrow>
       if attachable_matches x what then
         (let xs' = if dry_run then xs else r in
          if stop_on_hit then Some (1, xs')
          else Option.bind (detach_impl what stop_on_hit dry_run xs') (\<lambda>(n, ys). Some (1 + n, ys)))
       else Option.bind (detach_impl what stop_on_hit dry_run r) (\<lambda>(n, ys). Some (n, x # ys)))"

text \<open>Running detach\_impl on an actor; None is non-termination.\<close>

definition detach_on :: "token \<Rightarrow> bool \<Rightarrow> bool \<Rightarrow> nat \<Rightarrow> world \<Rightarrow> (nat \<times> world) option" where
  "detach_on what stop dry a w = Option.bind (detach_impl what stop dry (attachables (actor_at w a)))
     (\<lambda>(n, ys). Some (n, set_actor a (attachables_update (\<lambda>_. ys)) w))"

definition detach :: "token \<Rightarrow> nat \<Rightarrow> world \<Rightarrow> (nat \<times> world) option" where
  "detach what a w = detach_on what False False a w"

section \<open>Links\<close>

datatype linking_operation = establish_link_op | establish_backlink_op | remove_link_op | remove_backlink_op

definition establish_backlink_impl :: "proxy_atoms \<Rightarrow> nat \<Rightarrow> actor_addr \<Rightarrow> world \<Rightarrow> (bool \<times> world) option" where
  "establish_backlink_impl at self other w =
     (if other \<noteq> None \<and> other \<noteq> address self then
        if exit_rsn (actor_at w self) = not_exited then
          Option.bind (detach_on (Observe_Token other link) True True self w) (\<lambda>(n, w').
            if n = 0 then Some (True, attach_impl self (Default_Attachable other link) w')
            else Some (False, w'))
        else Some (False, enqueue_addr at other (address self) invalid_message_id
               [Exit (address self) (exit_rsn (actor_at w self))] w)
      else Some (False, w))"

definition remove_backlink_impl :: "nat \<Rightarrow> actor_addr \<Rightarrow> world \<Rightarrow> (bool \<times> world) option" where
  "remove_backlink_impl self other w =
     (if other \<noteq> None \<and> other \<noteq> address self then
        Option.bind (detach_on (Observe_Token other link) True False self w) (\<lambda>(n, w'). Some (n > 0, w'))
      else Some (False, w))"

text \<open>The virtual link\_impl for the two operations other actors call, with the proxy's forwarding.\<close>

definition forward_if :: "proxy_atoms \<Rightarrow> nat \<Rightarrow> u64 \<Rightarrow> actor_addr \<Rightarrow> bool \<times> world \<Rightarrow> bool \<times> world" where
  "forward_if at self verb other r = (case r of (ok, w) \<Rightarrow>
     if ok \<and> kind (actor_at w self) \<noteq> Local
     then (ok, forward_msg at self (address self) invalid_message_id [Atom verb, Addr other] w)
     else (ok, w))"

definition establish_backlink :: "proxy_atoms \<Rightarrow> nat \<Rightarrow> actor_addr \<Rightarrow> world \<Rightarrow> (bool \<times> world) option" where
  "establish_backlink at self other w =
     map_option (forward_if at self (link_atom at) other) (establish_backlink_impl at self other w)"

definition remove_backlink :: "proxy_atoms \<Rightarrow> nat \<Rightarrow> actor_addr \<Rightarrow> world \<Rightarrow> (bool \<times> world) option" where
  "remove_backlink at self other w =
     map_option (forward_if at self (unlink_atom at) other) (remove_backlink_impl self other w)"

definition establish_link_impl :: "proxy_atoms \<Rightarrow> nat \<Rightarrow> actor_addr \<Rightarrow> world \<Rightarrow> (bool \<times> world) option" where
  "establish_link_impl at self other w = (case other of
     None \<Rightarrow> Some (False, w)
   | Some b \<Rightarrow>
       if other = address self then Some (False, w)
       else if exited w self then
         Some (False, enqueue_to at b (address self) invalid_message_id
           [Exit (address self) (exit_rsn (actor_at w self))] w)
       else Option.bind (establish_backlink at b (address self) w) (\<lambda>(ok, w').
         if ok then Some (True, attach_impl self (Default_Attachable other link) w')
         else Some (False, w')))"

definition remove_link_impl :: "proxy_atoms \<Rightarrow> nat \<Rightarrow> actor_addr \<Rightarrow> world \<Rightarrow> (bool \<times> world) option" where
  "remove_link_impl at self other w = (case other of
     None \<Rightarrow> Some (False, w)
   | Some b \<Rightarrow>
       if other = address self then Some (False, w)
       else Option.bind (detach_on (Observe_Token other link) True False self w) (\<lambda>(n, w').
         if n > 0 then Option.bind (remove_backlink at b (address self) w') (\<lambda>(_, w''). Some (True, w''))
         else Some (False, w')))"

definition link_impl :: "proxy_atoms \<Rightarrow> linking_operation \<Rightarrow> nat \<Rightarrow> actor_addr \<Rightarrow> world \<Rightarrow> (bool \<times> world) option" where
  "link_impl at op self other w = (case op of
     establish_link_op \<Rightarrow> map_option (forward_if at self (link_atom at) other) (establish_link_impl at self other w)
   | establish_backlink_op \<Rightarrow> establish_backlink at self other w
   | remove_link_op \<Rightarrow> map_option (forward_if at self (unlink_atom at) other) (remove_link_impl at self other w)
   | remove_backlink_op \<Rightarrow> remove_backlink at self other w)"

definition link_to :: "proxy_atoms \<Rightarrow> nat \<Rightarrow> actor_addr \<Rightarrow> world \<Rightarrow> world option" where
  "link_to at self whom w = map_option snd (link_impl at establish_link_op self whom w)"

definition unlink_from :: "proxy_atoms \<Rightarrow> nat \<Rightarrow> actor_addr \<Rightarrow> world \<Rightarrow> world option" where
  "unlink_from at self other w = map_option snd (link_impl at remove_link_op self other w)"

section \<open>Exit\<close>

definition cleanup :: "proxy_atoms \<Rightarrow> nat \<Rightarrow> u32 \<Rightarrow> world \<Rightarrow> world" where
  "cleanup at a rsn w =
     (if exit_rsn (actor_at w a) \<noteq> not_exited then w
      else let head = attachables (actor_at w a) in
        fold (\<lambda>x. actor_exited at x a rsn) head
          (set_actor a (\<lambda>s. s\<lparr>exit_rsn := rsn, attachables := []\<rparr>) w))"

text \<open>Exception handlers of attachables: they may throw (None), decline or yield an exit reason.\<close>

fun handle_exceptions :: "(attachable \<Rightarrow> u32 option option) \<Rightarrow> attachable list \<Rightarrow> u32 option" where
  "handle_exceptions hx [] = None"
| "handle_exceptions hx (x # xs) = (case hx x of
     Some (Some r) \<Rightarrow> Some r
   | _ \<Rightarrow> handle_exceptions hx xs)"

definition handle_eptr :: "(attachable \<Rightarrow> u32 option option) \<Rightarrow> world \<Rightarrow> nat \<Rightarrow> u32 option" where
  "handle_eptr hx w a = handle_exceptions hx (attachables (actor_at w a))"

section \<open>Proxies\<close>

definition set_manager :: "nat \<Rightarrow> actor_addr \<Rightarrow> world \<Rightarrow> world" where
  "set_manager a mgr w = set_actor a (kind_update (\<lambda>_. Proxy mgr)) w"

definition local_link_to :: "proxy_atoms \<Rightarrow> nat \<Rightarrow> actor_addr \<Rightarrow> world \<Rightarrow> world option" where
  "local_link_to at self other w = map_option snd (establish_link_impl at self other w)"

definition local_unlink_from :: "proxy_atoms \<Rightarrow> nat \<Rightarrow> actor_addr \<Rightarrow> world \<Rightarrow> world option" where
  "local_unlink_from at self other w = map_option snd (remove_link_impl at self other w)"

definition kill_proxy :: "proxy_atoms \<Rightarrow> nat \<Rightarrow> u32 \<Rightarrow> world \<Rightarrow> world" where
  "kill_proxy at a rsn w = cleanup at a rsn (set_manager a None w)"

section \<open>Frame facts\<close>

lemma actor_at_set_actor [simp]:
  "actor_at (set_actor a f w) b = (if b = a then f (actor_at w a) else actor_at w b)"
  by (simp add: set_actor_def)

lemma log_set_actor [simp]: "log (set_actor a f w) = log w"
  by (simp add: set_actor_def)

lemma emit_simps [simp]: "actor_at (emit e w) = actor_at w" "log (emit e w) = log w @ [e]" "running (emit e w) = running w"
  by (simp_all add: emit_def)

lemma actor_at_forward_msg [simp]: "actor_at (forward_msg at a s m x w) = actor_at w"
  by (simp add: forward_msg_def split: actor_kind.splits option.splits)

lemma actor_at_enqueue_to [simp]: "actor_at (enqueue_to at a s m x w) = actor_at w"
  by (simp add: enqueue_to_def split: actor_kind.splits)

lemma actor_at_enqueue_addr [simp]: "actor_at (enqueue_addr at a s m x w) = actor_at w"
  by (simp add: enqueue_addr_def split: option.splits)

lemma actor_at_actor_exited [simp]: "actor_at (actor_exited at x a r w) = actor_at w"
  by (cases "(at, x, a, r, w)" rule: actor_exited.cases) simp_all

lemma actor_at_fold_exited [simp]: "actor_at (fold (\<lambda>x. actor_exited at x a r) xs w) = actor_at w"
  by (induction xs arbitrary: w) simp_all

lemma forward_if_simps [simp]:
  "fst (forward_if at a v b (ok, w)) = ok" "actor_at (snd (forward_if at a v b (ok, w))) = actor_at w"
  by (simp_all add: forward_if_def)

section \<open>Detaching\<close>

fun remove_match :: "token \<Rightarrow> attachable list \<Rightarrow> attachable list" where
  "remove_match what [] = []"
| "remove_match what (x # xs) = (if attachable_matches x what then xs else x # remove_match what xs)"

lemma detach_impl_Nil [simp]: "detach_impl what stop dry [] = Some (0, [])"
  by (subst detach_impl.simps) simp

lemma detach_impl_stop:
  "detach_impl what True dry xs = Some (if \<exists>x \<in> set xs. attachable_matches x what then 1 else 0,
     if dry then xs else remove_match what xs)"
proof (induction xs)
  case (Cons x xs)
  then show ?case by (subst detach_impl.simps) (simp add: Let_def)
qed simp

lemma detach_impl_all:
  "detach_impl what False False xs = Some (length (filter (\<lambda>x. attachable_matches x what) xs),
     filter (\<lambda>x. \<not> attachable_matches x what) xs)"
proof (induction xs)
  case (Cons x xs)
  then show ?case by (subst detach_impl.simps) (simp add: Let_def)
qed simp

lemma detach_impl_dry_returns:
  assumes "detach_impl what stop dry xs = Some r" and "\<not> stop" and "dry"
  shows "\<not> (\<exists>x \<in> set xs. attachable_matches x what)"
proof -
  let ?P = "\<lambda>what stop dry xs (r :: nat \<times> attachable list).
    \<not> stop \<longrightarrow> dry \<longrightarrow> \<not> (\<exists>x \<in> set xs. attachable_matches x what)"
  have "?P what stop dry xs r"
  proof (rule detach_impl.raw_induct [where P = ?P, OF _ assms(1)], intro impI)
    fix f what stop dry xs y
    assume IH: "\<And>what stop dry xs y. f what stop dry xs = Some y \<Longrightarrow> ?P what stop dry xs y"
      and eq: "(case xs of [] \<Rightarrow> Some (0, []) | x # r \<Rightarrow>
        if attachable_matches x what then
          let xs' = if dry then xs else r in
          if stop then Some (1, xs') else Option.bind (f what stop dry xs') (\<lambda>(n, ys). Some (1 + n, ys))
        else Option.bind (f what stop dry r) (\<lambda>(n, ys). Some (n, x # ys))) = Some y"
      and m: "\<not> stop" "dry"
    show "\<not> (\<exists>x \<in> set xs. attachable_matches x what)"
    proof (cases xs)
      case (Cons x r)
      then show ?thesis using eq m IH [of what stop dry xs] IH [of what stop dry r]
        by (cases "attachable_matches x what") (auto simp: bind_eq_Some_conv)
    qed simp
  qed
  then show ?thesis using assms(2,3) by blast
qed

lemma detach_impl_dry_no_match:
  "\<not> (\<exists>x \<in> set xs. attachable_matches x what) \<Longrightarrow> detach_impl what False True xs = Some (0, xs)"
proof (induction xs)
  case (Cons x xs)
  then show ?case by (subst detach_impl.simps) simp
qed simp

section \<open>Links of an actor\<close>

abbreviation link_attachable :: "nat \<Rightarrow> attachable" where
  "link_attachable b \<equiv> Default_Attachable (Some b) link"

definition linked :: "world \<Rightarrow> nat \<Rightarrow> nat \<Rightarrow> bool" where
  "linked w a b \<longleftrightarrow> link_attachable b \<in> set (attachables (actor_at w a))"

lemma matches_link_iff:
  "attachable_matches x (Observe_Token (Some b) link) \<longleftrightarrow> x = link_attachable b"
  by (cases "(x, Observe_Token (Some b) link)" rule: attachable_matches.cases) auto

lemma remove_match_link: "remove_match (Observe_Token (Some b) link) xs = remove1 (link_attachable b) xs"
  by (induction xs) (auto simp: matches_link_iff)

lemma attachables_update_const: "attachables_update (\<lambda>_. f (attachables s)) s = attachables_update f s"
  by (cases s) simp

lemma set_actor_same [simp]: "f (actor_at w a) = actor_at w a \<Longrightarrow> set_actor a f w = w"
  by (cases w) (simp add: set_actor_def)

lemma detach_on_link:
  "detach_on (Observe_Token (Some b) link) True dry a w = Some (if linked w a b then 1 else 0,
     if dry then w else set_actor a (attachables_update (remove1 (link_attachable b))) w)"
proof -
  have "attachables_update (\<lambda>_. attachables (actor_at w a)) (actor_at w a) = actor_at w a" by simp
  moreover have "set_actor a (attachables_update (\<lambda>_. remove1 x (attachables (actor_at w a)))) w
      = set_actor a (attachables_update (remove1 x)) w" for x
    by (simp add: set_actor_def attachables_update_const)
  ultimately show ?thesis
    by (simp add: detach_on_def detach_impl_stop remove_match_link matches_link_iff linked_def)
qed

text \<open>The state after the two half operations and the two full operations.\<close>

lemma establish_backlink_result:
  assumes "a \<noteq> b"
  shows "\<exists>ok w'. establish_backlink at b (address a) w = Some (ok, w')
    \<and> ok = (\<not> exited w b \<and> \<not> linked w b a)
    \<and> actor_at w' = (if ok then actor_at (attach_impl b (link_attachable a) w) else actor_at w)"
proof -
  obtain w' where r: "establish_backlink_impl at b (address a) w = Some (\<not> exited w b \<and> \<not> linked w b a, w')"
    "actor_at w' = (if \<not> exited w b \<and> \<not> linked w b a then actor_at (attach_impl b (link_attachable a) w) else actor_at w)"
    using assms
    by (cases "exited w b"; cases "linked w b a")
      (auto simp: establish_backlink_impl_def address_def exited_def detach_on_link)
  then show ?thesis
    by (intro exI [of _ "\<not> exited w b \<and> \<not> linked w b a"]
        exI [of _ "snd (forward_if at b (link_atom at) (address a) (\<not> exited w b \<and> \<not> linked w b a, w'))"])
      (simp add: establish_backlink_def prod_eq_iff)
qed

lemma establish_link_result:
  assumes "a \<noteq> b"
  shows "\<exists>ok w'. establish_link_impl at a (Some b) w = Some (ok, w')
    \<and> ok = (\<not> exited w a \<and> \<not> exited w b \<and> \<not> linked w b a)
    \<and> actor_at w' = (if ok then actor_at (attach_impl a (link_attachable b) (attach_impl b (link_attachable a) w))
        else actor_at w)"
proof -
  obtain ok w' where r: "establish_backlink at b (address a) w = Some (ok, w')"
    "ok = (\<not> exited w b \<and> \<not> linked w b a)"
    "actor_at w' = (if ok then actor_at (attach_impl b (link_attachable a) w) else actor_at w)"
    using establish_backlink_result [OF assms] by metis
  show ?thesis
  proof (cases "exited w a")
    case True
    then show ?thesis using assms by (auto simp: establish_link_impl_def address_def)
  next
    case False
    have "establish_link_impl at a (Some b) w =
        Some (ok, if ok then attach_impl a (link_attachable b) w' else w')"
      using assms False r(1) by (simp add: establish_link_impl_def address_def)
    then show ?thesis using False r(2,3) by (auto simp: attach_impl_def fun_eq_iff)
  qed
qed

lemma remove_backlink_result:
  assumes "a \<noteq> b"
  shows "\<exists>ok w'. remove_backlink at b (address a) w = Some (ok, w')
    \<and> actor_at w' = actor_at (set_actor b (attachables_update (remove1 (link_attachable a))) w)"
proof -
  let ?w = "set_actor b (attachables_update (remove1 (link_attachable a))) w"
  have "remove_backlink at b (address a) w
      = Some (forward_if at b (unlink_atom at) (address a) (linked w b a, ?w))"
    using assms by (auto simp: remove_backlink_def remove_backlink_impl_def address_def detach_on_link)
  then show ?thesis
    by (intro exI [of _ "linked w b a"]
        exI [of _ "snd (forward_if at b (unlink_atom at) (address a) (linked w b a, ?w))"])
      (simp add: prod_eq_iff)
qed

lemma remove_link_result:
  assumes "a \<noteq> b"
  shows "\<exists>w'. remove_link_impl at a (Some b) w = Some (linked w a b, w')
    \<and> actor_at w' = (if linked w a b
        then actor_at (set_actor b (attachables_update (remove1 (link_attachable a)))
            (set_actor a (attachables_update (remove1 (link_attachable b))) w))
        else actor_at w)"
proof (cases "linked w a b")
  case True
  let ?w = "set_actor a (attachables_update (remove1 (link_attachable b))) w"
  have "remove_link_impl at a (Some b) w =
      Option.bind (remove_backlink at b (address a) ?w) (\<lambda>(_, w''). Some (True, w''))"
    using assms True by (simp add: remove_link_impl_def address_def detach_on_link)
  moreover obtain ok w'' where "remove_backlink at b (address a) ?w = Some (ok, w'')"
    "actor_at w'' = actor_at (set_actor b (attachables_update (remove1 (link_attachable a))) ?w)"
    using remove_backlink_result [OF assms] by blast
  ultimately show ?thesis using True by simp
next
  case False
  then have "link_attachable b \<notin> set (attachables (actor_at w a))" by (simp add: linked_def)
  with False assms show ?thesis
    by (auto simp: remove_link_impl_def address_def detach_on_link remove1_idem fun_eq_iff)
qed

section \<open>The link relation\<close>

definition link_count :: "world \<Rightarrow> nat \<Rightarrow> nat \<Rightarrow> nat" where
  "link_count w a b = count_list (attachables (actor_at w a)) (link_attachable b)"

text \<open>
  Terminated actors have no attachables, nobody is linked to itself or twice to the same actor, and
  between two living actors a link is known to both.
\<close>

definition wf_links :: "world \<Rightarrow> bool" where
  "wf_links w \<longleftrightarrow> (\<forall>a. exited w a \<longrightarrow> attachables (actor_at w a) = [])
     \<and> (\<forall>a. link_count w a a = 0) \<and> (\<forall>a b. link_count w a b \<le> 1)
     \<and> (\<forall>a b. \<not> exited w a \<and> \<not> exited w b \<longrightarrow> link_count w a b = link_count w b a)"

lemma linked_iff_count: "linked w a b \<longleftrightarrow> link_count w a b \<noteq> 0"
  by (simp add: linked_def link_count_def count_list_0_iff)

lemma count_list_remove1: "count_list (remove1 x xs) y = count_list xs y - (if x = y then 1 else 0)"
  by (induction xs) auto

lemma wf_links_cong: "actor_at w = actor_at w' \<Longrightarrow> wf_links w \<longleftrightarrow> wf_links w'"
  by (simp add: wf_links_def exited_def link_count_def)

text \<open>Changes of one actor that touch neither its links nor whether it has exited.\<close>

lemma wf_links_frame:
  assumes "wf_links w" and "\<And>c. c \<noteq> a \<Longrightarrow> actor_at w' c = actor_at w c"
    and "exit_rsn (actor_at w' a) = exit_rsn (actor_at w a)"
    and "\<And>b. link_count w' a b = link_count w a b" and "exited w a \<Longrightarrow> attachables (actor_at w' a) = []"
  shows "wf_links w'"
proof -
  have e: "exited w' c = exited w c" for c using assms(2) [of c] assms(3) by (cases "c = a") (simp_all add: exited_def)
  have l: "link_count w' c b = link_count w c b" for c b
    using assms(2) [of c] assms(4) [of b] by (cases "c = a") (simp_all add: link_count_def)
  have "exited w' c \<Longrightarrow> attachables (actor_at w' c) = []" for c
    using assms(1,5) assms(2) [of c] e [of c] by (cases "c = a") (auto simp: wf_links_def)
  then show ?thesis using assms(1) by (simp add: wf_links_def e l)
qed

lemma wf_links_establish:
  assumes "wf_links w" and "a \<noteq> b" and "\<not> exited w a" and "\<not> exited w b" and "\<not> linked w b a"
  shows "wf_links (attach_impl a (link_attachable b) (attach_impl b (link_attachable a) w))"
proof -
  let ?w = "attach_impl a (link_attachable b) (attach_impl b (link_attachable a) w)"
  have e: "exited ?w c = exited w c" for c using assms(2) by (simp add: exited_def attach_impl_def)
  have l: "link_count ?w c d = link_count w c d + (if c = a \<and> d = b \<or> c = b \<and> d = a then 1 else 0)" for c d
    using assms(2) by (auto simp: link_count_def attach_impl_def)
  have z: "link_count w a b = 0" "link_count w b a = 0"
    using assms by (auto simp: wf_links_def linked_iff_count)
  have n: "exited w c \<Longrightarrow> attachables (actor_at ?w c) = []" for c
    using assms by (auto simp: wf_links_def attach_impl_def)
  show ?thesis unfolding wf_links_def e l
  proof (intro conjI allI impI)
    fix c d
    show "link_count w c d + (if c = a \<and> d = b \<or> c = b \<and> d = a then 1 else 0) \<le> 1"
      using assms(1) z by (auto simp: wf_links_def)
  qed (use assms(1,2) n in \<open>auto simp: wf_links_def\<close>)
qed

lemma wf_links_remove:
  assumes "wf_links w" and "a \<noteq> b" and "linked w a b"
  shows "wf_links (set_actor b (attachables_update (remove1 (link_attachable a)))
    (set_actor a (attachables_update (remove1 (link_attachable b))) w))"
proof -
  let ?w = "set_actor b (attachables_update (remove1 (link_attachable a)))
    (set_actor a (attachables_update (remove1 (link_attachable b))) w)"
  have e: "exited ?w c = exited w c" for c using assms(2) by (simp add: exited_def)
  have l: "link_count ?w c d = link_count w c d - (if c = a \<and> d = b \<or> c = b \<and> d = a then 1 else 0)" for c d
    using assms(2) by (auto simp: link_count_def count_list_remove1)
  have n: "exited w c \<Longrightarrow> attachables (actor_at ?w c) = []" for c
    using assms by (auto simp: wf_links_def)
  have d: "link_count w c d - k \<le> 1" for c d k
    using assms(1) by (meson diff_le_self le_trans wf_links_def)
  show ?thesis unfolding wf_links_def e l
  proof (intro conjI allI impI)
    fix c d assume "\<not> exited w c \<and> \<not> exited w d"
    then have "link_count w c d = link_count w d c" using assms(1) by (simp add: wf_links_def)
    then show "link_count w c d - (if c = a \<and> d = b \<or> c = b \<and> d = a then 1 else 0)
        = link_count w d c - (if d = a \<and> c = b \<or> d = b \<and> c = a then 1 else 0)" by auto
  qed (use assms(1,2) n d in \<open>auto simp: wf_links_def\<close>)
qed

lemma establish_link_wf:
  assumes "wf_links w" and "establish_link_impl at a other w = Some (ok, w')"
  shows "wf_links w'"
proof (cases other)
  case None
  then show ?thesis using assms by (simp add: establish_link_impl_def)
next
  case (Some b)
  show ?thesis
  proof (cases "a = b")
    case True
    then show ?thesis using assms Some by (simp add: establish_link_impl_def address_def)
  next
    case False
    obtain ok' w'' where r: "establish_link_impl at a (Some b) w = Some (ok', w'')"
      "ok' = (\<not> exited w a \<and> \<not> exited w b \<and> \<not> linked w b a)"
      "actor_at w'' = (if ok' then actor_at (attach_impl a (link_attachable b) (attach_impl b (link_attachable a) w))
        else actor_at w)" using establish_link_result [OF False] by metis
    then have "w'' = w'" using assms(2) Some by simp
    then show ?thesis
      using r(2,3) wf_links_establish [OF assms(1) False] assms(1) by (metis wf_links_cong)
  qed
qed

lemma remove_link_wf:
  assumes "wf_links w" and "remove_link_impl at a other w = Some (ok, w')"
  shows "wf_links w'"
proof (cases other)
  case None
  then show ?thesis using assms by (simp add: remove_link_impl_def)
next
  case (Some b)
  show ?thesis
  proof (cases "a = b")
    case True
    then show ?thesis using assms Some by (simp add: remove_link_impl_def address_def)
  next
    case False
    obtain w'' where r: "remove_link_impl at a (Some b) w = Some (linked w a b, w'')"
      "actor_at w'' = (if linked w a b
        then actor_at (set_actor b (attachables_update (remove1 (link_attachable a)))
            (set_actor a (attachables_update (remove1 (link_attachable b))) w))
        else actor_at w)" using remove_link_result [OF False] by metis
    then have "w'' = w'" using assms(2) Some by simp
    then show ?thesis
      using r(2) wf_links_remove [OF assms(1) False] assms(1) by (metis wf_links_cong)
  qed
qed

lemma cleanup_actor_at:
  "actor_at (cleanup at a rsn w) = (if exited w a then actor_at w
     else (actor_at w)(a := (actor_at w a)\<lparr>exit_rsn := rsn, attachables := []\<rparr>))"
  by (auto simp: cleanup_def exited_def Let_def)

lemma cleanup_wf:
  assumes "wf_links w" and "rsn \<noteq> not_exited"
  shows "wf_links (cleanup at a rsn w)"
proof (cases "exited w a")
  case True
  then show ?thesis using assms(1) cleanup_actor_at [of at a rsn w] by (metis wf_links_cong)
next
  case False
  let ?w = "cleanup at a rsn w"
  have e: "exited ?w c \<longleftrightarrow> c = a \<or> exited w c" for c
    using False assms(2) by (simp add: exited_def cleanup_actor_at)
  have l: "link_count ?w c d = (if c = a then 0 else link_count w c d)" for c d
    using False by (simp add: link_count_def cleanup_actor_at)
  show ?thesis using assms(1) False unfolding wf_links_def e l by (auto simp: cleanup_actor_at)
qed

lemma attach_wf:
  assumes "wf_links w" and "\<And>b. x \<noteq> Default_Attachable b link"
  shows "wf_links (attach at a (Some x) w)"
proof (cases "exited w a")
  case True
  then have "actor_at (attach at a (Some x) w) = actor_at w" by (simp add: attach_def exited_def)
  then show ?thesis using assms(1) wf_links_cong by metis
next
  case False
  then show ?thesis using assms
    by (intro wf_links_frame [OF assms(1), of a]) (auto simp: attach_def exited_def attach_impl_def link_count_def)
qed

lemma detach_wf:
  assumes "wf_links w" and "\<And>b. what \<noteq> Observe_Token b link" and "detach what a w = Some (n, w')"
  shows "wf_links w'"
proof -
  let ?keep = "filter (\<lambda>x. \<not> attachable_matches x what)"
  have w': "w' = set_actor a (attachables_update (\<lambda>_. ?keep (attachables (actor_at w a)))) w"
    using assms(3) by (auto simp: detach_def detach_on_def detach_impl_all)
  have nm: "\<not> attachable_matches (link_attachable b) what" for b
    using assms(2) by (cases "(link_attachable b, what)" rule: attachable_matches.cases) auto
  have "count_list (?keep xs) (link_attachable b) = count_list xs (link_attachable b)" for xs b
    using nm [of b] by (induction xs) auto
  then show ?thesis using assms(1)
    by (intro wf_links_frame [OF assms(1), of a]) (auto simp: w' link_count_def wf_links_def)
qed

section \<open>Histories of an actor system\<close>

inductive api_step :: "proxy_atoms \<Rightarrow> world \<Rightarrow> world \<Rightarrow> bool" for at where
  step_link: "link_to at a whom w = Some w' \<Longrightarrow> api_step at w w'"
| step_unlink: "unlink_from at a whom w = Some w' \<Longrightarrow> api_step at w w'"
| step_local_link: "local_link_to at a whom w = Some w' \<Longrightarrow> api_step at w w'"
| step_local_unlink: "local_unlink_from at a whom w = Some w' \<Longrightarrow> api_step at w w'"
| step_attach: "(\<And>b. x \<noteq> Default_Attachable b link) \<Longrightarrow> api_step at w (attach at a (Some x) w)"
| step_detach: "(\<And>b. what \<noteq> Observe_Token b link) \<Longrightarrow> detach what a w = Some (n, w') \<Longrightarrow> api_step at w w'"
| step_cleanup: "rsn \<noteq> not_exited \<Longrightarrow> api_step at w (cleanup at a rsn w)"
| step_kill: "rsn \<noteq> not_exited \<Longrightarrow> api_step at w (kill_proxy at a rsn w)"
| step_registered: "api_step at w (set_registered a v w)"

lemma set_registered_wf: "wf_links w \<Longrightarrow> wf_links (set_registered a v w)"
  by (rule wf_links_frame [of w a])
    (auto simp: set_registered_def Let_def set_actor_def link_count_def wf_links_def)

lemma set_manager_wf: "wf_links w \<Longrightarrow> wf_links (set_manager a m w)"
  by (rule wf_links_frame [of w a]) (auto simp: set_manager_def link_count_def wf_links_def)

lemma forward_if_wf: "forward_if at a v b (ok, w) = (ok', w') \<Longrightarrow> wf_links w \<Longrightarrow> wf_links w'"
  using forward_if_simps(2) [of at a v b ok w] wf_links_cong by (metis snd_conv)

lemma api_step_wf: "api_step at w w' \<Longrightarrow> wf_links w \<Longrightarrow> wf_links w'"
proof (induction rule: api_step.induct)
  case (step_link a whom w w')
  then obtain r where "establish_link_impl at a whom w = Some r"
    "w' = snd (forward_if at a (link_atom at) whom r)" by (auto simp: link_to_def link_impl_def)
  then show ?case using establish_link_wf [of w at a whom "fst r" "snd r"] step_link.prems forward_if_wf
    by (metis prod.collapse)
next
  case (step_unlink a whom w w')
  then obtain r where "remove_link_impl at a whom w = Some r"
    "w' = snd (forward_if at a (unlink_atom at) whom r)" by (auto simp: unlink_from_def link_impl_def)
  then show ?case using remove_link_wf [of w at a whom "fst r" "snd r"] step_unlink.prems forward_if_wf
    by (metis prod.collapse)
next
  case (step_local_link a whom w w')
  then obtain r where "establish_link_impl at a whom w = Some r" "w' = snd r" by (auto simp: local_link_to_def)
  then show ?case using establish_link_wf [of w at a whom "fst r" "snd r"] step_local_link.prems by simp
next
  case (step_local_unlink a whom w w')
  then obtain r where "remove_link_impl at a whom w = Some r" "w' = snd r" by (auto simp: local_unlink_from_def)
  then show ?case using remove_link_wf [of w at a whom "fst r" "snd r"] step_local_unlink.prems by simp
next
  case (step_detach what a w n w')
  then show ?case using detach_wf by blast
qed (simp_all add: attach_wf cleanup_wf kill_proxy_def set_manager_wf set_registered_wf)

lemma api_steps_wf: "(api_step at)\<^sup>*\<^sup>* w w' \<Longrightarrow> wf_links w \<Longrightarrow> wf_links w'"
  by (induction rule: rtranclp_induct) (auto dest: api_step_wf)

section \<open>Notification on exit\<close>

text \<open>What an attachable of actor a logs when a exits.\<close>

definition notify :: "proxy_atoms \<Rightarrow> (nat \<Rightarrow> actor_kind) \<Rightarrow> nat \<Rightarrow> u32 \<Rightarrow> attachable \<Rightarrow> event list" where
  "notify at K a rsn x = (case x of
     Default_Attachable None ty \<Rightarrow> []
   | Default_Attachable (Some b) ty \<Rightarrow>
       (let m = [if ty = monitor then Down (Some a) rsn else Exit (Some a) rsn];
            mid = with_high_priority invalid_message_id in
        case K b of
          Local \<Rightarrow> [Enqueue b (Some a) mid m]
        | Proxy (Some mgr) \<Rightarrow> [Enqueue mgr None invalid_message_id
            [Atom (forward_atom at), Addr (Some a), Addr (Some b), Mid mid, Msg m]]
        | Proxy None \<Rightarrow> [])
   | Subscription g \<Rightarrow> [Unsubscribe g (Some a)]
   | Functor f \<Rightarrow> [Run_Functor f a rsn])"

abbreviation kinds :: "world \<Rightarrow> nat \<Rightarrow> actor_kind" where
  "kinds w \<equiv> \<lambda>b. kind (actor_at w b)"

lemma log_actor_exited: "log (actor_exited at x a rsn w) = log w @ notify at (kinds w) a rsn x"
  by (cases x) (auto simp: notify_def enqueue_addr_def enqueue_to_def forward_msg_def address_def Let_def
      split: option.splits actor_kind.splits)

lemma log_fold_exited:
  "log (fold (\<lambda>x. actor_exited at x a rsn) xs w) = log w @ concat (map (notify at (kinds w) a rsn) xs)"
  by (induction xs arbitrary: w) (simp_all add: log_actor_exited)

lemma log_cleanup:
  "log (cleanup at a rsn w) = log w @ (if exited w a then []
     else concat (map (notify at (kinds w) a rsn) (attachables (actor_at w a))))"
proof -
  have "kinds (set_actor a (\<lambda>s. s\<lparr>exit_rsn := rsn, attachables := []\<rparr>) w) = kinds w" by auto
  then show ?thesis by (simp add: cleanup_def exited_def Let_def log_fold_exited)
qed

text \<open>
  The contract of an entity that can be observed until it finishes: observers are pending or
  informed, attaching to a finished entity informs at once, finishing informs all pending ones.
\<close>

locale exit_broadcast =
  fixes inv :: "'s \<Rightarrow> bool" and dead :: "'s \<Rightarrow> bool" and add :: "'o \<Rightarrow> 's \<Rightarrow> 's" and finish :: "'s \<Rightarrow> 's"
    and pend :: "'s \<Rightarrow> 'o list" and logged :: "'s \<Rightarrow> 'e list" and ev :: "'o \<Rightarrow> 'e list"
  assumes add_alive: "inv s \<Longrightarrow> \<not> dead s \<Longrightarrow> pend (add x s) = x # pend s \<and> logged (add x s) = logged s"
    and add_dead: "inv s \<Longrightarrow> dead s \<Longrightarrow> pend (add x s) = pend s \<and> logged (add x s) = logged s @ ev x"
    and add_inv: "inv s \<Longrightarrow> inv (add x s) \<and> dead (add x s) = dead s"
    and finish_alive: "inv s \<Longrightarrow> \<not> dead s \<Longrightarrow>
      pend (finish s) = [] \<and> logged (finish s) = logged s @ concat (map ev (pend s))"
    and finish_dead: "inv s \<Longrightarrow> dead s \<Longrightarrow> finish s = s"
    and finish_inv: "inv s \<Longrightarrow> inv (finish s) \<and> dead (finish s)"
begin

text \<open>A history: Some x attaches x, None finishes.\<close>

definition run :: "'o option list \<Rightarrow> 's \<Rightarrow> 's" where
  "run ops s = fold (\<lambda>op s. case op of None \<Rightarrow> finish s | Some x \<Rightarrow> add x s) ops s"

lemma run_accounts:
  "inv s \<Longrightarrow> inv (run ops s)
     \<and> mset (logged (run ops s)) + mset (concat (map ev (pend (run ops s))))
       = mset (logged s) + mset (concat (map ev (pend s))) + mset (concat (map ev (List.map_filter (\<lambda>o'. o') ops)))
     \<and> (dead (run ops s) \<longleftrightarrow> dead s \<or> None \<in> set ops)"
proof (induction ops arbitrary: s)
  case (Cons op ops)
  show ?case
  proof (cases op)
    case None
    then show ?thesis using Cons.IH [of "finish s"] Cons.prems finish_inv [of s] finish_alive [of s] finish_dead [of s]
      by (cases "dead s") (simp_all add: run_def map_filter_simps)
  next
    case (Some x)
    then show ?thesis using Cons.IH [of "add x s"] Cons.prems add_inv [of s x] add_alive [of s x] add_dead [of s x]
      by (cases "dead s") (simp_all add: run_def map_filter_simps)
  qed
qed (simp add: run_def map_filter_simps)

lemma dead_no_pending: "inv s \<Longrightarrow> (dead s \<Longrightarrow> pend s = []) \<Longrightarrow> dead (run ops s) \<Longrightarrow> pend (run ops s) = []"
proof (induction ops arbitrary: s)
  case (Cons op ops)
  show ?case
  proof (cases op)
    case None
    have "dead (finish s) \<Longrightarrow> pend (finish s) = []"
      using Cons.prems finish_alive finish_dead by (metis (no_types))
    then show ?thesis using None Cons.IH [of "finish s"] Cons.prems finish_inv by (simp add: run_def)
  next
    case (Some x)
    have "dead (add x s) \<Longrightarrow> pend (add x s) = []"
      using Cons.prems add_inv add_dead by metis
    then show ?thesis using Some Cons.IH [of "add x s"] Cons.prems add_inv by (simp add: run_def)
  qed
qed (simp add: run_def)

lemma informed_exactly_once:
  assumes "inv s" and "dead s \<Longrightarrow> pend s = []" and "None \<in> set ops"
  shows "mset (logged (run ops s)) = mset (logged s) + mset (concat (map ev (pend s)))
    + mset (concat (map ev (List.map_filter (\<lambda>o'. o') ops)))"
  using run_accounts [OF assms(1), of ops] dead_no_pending [OF assms(1,2), of ops] assms(3) by simp

end

text \<open>Actor a with exit reason rsn among actors of fixed kinds is such an entity.\<close>

definition broadcast_inv :: "nat \<Rightarrow> u32 \<Rightarrow> (nat \<Rightarrow> actor_kind) \<Rightarrow> world \<Rightarrow> bool" where
  "broadcast_inv a rsn K w \<longleftrightarrow> rsn \<noteq> not_exited \<and> kinds w = K \<and> (exited w a \<longrightarrow> exit_rsn (actor_at w a) = rsn)"

lemma kinds_attach: "kinds (attach at a (Some x) w) = kinds w"
  by (auto simp: attach_def attach_impl_def)

lemma kinds_cleanup: "kinds (cleanup at a rsn w) = kinds w"
  by (auto simp: cleanup_actor_at)

interpretation actor_exit: exit_broadcast "broadcast_inv a rsn K" "\<lambda>w. exited w a" "\<lambda>x. attach at a (Some x)"
  "cleanup at a rsn" "\<lambda>w. attachables (actor_at w a)" log "notify at K a rsn" for a rsn K at
proof
  fix w x
  assume i: "broadcast_inv a rsn K w"
  then have k: "kinds w = K" by (simp add: broadcast_inv_def)
  show "\<not> exited w a \<Longrightarrow> attachables (actor_at (attach at a (Some x) w) a) = x # attachables (actor_at w a)
      \<and> log (attach at a (Some x) w) = log w"
    by (simp add: attach_def exited_def attach_impl_def)
  show "exited w a \<Longrightarrow> attachables (actor_at (attach at a (Some x) w) a) = attachables (actor_at w a)
      \<and> log (attach at a (Some x) w) = log w @ notify at K a rsn x"
    using i k by (auto simp: attach_def exited_def broadcast_inv_def log_actor_exited)
  show "broadcast_inv a rsn K (attach at a (Some x) w) \<and> exited (attach at a (Some x) w) a = exited w a"
    using i kinds_attach [of at a x w]
    by (auto simp: broadcast_inv_def exited_def attach_def attach_impl_def)
  show "\<not> exited w a \<Longrightarrow> attachables (actor_at (cleanup at a rsn w) a) = []
      \<and> log (cleanup at a rsn w) = log w @ concat (map (notify at K a rsn) (attachables (actor_at w a)))"
    by (simp add: cleanup_actor_at log_cleanup k)
  show "exited w a \<Longrightarrow> cleanup at a rsn w = w" by (simp add: cleanup_def exited_def)
  show "broadcast_inv a rsn K (cleanup at a rsn w) \<and> exited (cleanup at a rsn w) a"
    using i kinds_cleanup [of at a rsn w] by (auto simp: broadcast_inv_def exited_def cleanup_actor_at)
qed

section \<open>Properties\<close>

definition actor_flags :: "u32 list" where
  "actor_flags = [trap_exit_flag, has_timeout_flag, is_registered_flag, is_initialized_flag,
     is_blocking_flag, is_detached_flag, is_priority_aware_flag, is_migrated_from_flag]"

lemma actor_flags_bits: "actor_flags = map (\<lambda>n. push_bit n 1) [0, 1, 2, 3, 4, 5, 6, 7]"
  by (simp add: actor_flags_def flag_defs)

text \<open>A history of actor a: attaching observers and running cleanup, in any order and number.\<close>

definition exit_history :: "proxy_atoms \<Rightarrow> nat \<Rightarrow> u32 \<Rightarrow> attachable option list \<Rightarrow> world \<Rightarrow> world" where
  "exit_history at a rsn ops w = fold (\<lambda>op w. case op of
     None \<Rightarrow> cleanup at a rsn w | Some x \<Rightarrow> attach at a (Some x) w) ops w"

text \<open>
  C11: Every attachable is notified of the exit of its actor exactly once, whether it was attached
  before or after the actor terminated and however often cleanup runs: in any history that
  contains a cleanup, the multiset of logged notifications is that of all attachables, those
  present at the beginning and those attached on the way.
\<close>

theorem observers_informed_once:
  assumes "rsn \<noteq> not_exited" and "\<not> exited w a" and "None \<in> set ops"
  shows "mset (log (exit_history at a rsn ops w)) = mset (log w)
    + mset (concat (map (notify at (kinds w) a rsn) (attachables (actor_at w a))))
    + mset (concat (map (notify at (kinds w) a rsn) (List.map_filter (\<lambda>o'. o') ops)))"
proof -
  have "broadcast_inv a rsn (kinds w) w" using assms(1,2) by (simp add: broadcast_inv_def)
  from actor_exit.informed_exactly_once [OF this _ assms(3), of at] show ?thesis
    using assms(2) by (simp add: actor_exit.run_def exit_history_def)
qed

text \<open>A small system: actors 1 and 2 are local, everything else is fresh.\<close>

definition sample_world :: world where
  "sample_world = \<lparr>actor_at = (\<lambda>a. new_actor (of_nat a)), log = [], running = 0\<rparr>"

definition sample_atoms :: proxy_atoms where
  "sample_atoms = \<lparr>forward_atom = 1, link_atom = 2, unlink_atom = 3\<rparr>"

lemma sample_not_exited: "\<not> exited sample_world a" "kinds sample_world = (\<lambda>_. Local)"
  by (simp_all add: exited_def sample_world_def new_actor_def)

theorem observers_informed_once_witness:
  "mset (log (exit_history sample_atoms 1 exit_normal
      [Some (Default_Attachable (Some 2) monitor), None, Some (Functor 7), None] sample_world))
   = {#Enqueue 2 (Some 1) (with_high_priority invalid_message_id) [Down (Some 1) exit_normal],
       Run_Functor 7 1 exit_normal#}"
proof -
  have "exit_normal \<noteq> not_exited" by (simp add: exit_reason_defs)
  from observers_informed_once [OF this sample_not_exited(1),
      of "[Some (Default_Attachable (Some 2) monitor), None, Some (Functor 7), None]" sample_atoms 1]
  show ?thesis by (simp add: map_filter_simps sample_not_exited notify_def)
    (simp add: sample_world_def new_actor_def)
qed

text \<open>
  C23: In every state reachable by linking, unlinking, attaching, detaching and terminating actors
  and proxies, links between living actors are symmetric, no actor is linked to itself or twice to
  the same actor, and terminated actors hold no attachables.
\<close>

theorem links_symmetric:
  assumes "(api_step at)\<^sup>*\<^sup>* w w'" and "\<forall>a. attachables (actor_at w a) = []"
  shows "(\<forall>a b. \<not> exited w' a \<and> \<not> exited w' b \<longrightarrow> (linked w' a b \<longleftrightarrow> linked w' b a))
    \<and> (\<forall>a. \<not> linked w' a a) \<and> (\<forall>a b. count_list (attachables (actor_at w' a)) (Default_Attachable (Some b) link) \<le> 1)
    \<and> (\<forall>a. exited w' a \<longrightarrow> attachables (actor_at w' a) = [])"
proof -
  have "wf_links w" using assms(2) by (simp add: wf_links_def link_count_def)
  then have "wf_links w'" using api_steps_wf assms(1) by blast
  then show ?thesis by (simp add: wf_links_def linked_iff_count) (simp add: link_count_def)
qed

theorem links_symmetric_witness:
  "\<exists>w'. link_to sample_atoms 1 (Some 2) sample_world = Some w' \<and> linked w' 1 2 \<and> linked w' 2 1"
proof -
  have n: "\<not> linked sample_world b a" for a b by (simp add: linked_def sample_world_def new_actor_def)
  obtain ok w1 where r: "establish_link_impl sample_atoms 1 (Some 2) sample_world = Some (ok, w1)" "ok"
    "actor_at w1 = actor_at (attach_impl 1 (link_attachable 2) (attach_impl 2 (link_attachable 1) sample_world))"
    using establish_link_result [of 1 2 sample_atoms sample_world] n sample_not_exited(1) by auto
  let ?w = "snd (forward_if sample_atoms 1 (link_atom sample_atoms) (Some 2) (ok, w1))"
  have l: "link_to sample_atoms 1 (Some 2) sample_world = Some ?w"
    using r(1) by (simp add: link_to_def link_impl_def)
  have a: "actor_at ?w = actor_at w1" by simp
  have "(api_step sample_atoms)\<^sup>*\<^sup>* sample_world ?w" using step_link [OF l] by blast
  moreover have "\<forall>a. attachables (actor_at sample_world a) = []" by (simp add: sample_world_def new_actor_def)
  ultimately have "\<not> exited ?w 1 \<and> \<not> exited ?w 2 \<longrightarrow> (linked ?w 1 2 \<longleftrightarrow> linked ?w 2 1)"
    using links_symmetric by blast
  moreover have "linked ?w 1 2" "\<not> exited ?w 1 \<and> \<not> exited ?w 2"
    using sample_not_exited(1) [of 1] sample_not_exited(1) [of 2]
    by (simp_all add: linked_def exited_def a r(3) attach_impl_def)
  ultimately show ?thesis using l by blast
qed

text \<open>
  Link_to returns on every input. It establishes both halves of the link when both actors live
  and are not yet linked; when the caller has terminated the partner is sent an exit message, and
  when the partner has terminated the caller is sent one; in these cases no link is recorded.
\<close>

lemma link_to_outcomes:
  assumes "a \<noteq> b" and "kinds w = (\<lambda>_. Local)"
  shows "\<exists>w'. link_to at a (Some b) w = Some w'
    \<and> (\<not> exited w a \<and> \<not> exited w b \<longrightarrow> linked w' b a \<and> log w' = log w)
    \<and> (\<not> exited w a \<and> \<not> exited w b \<and> \<not> linked w b a \<longrightarrow> linked w' a b)
    \<and> (exited w a \<longrightarrow> actor_at w' = actor_at w
        \<and> log w' = log w @ [Enqueue b (Some a) invalid_message_id [Exit (Some a) (exit_rsn (actor_at w a))]])
    \<and> (\<not> exited w a \<and> exited w b \<longrightarrow> actor_at w' = actor_at w
        \<and> log w' = log w @ [Enqueue a (Some b) invalid_message_id [Exit (Some b) (exit_rsn (actor_at w b))]])"
proof -
  have k: "kind (actor_at w c) = Local" for c using fun_cong [OF assms(2)] by simp
  show ?thesis
    using assms(1) k
    by (cases "exited w a"; cases "exited w b"; cases "linked w b a")
      (auto simp: link_to_def link_impl_def establish_link_impl_def establish_backlink_def establish_backlink_impl_def
        address_def forward_if_def enqueue_to_def enqueue_addr_def detach_on_link linked_def exited_def attach_impl_def)
qed

lemma link_to_outcomes_witness:
  "let w = cleanup sample_atoms 2 exit_kill sample_world in
   \<exists>w'. link_to sample_atoms 1 (Some 2) w = Some w'
     \<and> log w' = [Enqueue 1 (Some 2) invalid_message_id [Exit (Some 2) exit_kill]]"
proof -
  let ?w = "cleanup sample_atoms 2 exit_kill sample_world"
  have k: "kinds ?w = (\<lambda>_. Local)" using kinds_cleanup [of sample_atoms 2 exit_kill sample_world] sample_not_exited(2) by metis
  have e: "exited ?w 2" "\<not> exited ?w 1" "exit_rsn (actor_at ?w 2) = exit_kill" "log ?w = []"
    using sample_not_exited(1) [of 1] sample_not_exited(1) [of 2]
    by (simp_all add: exited_def cleanup_actor_at exit_reason_defs log_cleanup)
      (simp_all add: sample_world_def new_actor_def)
  show ?thesis using link_to_outcomes [of 1 2 ?w sample_atoms, OF _ k] e by (auto simp: Let_def)
qed

text \<open>
  detach_impl returns except on a dry run that does not stop at the first hit and meets a
  match, where it recurses forever. Where it returns it counts the matches it saw and removes
  exactly the first one, all of them, or none in a dry run.
\<close>

lemma detach_impl_correct:
  "(detach_impl what stop dry xs = None \<longleftrightarrow> \<not> stop \<and> dry \<and> list_ex (\<lambda>x. attachable_matches x what) xs)
   \<and> detach_impl what True dry xs = Some (if list_ex (\<lambda>x. attachable_matches x what) xs then 1 else 0,
        if dry then xs else remove_match what xs)
   \<and> detach_impl what False False xs = Some (length (filter (\<lambda>x. attachable_matches x what) xs),
        filter (\<lambda>x. \<not> attachable_matches x what) xs)"
proof -
  have "\<not> stop \<Longrightarrow> dry \<Longrightarrow> list_ex (\<lambda>x. attachable_matches x what) xs \<Longrightarrow> detach_impl what stop dry xs = None"
    using detach_impl_dry_returns [of what stop dry xs] by (cases "detach_impl what stop dry xs") (auto simp: list_ex_iff)
  moreover have "\<exists>r. detach_impl what stop dry xs = Some r"
    if "stop \<or> \<not> dry \<or> \<not> list_ex (\<lambda>x. attachable_matches x what) xs"
    using that detach_impl_dry_no_match [of xs what]
    by (cases stop; cases dry) (auto simp: detach_impl_stop detach_impl_all list_ex_iff)
  ultimately have "detach_impl what stop dry xs = None \<longleftrightarrow> \<not> stop \<and> dry \<and> list_ex (\<lambda>x. attachable_matches x what) xs"
    by (metis option.distinct(1))
  then show ?thesis by (simp add: detach_impl_stop detach_impl_all list_ex_iff)
qed

lemma flag_bits:
  "n < 8 \<Longrightarrow> get_flag (push_bit n 1) y \<longleftrightarrow> bit y n"
  "n < 8 \<Longrightarrow> k < 8 \<Longrightarrow> bit (set_flag v (push_bit n 1) x) k = (if k = n then v else bit x k)"
  by (simp add: get_flag_def bit_iff_and_push_bit_not_eq_0) (auto simp: set_flag_def bit_simps)

lemma get_set_flag:
  assumes f: "f \<in> set actor_flags" and h: "h \<in> set actor_flags"
  shows "get_flag f (set_flag v h x) = (if f = h then v else get_flag f x)"
proof -
  have b: "\<exists>n < 8. f = push_bit n 1" if f: "f \<in> set actor_flags" for f
  proof -
    from f obtain n where "n \<in> set [0, 1, 2, 3, 4, 5, 6, 7]" "f = push_bit n 1"
      unfolding actor_flags_bits set_map by (rule imageE)
    moreover have "\<forall>n \<in> set [0, 1, 2, 3, 4, 5, 6, 7 :: nat]. n < 8" by simp
    ultimately show ?thesis by blast
  qed
  obtain n k where nk: "n < 8" "f = push_bit n 1" "k < 8" "h = push_bit k 1" using b [OF f] b [OF h] by blast
  have "n = k" if "push_bit n (1 :: u32) = push_bit k 1"
    using flag_bits(1) [OF nk(1), of "push_bit k 1"] that nk by (auto simp: get_flag_def bit_simps)
  then show ?thesis using flag_bits(1) [OF nk(1)] flag_bits(2) [OF nk(3,1)] nk by auto
qed

text \<open>
  The flags of an actor are independent of each other with one exception: priority awareness
  and serializability share a bit, so that marking an actor as serializable makes it priority
  aware.
\<close>

lemma actor_flags_correct:
  "list_all (\<lambda>(f, g). get_flag f (set_flag v g x) = (if f = g then v else get_flag f x))
     (List.product actor_flags actor_flags)
   \<and> get_flag is_priority_aware_flag (set_flag v is_serializable_flag x) = v"
  using flag_bits(1) [of 6] flag_bits(2) [of 6 6]
  by (auto simp: list_all_iff get_set_flag) (simp_all add: is_priority_aware_flag_def is_serializable_flag_def)

end
