(* ===== verification/Link_Locking.thy ===== *)
theory Link_Locking
  imports Abstract_Actor
begin

text \<open>
  The mutexes taken by the link operations of abstract\_actor.cpp. establish\_link\_impl and
  remove\_link\_impl hold the mutex of their actor while the partner's backlink operation takes the
  partner's; all other operations hold one mutex at a time. Threads run the lock sequences of their
  operations in an interleaving semantics with exclusive mutexes.
\<close>

datatype lock_action = Acquire nat | Release nat

text \<open>
  The lock sequences, transcribed from the guards of establish\_link\_impl and remove\_link\_impl
  (abstract\_actor.cpp): the operations of Abstract\_Actor are atomic and do not mention the mutexes. The
  nested acquisition happens unless the operation ends early.
\<close>

definition establish_link_locks :: "world \<Rightarrow> nat \<Rightarrow> nat \<Rightarrow> lock_action list" where
  "establish_link_locks w a b =
     (if a = b then []
      else if exited w a then [Acquire a, Release a]
      else [Acquire a, Acquire b, Release b, Release a])"

definition remove_link_locks :: "world \<Rightarrow> nat \<Rightarrow> nat \<Rightarrow> lock_action list" where
  "remove_link_locks w a b =
     (if a = b then []
      else if \<not> linked w a b then [Acquire a, Release a]
      else [Acquire a, Acquire b, Release b, Release a])"

definition single_lock :: "nat \<Rightarrow> lock_action list" where
  "single_lock a = [Acquire a, Release a]"

record lock_system =
  holder :: "nat \<Rightarrow> nat option"
  threads :: "lock_action list list"

inductive lstep :: "lock_system \<Rightarrow> lock_system \<Rightarrow> bool" where
  acquire: "t < length (threads s) \<Longrightarrow> threads s ! t = Acquire m # rest \<Longrightarrow> holder s m = None \<Longrightarrow>
    lstep s \<lparr>holder = (holder s)(m := Some t), threads = (threads s)[t := rest]\<rparr>"
| release: "t < length (threads s) \<Longrightarrow> threads s ! t = Release m # rest \<Longrightarrow> holder s m = Some t \<Longrightarrow>
    lstep s \<lparr>holder = (holder s)(m := None), threads = (threads s)[t := rest]\<rparr>"

inductive_cases lstepE: "lstep s s'"

definition start :: "lock_action list list \<Rightarrow> lock_system" where
  "start ps = \<lparr>holder = (\<lambda>_. None), threads = ps\<rparr>"

definition finished :: "lock_system \<Rightarrow> bool" where
  "finished s \<longleftrightarrow> list_all (\<lambda>p. p = []) (threads s)"

definition deadlocked :: "lock_system \<Rightarrow> bool" where
  "deadlocked s \<longleftrightarrow> \<not> finished s \<and> (\<nexists>s'. lstep s s')"

section \<open>Operations with one mutex\<close>

text \<open>Programs made of sections that hold at most one mutex.\<close>

fun unnested :: "lock_action list \<Rightarrow> bool" where
  "unnested [] = True"
| "unnested (Acquire m # Release m' # r) = (m = m' \<and> unnested r)"
| "unnested _ = False"

text \<open>A thread either holds nothing or exactly the mutex it is about to release.\<close>

definition unnested_inv :: "lock_system \<Rightarrow> bool" where
  "unnested_inv s \<longleftrightarrow>
     (\<forall>t < length (threads s). unnested (threads s ! t)
        \<or> (\<exists>m r. threads s ! t = Release m # r \<and> unnested r \<and> holder s m = Some t))
     \<and> (\<forall>m t. holder s m = Some t \<longrightarrow> t < length (threads s) \<and> (\<exists>r. threads s ! t = Release m # r))"

lemma unnested_Acquire: "unnested (Acquire m # p) \<longleftrightarrow> (\<exists>r. p = Release m # r \<and> unnested r)"
  by (cases p rule: unnested.cases) (auto split: lock_action.splits elim: unnested.elims)

lemma unnested_invD:
  assumes "unnested_inv s"
  shows "t < length (threads s) \<Longrightarrow> unnested (threads s ! t)
      \<or> (\<exists>m r. threads s ! t = Release m # r \<and> unnested r \<and> holder s m = Some t)"
    and "holder s m = Some t \<Longrightarrow> t < length (threads s) \<and> (\<exists>r. threads s ! t = Release m # r)"
  using assms unfolding unnested_inv_def by blast+

lemma unnested_inv_step:
  assumes "lstep s s'" and "unnested_inv s"
  shows "unnested_inv s'"
  using assms(1)
proof (cases rule: lstep.cases)
  case (acquire t m rest)
  then obtain r where r: "rest = Release m # r" "unnested r"
    using unnested_invD(1) [OF assms(2)] unnested_Acquire [of m rest] by fastforce
  show ?thesis
    unfolding unnested_inv_def acquire(1)
  proof (intro conjI allI impI)
    fix u
    assume "u < length (threads \<lparr>holder = (holder s)(m \<mapsto> t), threads = (threads s)[t := rest]\<rparr>)"
    then have u: "u < length (threads s)" by simp
    show "unnested (threads \<lparr>holder = (holder s)(m \<mapsto> t), threads = (threads s)[t := rest]\<rparr> ! u)
      \<or> (\<exists>m' r. threads \<lparr>holder = (holder s)(m \<mapsto> t), threads = (threads s)[t := rest]\<rparr> ! u = Release m' # r
        \<and> unnested r \<and> holder \<lparr>holder = (holder s)(m \<mapsto> t), threads = (threads s)[t := rest]\<rparr> m' = Some u)"
      using unnested_invD(1) [OF assms(2) u] acquire u r by (cases "u = t") (auto, metis option.distinct(1))
  next
    fix m' u
    assume "holder \<lparr>holder = (holder s)(m \<mapsto> t), threads = (threads s)[t := rest]\<rparr> m' = Some u"
    then show "u < length (threads \<lparr>holder = (holder s)(m \<mapsto> t), threads = (threads s)[t := rest]\<rparr>)"
      and "\<exists>r. threads \<lparr>holder = (holder s)(m \<mapsto> t), threads = (threads s)[t := rest]\<rparr> ! u = Release m' # r"
      using unnested_invD(2) [OF assms(2), of m' u] acquire r by (auto simp: nth_list_update split: if_splits)
  qed
next
  case (release t m rest)
  have un: "unnested rest"
    using unnested_invD(1) [OF assms(2) release(2)] release(3) by auto
  show ?thesis
    unfolding unnested_inv_def release(1)
  proof (intro conjI allI impI)
    fix u
    assume "u < length (threads \<lparr>holder = (holder s)(m := None), threads = (threads s)[t := rest]\<rparr>)"
    then have u: "u < length (threads s)" by simp
    show "unnested (threads \<lparr>holder = (holder s)(m := None), threads = (threads s)[t := rest]\<rparr> ! u)
      \<or> (\<exists>m' r. threads \<lparr>holder = (holder s)(m := None), threads = (threads s)[t := rest]\<rparr> ! u = Release m' # r
        \<and> unnested r \<and> holder \<lparr>holder = (holder s)(m := None), threads = (threads s)[t := rest]\<rparr> m' = Some u)"
      using unnested_invD(1) [OF assms(2) u] release u un by (cases "u = t") (auto, metis option.inject)
  next
    fix m' u
    assume h: "holder \<lparr>holder = (holder s)(m := None), threads = (threads s)[t := rest]\<rparr> m' = Some u"
    then have m': "m' \<noteq> m" "holder s m' = Some u" by (auto split: if_splits)
    then have "u \<noteq> t" using unnested_invD(2) [OF assms(2) m'(2)] release by auto
    then show "u < length (threads \<lparr>holder = (holder s)(m := None), threads = (threads s)[t := rest]\<rparr>)"
      and "\<exists>r. threads \<lparr>holder = (holder s)(m := None), threads = (threads s)[t := rest]\<rparr> ! u = Release m' # r"
      using unnested_invD(2) [OF assms(2) m'(2)] by auto
  qed
qed

lemma unnested_no_deadlock:
  assumes "unnested_inv s"
  shows "\<not> deadlocked s"
proof (cases "finished s")
  case False
  then obtain t where t: "t < length (threads s)" "threads s ! t \<noteq> []"
    by (auto simp: finished_def list_all_length)
  consider (rel) u m r where "u < length (threads s)" "threads s ! u = Release m # r" "holder s m = Some u"
    | (acq) m r where "threads s ! t = Acquire m # r" "holder s m = None"
  proof (cases "threads s ! t")
    case (Cons x p)
    show ?thesis
    proof (cases x)
      case (Release m)
      then show ?thesis using rel [of t m p] t assms Cons by (auto simp: unnested_inv_def)
    next
      case (Acquire m)
      show ?thesis
      proof (cases "holder s m")
        case None
        then show ?thesis using acq [of m p] Cons Acquire by simp
      next
        case (Some u)
        then obtain r where "u < length (threads s)" "threads s ! u = Release m # r"
          using assms unfolding unnested_inv_def by metis
        then show ?thesis using rel [of u m r] Some by simp
      qed
    qed
  qed (use t in simp)
  then have "\<exists>s'. lstep s s'"
    using lstep.acquire lstep.release t(1) by cases blast+
  then show ?thesis by (simp add: deadlocked_def)
qed (simp add: deadlocked_def)

section \<open>Properties\<close>

text \<open>
  C30: Two living actors that link to each other at the same time can deadlock: establish_link_impl
  keeps the mutex of its own actor while it takes the mutex of the other one, in both directions.
  Threads whose operations hold one mutex at a time never deadlock.
\<close>

theorem crosswise_links_deadlock:
  assumes "a \<noteq> b" and "\<not> exited w a" and "\<not> exited w b" and "list_all unnested ps"
  shows "(\<exists>s. lstep\<^sup>*\<^sup>* (start [establish_link_locks w a b, establish_link_locks w b a]) s \<and> deadlocked s)
    \<and> (\<forall>s. lstep\<^sup>*\<^sup>* (start ps) s \<longrightarrow> \<not> deadlocked s)"
proof (intro conjI allI impI)
  let ?p = "\<lambda>x y. [Acquire x, Acquire y, Release y, Release x]"
  let ?s0 = "start [?p a b, ?p b a]"
  let ?s1 = "\<lparr>holder = (\<lambda>_. None)(a \<mapsto> 0), threads = [tl (?p a b), ?p b a]\<rparr>"
  let ?s2 = "\<lparr>holder = (\<lambda>_. None)(a \<mapsto> 0, b \<mapsto> 1), threads = [tl (?p a b), tl (?p b a)]\<rparr>"
  have "lstep ?s0 ?s1"
    using lstep.acquire [of 0 ?s0 a "tl (?p a b)"] by (simp add: start_def)
  moreover have "lstep ?s1 ?s2"
    using lstep.acquire [of 1 ?s1 b "tl (?p b a)"] assms(1) by simp
  ultimately have "lstep\<^sup>*\<^sup>* ?s0 ?s2" by (meson converse_rtranclp_into_rtranclp r_into_rtranclp)
  moreover have "deadlocked ?s2"
    using assms(1) by (auto simp: deadlocked_def finished_def less_Suc_eq elim!: lstepE)
  moreover have "establish_link_locks w a b = ?p a b" "establish_link_locks w b a = ?p b a"
    using assms(1-3) by (simp_all add: establish_link_locks_def)
  ultimately show "\<exists>s. lstep\<^sup>*\<^sup>* (start [establish_link_locks w a b, establish_link_locks w b a]) s \<and> deadlocked s"
    by metis
next
  fix s
  assume "lstep\<^sup>*\<^sup>* (start ps) s"
  moreover have "unnested_inv (start ps)" using assms(4) by (auto simp: unnested_inv_def start_def list_all_length)
  ultimately have "unnested_inv s" by (induction rule: rtranclp_induct) (auto dest: unnested_inv_step)
  then show "\<not> deadlocked s" by (rule unnested_no_deadlock)
qed

theorem crosswise_links_deadlock_witness:
  "(\<exists>s. lstep\<^sup>*\<^sup>* (start [establish_link_locks sample_world 1 2, establish_link_locks sample_world 2 1]) s
      \<and> deadlocked s) \<and> \<not> deadlocked (start [single_lock 1, single_lock 2])"
  using crosswise_links_deadlock [of 1 2 sample_world "[single_lock 1, single_lock 2]"] sample_not_exited(1)
  by (simp add: single_lock_def)

end
