(* ===== verification/Atom_Val.thy ===== *)
theory Atom_Val
  imports Actor_Prelude
begin

text \<open>
  Atoms: short strings packed into 64 bits at six bits per character
  (\<^verbatim>\<open>detail/atom_val.hpp\<close>, \<^verbatim>\<open>atom.hpp\<close>) and their printer
  \<^verbatim>\<open>to_string(const atom_value&)\<close> of \<^verbatim>\<open>string_serialization.cpp\<close>.  The theory
  ends with the round trip: printing an atom gives the string it was made from, with every
  character outside of the alphabet replaced by a blank.
\<close>

section \<open>Encoding\<close>

definition encoding_table :: "u8 list" where
  "encoding_table =
    [0,  0,  0,  0,  0,  0,  0,  0,  0,  0,  0,  0,  0,  0,  0,  0,
     0,  0,  0,  0,  0,  0,  0,  0,  0,  0,  0,  0,  0,  0,  0,  0,
     0,  0,  0,  0,  0,  0,  0,  0,  0,  0,  0,  0,  0,  0,  0,  0,
     1,  2,  3,  4,  5,  6,  7,  8,  9,  10, 0,  0,  0,  0,  0,  0,
     0, 11, 12, 13, 14, 15, 16, 17, 18, 19, 20, 21, 22, 23, 24, 25,
    26, 27, 28, 29, 30, 31, 32, 33, 34, 35, 36,  0,  0,  0,  0, 37,
     0, 38, 39, 40, 41, 42, 43, 44, 45, 46, 47, 48, 49, 50, 51, 52,
    53, 54, 55, 56, 57, 58, 59, 60, 61, 62, 63,  0,  0,  0,  0,  0]"

definition decoding_table :: string where
  "decoding_table = '' 0123456789ABCDEFGHIJKLMNOPQRSTUVWXYZ_abcdefghijklmnopqrstuvwxyz''"

definition next_interim :: "u64 \<Rightarrow> nat \<Rightarrow> u64" where
  "next_interim current char_code =
     push_bit 6 current OR ucast (encoding_table ! (if char_code \<le> 0x7F then char_code else 0))"

text \<open>
  The recursion over a C string stops at its terminating NUL, which the model's lists either
  contain or end with.  The cast of a \<^verbatim>\<open>char\<close> to \<^verbatim>\<open>size_t\<close> exceeds 0x7F for every
  non-ASCII character, whether \<^verbatim>\<open>char\<close> is signed or not.
\<close>

fun atom_val :: "string \<Rightarrow> u64 \<Rightarrow> u64" where
  "atom_val [] interim = interim"
| "atom_val (c # cs) interim =
     (if c = CHR 0x00 then interim else atom_val cs (next_interim interim (of_char c)))"

text \<open>\<^verbatim>\<open>atom()\<close> has a \<^verbatim>\<open>static_assert\<close> on the size, so longer literals do not compile.\<close>

definition atom :: "string \<Rightarrow> u64 option" where
  "atom str = (if length str + 1 \<le> 11 then Some (atom_val str 0xF) else None)"

section \<open>Printing\<close>

function to_string_loop :: "u64 \<Rightarrow> bool \<Rightarrow> u64 \<Rightarrow> int \<Rightarrow> string" where
  "to_string_loop x read_chars msk bitshift =
     (if bitshift \<ge> 0
      then let v = drop_bit (nat bitshift) (x AND msk) in
        (if read_chars
         then decoding_table ! unat v # to_string_loop x True (drop_bit 6 msk) (bitshift - 6)
         else to_string_loop x (v = 0xF) (drop_bit 6 msk) (bitshift - 6))
      else [])"
  by pat_completeness auto
termination
  by (relation "measure (\<lambda>(x, r, m, b). nat (b + 6))") auto

declare to_string_loop.simps [simp del]

definition atom_to_string :: "u64 \<Rightarrow> string" where
  "atom_to_string what =
     (let read_chars = (drop_bit 60 (what AND 0xF000000000000000) = 0xF)
      in to_string_loop what read_chars 0x0FC0000000000000 54)"

section \<open>The abstract encoding\<close>

text \<open>
  The code point of a character is its position in \<^const>\<open>decoding_table\<close>, or 0; a string is
  a number in base 64 behind the marker digit 15.
\<close>

definition char_code :: "char \<Rightarrow> nat" where
  "char_code c = unat (encoding_table ! (if of_char c \<le> (0x7F :: nat) then of_char c else 0))"

definition in_alphabet :: "char \<Rightarrow> bool" where
  "in_alphabet c \<longleftrightarrow> (let n = (of_char c :: nat) in
     (48 \<le> n \<and> n \<le> 57) \<or> (65 \<le> n \<and> n \<le> 90) \<or> n = 95 \<or> (97 \<le> n \<and> n \<le> 122))"

definition normalize_char :: "char \<Rightarrow> char" where
  "normalize_char c = (if in_alphabet c then c else CHR '' '')"

fun base64 :: "nat \<Rightarrow> string \<Rightarrow> nat" where
  "base64 i [] = i"
| "base64 i (c # cs) = base64 (i * 64 + char_code c) cs"

lemma length_encoding_table [simp]: "length encoding_table = 128"
  by (simp add: encoding_table_def)

lemma encoding_table_bound: "i < 128 \<Longrightarrow> unat (encoding_table ! i) < 64"
proof -
  assume "i < 128"
  then have "encoding_table ! i \<in> set encoding_table" by simp
  moreover have "\<forall>w \<in> set encoding_table. unat w < 64"
    unfolding encoding_table_def by simp
  ultimately show ?thesis by blast
qed

lemma char_code_bound: "char_code c < 64"
  by (auto simp: char_code_def intro: encoding_table_bound)

text \<open>Both tables agree: decoding a code gives the character back, blanks for the rest.\<close>

lemma decode_table_all:
  "map (\<lambda>e. decoding_table ! unat e) encoding_table =
   map (\<lambda>n. normalize_char (char_of n)) [0..<128]"
  unfolding normalize_char_def in_alphabet_def Let_def
  by (simp add: encoding_table_def decoding_table_def upt_rec_numeral
      upt_rec [of 0] upt_rec [of "Suc 0"] numeral_2_eq_2 [symmetric])
    (simp add: char_of_def bit_0)

lemma decode_char_code: "decoding_table ! char_code c = normalize_char c"
proof (cases "of_char c < (128 :: nat)")
  case True
  from arg_cong [OF decode_table_all, of "\<lambda>xs. xs ! of_char c"] True
  show ?thesis by (simp add: char_code_def less_Suc_eq_le [symmetric])
next
  case False
  then show ?thesis
    by (simp add: char_code_def normalize_char_def in_alphabet_def encoding_table_def
        decoding_table_def)
qed

lemma base64_split: "base64 i cs = i * 64 ^ length cs + base64 0 cs"
proof (induction cs arbitrary: i)
  case (Cons c cs)
  show ?case
    using Cons.IH [of "i * 64 + char_code c"] Cons.IH [of "char_code c"]
    by (simp add: algebra_simps)
qed simp

lemma base64_0_bound: "base64 0 cs < 64 ^ length cs"
proof (induction cs)
  case (Cons c cs)
  have "base64 0 (c # cs) = char_code c * 64 ^ length cs + base64 0 cs"
    using base64_split [of "char_code c" cs] by simp
  also have "\<dots> < Suc (char_code c) * 64 ^ length cs"
    using Cons.IH by simp
  also have "\<dots> \<le> 64 * 64 ^ length cs"
    using char_code_bound [of c] by (intro mult_le_mono1) simp
  finally show ?case by simp
qed simp

lemma base64_div: "base64 i cs div 64 ^ length cs = i"
  by (subst base64_split) (simp add: base64_0_bound)

lemma base64_digits:
  "map (\<lambda>j. base64 i cs div 64 ^ j mod 64) (rev [0..<length cs]) = map char_code cs"
proof (induction cs arbitrary: i)
  case (Cons c cs)
  have "base64 (i * 64 + char_code c) cs div 64 ^ length cs mod 64 = char_code c"
    using char_code_bound [of c] by (simp add: base64_div)
  then show ?case using Cons.IH by simp
qed simp

section \<open>The encoder computes the abstract encoding\<close>

lemma unat_next_interim:
  assumes "unat i * 64 < 2 ^ 64"
  shows "unat (next_interim i (of_char c)) = unat i * 64 + char_code c"
proof -
  let ?e = "encoding_table ! (if of_char c \<le> (0x7F :: nat) then of_char c else 0)"
  have b: "unat ?e < 64" using char_code_bound [of c] by (simp add: char_code_def)
  have "unat (ucast ?e :: u64) = unat ?e" by (rule unat_ucast_up) simp
  then show ?thesis
    using assms b unat_push_or [of i 6 "ucast ?e"]
    by (simp add: next_interim_def char_code_def)
qed

lemma unat_atom_val:
  assumes "Suc (unat i) * 64 ^ length cs \<le> 2 ^ 64" and "CHR 0x00 \<notin> set cs"
  shows "unat (atom_val cs i) = base64 (unat i) cs"
  using assms
proof (induction cs arbitrary: i)
  case (Cons c cs)
  have "Suc (unat i) * 64 * 1 \<le> Suc (unat i) * 64 * 64 ^ length cs"
    by (intro mult_le_mono2) simp
  also have "\<dots> \<le> 2 ^ 64" using Cons.prems(1) by (simp add: algebra_simps)
  finally have "unat i * 64 < 2 ^ 64" by simp
  then have n: "unat (next_interim i (of_char c)) = unat i * 64 + char_code c"
    by (rule unat_next_interim)
  have "Suc (unat i * 64 + char_code c) * 64 ^ length cs \<le> Suc (unat i) * 64 * 64 ^ length cs"
    using char_code_bound [of c] by (intro mult_le_mono1) simp
  also have "\<dots> \<le> 2 ^ 64" using Cons.prems(1) by (simp add: algebra_simps)
  finally have "Suc (unat i * 64 + char_code c) * 64 ^ length cs \<le> 2 ^ 64" .
  with Cons n show ?case by auto
qed simp

section \<open>The printer reads the digits\<close>

lemma loop_mask:
  "k < 10 \<Longrightarrow> drop_bit (54 - 6 * k) (0x0FC0000000000000 :: u64) = push_bit (6 * k) (mask 6)"
proof -
  assume "k < 10"
  then have "k = 0 \<or> k = 1 \<or> k = 2 \<or> k = 3 \<or> k = 4 \<or> k = 5 \<or> k = 6 \<or> k = 7 \<or> k = 8 \<or> k = 9"
    by arith
  then show ?thesis by (elim disjE) (simp_all add: mask_eq_exp_minus_1)
qed

lemma loop_digit:
  assumes "k < 10"
  shows "unat (drop_bit (6 * k) (x AND drop_bit (54 - 6 * k) (0x0FC0000000000000 :: u64)))
    = unat x div 64 ^ k mod 64"
proof -
  have "(2 :: nat) ^ (6 * k) = 64 ^ k" by (simp add: power_mult)
  with assms show ?thesis
    by (simp add: loop_mask drop_bit_and_push_mask unat_drop_bit_and_mask del: drop_bit_and)
qed

lemma loop_unfold:
  assumes "k < 10"
  shows "to_string_loop x r (drop_bit (54 - 6 * k) 0x0FC0000000000000) (6 * int k) =
    (let v = unat x div 64 ^ k mod 64;
         m = drop_bit (60 - 6 * k) 0x0FC0000000000000
     in if r then decoding_table ! v # to_string_loop x True m (6 * int k - 6)
        else to_string_loop x (v = 15) m (6 * int k - 6))"
proof -
  have e: "(w = 0xF) = (unat w = 15)" for w :: u64
    by (simp add: word_unat_eq_iff)
  have m: "drop_bit 6 (drop_bit (54 - 6 * k) (0x0FC0000000000000 :: u64)) =
      drop_bit (60 - 6 * k) 0x0FC0000000000000"
    using assms by (simp add: drop_bit_drop_bit)
  have n: "nat (6 * int k) = 6 * k" by simp
  show ?thesis
    by (subst to_string_loop.simps) (simp add: Let_def e m n loop_digit [OF assms] del: drop_bit_drop_bit drop_bit_and)
qed

lemma loop_end: "to_string_loop x r m (- 6) = []"
  by (subst to_string_loop.simps) simp

text \<open>Once the marker was seen, the remaining digits are decoded one by one.\<close>

lemma loop_reading:
  "k \<le> 10 \<Longrightarrow> to_string_loop x True (drop_bit (60 - 6 * k) 0x0FC0000000000000) (6 * int k - 6) =
     map (\<lambda>j. decoding_table ! (unat x div 64 ^ j mod 64)) (rev [0..<k])"
proof (induction k)
  case (Suc k)
  then show ?case using loop_unfold [of k x True] by (simp add: Let_def)
qed (simp add: loop_end)

text \<open>Before the marker, leading zero digits are skipped.\<close>

lemma loop_searching:
  assumes "n < k" and "k \<le> 10" and "unat x = 15 * 64 ^ n + r" and "r < 64 ^ n"
  shows "to_string_loop x False (drop_bit (60 - 6 * k) 0x0FC0000000000000) (6 * int k - 6) =
     map (\<lambda>j. decoding_table ! (unat x div 64 ^ j mod 64)) (rev [0..<n])"
  using assms(1,2)
proof (induction k)
  case (Suc k)
  have unf: "to_string_loop x False (drop_bit (54 - 6 * k) 0x0FC0000000000000) (6 * int k) =
      to_string_loop x (unat x div 64 ^ k mod 64 = 15)
        (drop_bit (60 - 6 * k) 0x0FC0000000000000) (6 * int k - 6)"
    using loop_unfold [of k x False] Suc.prems by (simp add: Let_def)
  show ?case
  proof (cases "n = k")
    case True
    then have "unat x div 64 ^ k mod 64 = 15" using assms(3,4) by simp
    with unf loop_reading [of k x] Suc.prems True show ?thesis by simp
  next
    case False
    with Suc.prems have "n < k" by simp
    then have "64 * (64 :: nat) ^ n \<le> 64 ^ k"
      by (metis Suc_leI power_Suc power_increasing one_le_numeral)
    then have "unat x < 64 ^ k" using assms(3,4) by linarith
    with unf Suc \<open>n < k\<close> show ?thesis by simp
  qed
qed simp

lemma atom_to_string_all:
  assumes "atom s = Some x" and "CHR 0x00 \<notin> set s"
  shows "atom_to_string x = map normalize_char s"
proof -
  from assms(1) have len: "length s \<le> 10" and x: "x = atom_val s 0xF"
    by (auto simp: atom_def split: if_splits)
  have "16 * 64 ^ length s \<le> (16 * 64 ^ 10 :: nat)"
    using len by (intro mult_le_mono2 power_increasing) auto
  then have ux: "unat x = base64 15 s"
    using unat_atom_val [of 15 s] assms(2) x by simp
  have digits: "map (\<lambda>j. decoding_table ! (unat x div 64 ^ j mod 64)) (rev [0..<length s])
      = map normalize_char s"
    using arg_cong [OF base64_digits [of 15 s], of "map ((!) decoding_table)"]
    by (simp add: ux comp_def decode_char_code)
  have top: "(drop_bit 60 (x AND 0xF000000000000000) = 0xF) = (unat x div 2 ^ 60 mod 16 = 15)"
  proof -
    have "unat (drop_bit 60 (x AND push_bit 60 (mask 4))) = unat x div 2 ^ 60 mod 2 ^ 4"
      by (simp add: drop_bit_and_push_mask unat_drop_bit_and_mask del: drop_bit_and)
    moreover have "push_bit 60 (mask 4) = (0xF000000000000000 :: u64)"
      by (simp add: mask_eq_exp_minus_1)
    ultimately show ?thesis by (simp add: word_unat_eq_iff)
  qed
  have split: "unat x = 15 * 64 ^ length s + base64 0 s" "base64 0 s < 64 ^ length s"
    using base64_split [of 15 s] base64_0_bound [of s] by (simp_all add: ux)
  show ?thesis
  proof (cases "length s = 10")
    case True
    then have "unat x div 2 ^ 60 mod 16 = 15" using base64_div [of 15 s] by (simp add: ux)
    with top loop_reading [of 10 x] digits True show ?thesis
      by (simp add: atom_to_string_def Let_def)
  next
    case False
    with len have "length s < 10" by simp
    then have "(64 :: nat) ^ length s \<le> 64 ^ 9" by (intro power_increasing) auto
    with split have "unat x div 2 ^ 60 mod 16 \<noteq> 15" by (simp add: div_less)
    with top loop_searching [of "length s" 10 x "base64 0 s"] \<open>length s < 10\<close> split digits
    show ?thesis by (simp add: atom_to_string_def Let_def)
  qed
qed

section \<open>Properties\<close>

text \<open>
  C32: printing an atom made from a string of at most ten characters gives the string back,
  with each character outside of \<^verbatim>\<open>[0-9A-Za-z_]\<close> turned into a blank.
\<close>

theorem atom_to_string_atom:
  assumes "atom s = Some x" and "CHR 0x00 \<notin> set s"
  shows "atom_to_string x = map normalize_char s"
  using assms by (rule atom_to_string_all)

theorem atom_to_string_atom_witness:
  "atom ''UNSUBSCRIB'' = Some (atom_val ''UNSUBSCRIB'' 0xF) \<and>
   atom_to_string (atom_val ''UNSUBSCRIB'' 0xF) = ''UNSUBSCRIB'' \<and>
   atom_to_string (atom_val ''a-b'' 0xF) = ''a b''"
proof -
  have h: "atom ''UNSUBSCRIB'' = Some (atom_val ''UNSUBSCRIB'' 0xF)"
    "atom ''a-b'' = Some (atom_val ''a-b'' 0xF)"
    by (simp_all add: atom_def)
  show ?thesis
    using h atom_to_string_atom [OF h(1)] atom_to_string_atom [OF h(2)]
    by (simp add: normalize_char_def in_alphabet_def)
qed

text \<open>
  Two literals over the alphabet make the same atom only if they are the same string, so
  comparing atoms compares the strings.
\<close>

lemma atom_injective:
  assumes "atom s = Some x" and "atom t = Some x"
    and "list_all in_alphabet s" and "list_all in_alphabet t"
  shows "s = t"
proof -
  have norm: "map normalize_char u = u" if "list_all in_alphabet u" for u
    using that by (induction u) (auto simp: normalize_char_def)
  have nul: "CHR 0x00 \<notin> set u" if "list_all in_alphabet u" for u
    using that by (induction u) (auto simp: in_alphabet_def)
  have "map normalize_char s = map normalize_char t"
    using atom_to_string_all [OF assms(1) nul [OF assms(3)]] 
      atom_to_string_all [OF assms(2) nul [OF assms(4)]] by simp
  with norm assms(3,4) show ?thesis by metis
qed

lemma atom_injective_witness:
  "atom ''GET'' \<noteq> atom ''PUT''"
proof
  assume "atom ''GET'' = atom ''PUT''"
  moreover have "atom ''GET'' = Some (atom_val ''GET'' 0xF)" by (simp add: atom_def)
  ultimately have "''GET'' = ''PUT''"
    by (intro atom_injective [of _ "atom_val ''GET'' 0xF"]) (simp_all add: in_alphabet_def)
  then show False by simp
qed

end
