(* ===== verification/Atoms.thy ===== *)
theory Atoms
  imports Atom_Val Abstract_Actor
begin

text \<open>
  The predefined atoms (atom.hpp) that messages of the runtime system carry, and the atoms proxies
  use. Their values come from the atom encoding; different names have different values.
\<close>

definition get_atom :: u64 where "get_atom = atom_val ''GET'' 0xF"

definition put_atom :: u64 where "put_atom = atom_val ''PUT'' 0xF"

definition update_atom :: u64 where "update_atom = atom_val ''UPDATE'' 0xF"

definition delete_atom :: u64 where "delete_atom = atom_val ''DELETE'' 0xF"

definition ok_atom :: u64 where "ok_atom = atom_val ''OK'' 0xF"

definition error_atom :: u64 where "error_atom = atom_val ''ERROR'' 0xF"

definition sys_atom :: u64 where "sys_atom = atom_val ''SYS'' 0xF"

definition join_atom :: u64 where "join_atom = atom_val ''JOIN'' 0xF"

definition leave_atom :: u64 where "leave_atom = atom_val ''LEAVE'' 0xF"

definition fwd_atom :: u64 where "fwd_atom = atom_val ''FORWARD'' 0xF"

definition lnk_atom :: u64 where "lnk_atom = atom_val ''LINK'' 0xF"

definition unlnk_atom :: u64 where "unlnk_atom = atom_val ''UNLINK'' 0xF"

definition publish_atom :: u64 where "publish_atom = atom_val ''PUBLISH'' 0xF"

definition unpublish_atom :: u64 where "unpublish_atom = atom_val ''UNPUBLISH'' 0xF"

definition subscribe_atom :: u64 where "subscribe_atom = atom_val ''SUBSCRIBE'' 0xF"

definition unsubscribe_atom :: u64 where "unsubscribe_atom = atom_val ''UNSUBSCRIB'' 0xF"

definition connect_atom :: u64 where "connect_atom = atom_val ''CONNECT'' 0xF"

definition spawn_atom :: u64 where "spawn_atom = atom_val ''SPAWN'' 0xF"

definition migrate_atom :: u64 where "migrate_atom = atom_val ''MIGRATE'' 0xF"

definition std_atoms :: proxy_atoms where
  "std_atoms = \<lparr>forward_atom = fwd_atom, link_atom = lnk_atom, unlink_atom = unlnk_atom\<rparr>"

lemma atom_val_eq_iff:
  assumes "length s \<le> 10" and "length t \<le> 10" and "list_all in_alphabet s" and "list_all in_alphabet t"
  shows "atom_val s 0xF = atom_val t 0xF \<longleftrightarrow> s = t"
proof
  assume eq: "atom_val s 0xF = atom_val t 0xF"
  have z: "list_all in_alphabet u \<Longrightarrow> CHR 0x00 \<notin> set u \<and> map normalize_char u = u" for u
    by (induction u) (auto simp: normalize_char_def in_alphabet_def)
  have "atom s = Some (atom_val s 0xF)" "atom t = Some (atom_val s 0xF)"
    using assms(1,2) eq by (simp_all add: atom_def)
  then have "atom_to_string (atom_val s 0xF) = s" "atom_to_string (atom_val s 0xF) = t"
    using atom_to_string_all z assms(3,4) by metis+
  then show "s = t" by simp
qed simp

end
