(* ===== verification/Partitioned_List.thy ===== *)
theory Partitioned_List
  imports Actor_Prelude
begin

text \<open>
  The mailbox cache \<^verbatim>\<open>intrusive_partitioned_list\<close>: a doubly linked list threaded through its
  elements, cut into two partitions by a separator node.  The operations are modelled on an
  explicit heap of \<^verbatim>\<open>next\<close> and \<^verbatim>\<open>prev\<close> pointers; a dereference of the null pointer is the
  result \<^const>\<open>None\<close>.  The refinement lemmas show that on a well-formed heap no operation
  dereferences null and that each one performs the expected change on the pair of element lists.
\<close>

section \<open>Heap\<close>

type_synonym addr = nat

record heap =
  nxt :: "addr \<rightharpoonup> addr"
  prv :: "addr \<rightharpoonup> addr"
  disposed :: "addr list"

record plist =
  plhead :: addr
  plseparator :: addr
  pltail :: addr

text \<open>\<^verbatim>\<open>delete_(ptr)\<close> disposes an element; the model keeps the sequence of disposed elements.\<close>

definition dispose :: "heap \<Rightarrow> addr \<Rightarrow> heap" where
  "dispose h a = h\<lparr>disposed := disposed h @ [a]\<rparr>"

section \<open>Operations\<close>

definition init_plist :: "plist \<Rightarrow> heap \<Rightarrow> heap" where
  "init_plist l h =
     h\<lparr>nxt := (nxt h)(plhead l \<mapsto> plseparator l, plseparator l \<mapsto> pltail l),
       prv := (prv h)(plseparator l \<mapsto> plhead l, pltail l \<mapsto> plseparator l)\<rparr>"

definition first_begin :: "plist \<Rightarrow> heap \<Rightarrow> addr option" where
  "first_begin l h = nxt h (plhead l)"

definition first_end :: "plist \<Rightarrow> addr" where
  "first_end l = plseparator l"

definition second_begin :: "plist \<Rightarrow> heap \<Rightarrow> addr option" where
  "second_begin l h = nxt h (plseparator l)"

definition second_end :: "plist \<Rightarrow> addr" where
  "second_end l = pltail l"

definition insert_elem :: "heap \<Rightarrow> addr option \<Rightarrow> addr \<Rightarrow> (heap \<times> addr) option" where
  "insert_elem h pos val =
     (case pos of None \<Rightarrow> None | Some next \<Rightarrow>
        (let prev = prv h next;
             h1 = h\<lparr>prv := (prv h)(val := prev), nxt := (nxt h)(val \<mapsto> next)\<rparr>
         in case prev of None \<Rightarrow> None | Some p \<Rightarrow>
              Some (h1\<lparr>nxt := (nxt h1)(p \<mapsto> val), prv := (prv h1)(next \<mapsto> val)\<rparr>, val)))"

definition first_empty :: "plist \<Rightarrow> heap \<Rightarrow> bool" where
  "first_empty l h \<longleftrightarrow> first_begin l h = Some (first_end l)"

definition second_empty :: "plist \<Rightarrow> heap \<Rightarrow> bool" where
  "second_empty l h \<longleftrightarrow> second_begin l h = Some (second_end l)"

definition empty_plist :: "plist \<Rightarrow> heap \<Rightarrow> bool" where
  "empty_plist l h \<longleftrightarrow> first_empty l h \<and> second_empty l h"

definition take_elem :: "heap \<Rightarrow> addr option \<Rightarrow> (heap \<times> addr) option" where
  "take_elem h pos =
     (case pos of None \<Rightarrow> None | Some res \<Rightarrow>
        (case (nxt h res, prv h res) of
           (Some next, Some prev) \<Rightarrow>
             Some (h\<lparr>nxt := (nxt h)(prev \<mapsto> next), prv := (prv h)(next \<mapsto> prev)\<rparr>, res)
         | _ \<Rightarrow> None))"

definition erase_elem :: "heap \<Rightarrow> addr option \<Rightarrow> (heap \<times> addr option) option" where
  "erase_elem h pos =
     (case pos of None \<Rightarrow> None | Some p \<Rightarrow>
        (let next = nxt h p in
         case take_elem h pos of None \<Rightarrow> None
         | Some (h', res) \<Rightarrow> Some (dispose h' res, next)))"

definition take_first_front :: "plist \<Rightarrow> heap \<Rightarrow> (heap \<times> addr) option" where
  "take_first_front l h = take_elem h (first_begin l h)"

definition take_second_front :: "plist \<Rightarrow> heap \<Rightarrow> (heap \<times> addr) option" where
  "take_second_front l h = take_elem h (second_begin l h)"

definition push_first_back :: "plist \<Rightarrow> heap \<Rightarrow> addr \<Rightarrow> heap option" where
  "push_first_back l h val = map_option fst (insert_elem h (Some (first_end l)) val)"

definition push_second_back :: "plist \<Rightarrow> heap \<Rightarrow> addr \<Rightarrow> heap option" where
  "push_second_back l h val = map_option fst (insert_elem h (Some (second_end l)) val)"

definition pop_first_front :: "plist \<Rightarrow> heap \<Rightarrow> heap option" where
  "pop_first_front l h = map_option fst (erase_elem h (first_begin l h))"

definition pop_second_front :: "plist \<Rightarrow> heap \<Rightarrow> heap option" where
  "pop_second_front l h = map_option fst (erase_elem h (second_begin l h))"

text \<open>
  \<^verbatim>\<open>clear\<close> empties one partition after the other, calling \<^verbatim>\<open>f\<close> on the front element before it is
  erased.  The user callback \<open>f\<close> acts on a state of its own; not returning is \<^const>\<open>None\<close>.
\<close>

partial_function (option) clear_partition ::
  "(plist \<Rightarrow> heap \<Rightarrow> addr option) \<Rightarrow> (plist \<Rightarrow> addr) \<Rightarrow> plist \<Rightarrow> (addr \<Rightarrow> 's \<Rightarrow> 's) \<Rightarrow>
     heap \<Rightarrow> 's \<Rightarrow> (heap \<times> 's) option"
where
  "clear_partition pbegin pend l f h s =
     (case pbegin l h of
        None \<Rightarrow> None
      | Some a \<Rightarrow>
          if a = pend l then Some (h, s)
          else (case erase_elem h (Some a) of None \<Rightarrow> None
                | Some (h', _) \<Rightarrow> clear_partition pbegin pend l f h' (f a s)))"

definition clear_plist :: "plist \<Rightarrow> (addr \<Rightarrow> 's \<Rightarrow> 's) \<Rightarrow> heap \<Rightarrow> 's \<Rightarrow> (heap \<times> 's) option" where
  "clear_plist l f h s =
     (case clear_partition first_begin first_end l f h s of None \<Rightarrow> None
      | Some (h', s') \<Rightarrow> clear_partition second_begin second_end l f h' s')"

text \<open>Counting walks from one iterator to the other, at most \<open>max_count\<close> steps.\<close>

fun count_range :: "heap \<Rightarrow> addr option \<Rightarrow> addr \<Rightarrow> nat \<Rightarrow> nat option" where
  "count_range h first lst 0 = Some 0"
| "count_range h first lst (Suc m) =
     (if first = Some lst then Some 0
      else case first of None \<Rightarrow> None
           | Some a \<Rightarrow> map_option Suc (count_range h (nxt h a) lst m))"

definition count_plist :: "plist \<Rightarrow> heap \<Rightarrow> nat \<Rightarrow> nat option" where
  "count_plist l h max_count =
     (case count_range h (first_begin l h) (first_end l) max_count of None \<Rightarrow> None
      | Some r1 \<Rightarrow>
          map_option (\<lambda>r2. r1 + r2)
            (count_range h (second_begin l h) (second_end l) (max_count - r1)))"

text \<open>
  \<^verbatim>\<open>invoke\<close> offers the elements of a range to the actor.  The callback stands for
  \<^verbatim>\<open>self->invoke_message(tmp, bhvr, mid)\<close>: it runs with the offered element taken out of the list and
  may change the list, in particular call \<^verbatim>\<open>invoke\<close> again; besides its verdict it says whether the
  owning pointer \<^verbatim>\<open>tmp\<close> still holds the element afterwards. The saved pointers to the neighbors
  are used after the callback has returned.
\<close>

datatype invoke_message_result = im_success | im_skipped | im_dropped

partial_function (option) invoke_loop ::
  "(addr \<Rightarrow> heap \<Rightarrow> 's \<Rightarrow> (invoke_message_result \<times> bool \<times> heap \<times> 's) option) \<Rightarrow> addr \<Rightarrow> addr option \<Rightarrow>
     addr option \<Rightarrow> addr option \<Rightarrow> heap \<Rightarrow> 's \<Rightarrow> (bool \<times> heap \<times> 's) option"
where
  "invoke_loop f lst first prev next h s =
     (case first of None \<Rightarrow> None | Some a \<Rightarrow>
      if a = lst then Some (False, h, s)
      else (case (prev, next) of
        (Some p, Some n) \<Rightarrow>
          (case f a (h\<lparr>nxt := (nxt h)(p \<mapsto> n), prv := (prv h)(n \<mapsto> p)\<rparr>) s of
             None \<Rightarrow> None
           | Some (res, held, h1, s1) \<Rightarrow>
          (let h2 = (if held then dispose h1 a else h1)
           in case res of
                im_success \<Rightarrow> Some (True, h2, s1)
              | im_dropped \<Rightarrow> invoke_loop f lst (Some n) (Some p) (nxt h2 n) h2 s1
              | im_skipped \<Rightarrow>
                  if held
                  then (let h3 = h1\<lparr>nxt := (nxt h1)(p \<mapsto> a), prv := (prv h1)(n \<mapsto> a)\<rparr>
                        in invoke_loop f lst (Some n) (Some a) (nxt h3 n) h3 s1)
                  else invoke_loop f lst (Some n) (Some p) (nxt h1 n) h1 s1))
      | _ \<Rightarrow> None))"

definition invoke_plist ::
  "(addr \<Rightarrow> heap \<Rightarrow> 's \<Rightarrow> (invoke_message_result \<times> bool \<times> heap \<times> 's) option) \<Rightarrow> addr option \<Rightarrow> addr \<Rightarrow>
     heap \<Rightarrow> 's \<Rightarrow> (bool \<times> heap \<times> 's) option" where
  "invoke_plist f first lst h s =
     (case first of None \<Rightarrow> None
      | Some a \<Rightarrow> invoke_loop f lst first (prv h a) (nxt h a) h s)"


section \<open>Doubly linked segments\<close>

fun linked :: "heap \<Rightarrow> addr list \<Rightarrow> bool" where
  "linked h [] = True"
| "linked h [a] = True"
| "linked h (a # b # zs) = (nxt h a = Some b \<and> prv h b = Some a \<and> linked h (b # zs))"

lemma linked_append:
  "linked h (us @ a # vs) \<longleftrightarrow> linked h (us @ [a]) \<and> linked h (a # vs)"
proof (induction us)
  case (Cons u us)
  then show ?case by (cases us) auto
qed simp

lemma linked_cong:
  assumes "linked h zs"
    and "\<And>a. a \<in> set (butlast zs) \<Longrightarrow> nxt h' a = nxt h a"
    and "\<And>a. a \<in> set (tl zs) \<Longrightarrow> prv h' a = prv h a"
  shows "linked h' zs"
  using assms
proof (induction h zs rule: linked.induct)
  case (3 h a b zs)
  have "linked h' (b # zs)"
    using 3 by (intro "3.IH") (auto split: if_splits dest: list.set_sel(2))
  with 3 show ?case by auto
qed auto

lemma linked_left:
  "linked h (us @ [p]) \<Longrightarrow> \<forall>a \<in> set us. nxt h' a = nxt h a \<Longrightarrow>
     \<forall>a \<in> insert p (set us). prv h' a = prv h a \<Longrightarrow> linked h' (us @ [p])"
  by (erule linked_cong) (cases us, auto)+

lemma linked_right:
  "linked h (n # vs) \<Longrightarrow> \<forall>a \<in> insert n (set vs). nxt h' a = nxt h a \<Longrightarrow>
     \<forall>a \<in> set vs. prv h' a = prv h a \<Longrightarrow> linked h' (n # vs)"
  by (erule linked_cong) (auto dest: in_set_butlastD split: if_splits)

lemma linked_dispose [simp]: "linked (dispose h a) zs = linked h zs"
  by (induction h zs rule: linked.induct) (auto simp: dispose_def)

lemma dispose_fields [simp]:
  "nxt (dispose h a) = nxt h" "prv (dispose h a) = prv h"
  "disposed (dispose h a) = disposed h @ [a]"
  by (simp_all add: dispose_def)

text \<open>
  The heap implements the pair of lists \<open>(xs, ys)\<close>: the sentinels and the elements form one
  doubly linked chain without repetition.
\<close>

definition chain :: "plist \<Rightarrow> addr list \<Rightarrow> addr list \<Rightarrow> addr list" where
  "chain l xs ys = plhead l # xs @ plseparator l # ys @ [pltail l]"

definition implements :: "plist \<Rightarrow> heap \<Rightarrow> addr list \<Rightarrow> addr list \<Rightarrow> bool" where
  "implements l h xs ys \<longleftrightarrow> linked h (chain l xs ys) \<and> distinct (chain l xs ys)"

text \<open>The two pointer surgeries, on an arbitrary segment.\<close>

lemma linked_insert:
  assumes "linked h (us @ p # n # vs)" and "distinct (us @ p # n # vs)"
    and "v \<notin> set (us @ p # n # vs)"
  shows "\<exists>h'. insert_elem h (Some n) v = Some (h', v) \<and> linked h' (us @ p # v # n # vs)
    \<and> disposed h' = disposed h"
proof -
  from assms(1) have pn: "prv h n = Some p" and l1: "linked h (us @ [p])" and l2: "linked h (n # vs)"
    by (simp_all add: linked_append [of h us p "n # vs"])
  define h' where "h' = h\<lparr>nxt := (nxt h)(v \<mapsto> n, p \<mapsto> v), prv := (prv h)(v \<mapsto> p, n \<mapsto> v)\<rparr>"
  have "insert_elem h (Some n) v = Some (h', v)"
    using pn by (simp add: insert_elem_def h'_def Let_def)
  moreover have "linked h' (us @ [p])"
    by (rule linked_left [OF l1]) (use assms(2,3) in \<open>auto simp: h'_def\<close>)
  moreover have "linked h' (n # vs)"
    by (rule linked_right [OF l2]) (use assms(2,3) in \<open>auto simp: h'_def\<close>)
  moreover have "nxt h' p = Some v" "prv h' v = Some p" "nxt h' v = Some n" "prv h' n = Some v"
    "disposed h' = disposed h"
    using assms(2,3) by (auto simp: h'_def)
  ultimately show ?thesis by (simp add: linked_append [of h' us p "v # n # vs"])
qed

lemma linked_take:
  assumes "linked h (us @ p # a # n # vs)" and "distinct (us @ p # a # n # vs)"
  shows "linked (h\<lparr>nxt := (nxt h)(p \<mapsto> n), prv := (prv h)(n \<mapsto> p)\<rparr>) (us @ p # n # vs)"
    (is "linked ?h _")
proof -
  from assms(1) have l1: "linked h (us @ [p])" and l2: "linked h (n # vs)"
    by (simp_all add: linked_append [of h us p "a # n # vs"])
  have "linked ?h (us @ [p])"
    by (rule linked_left [OF l1]) (use assms(2) in auto)
  moreover have "linked ?h (n # vs)"
    by (rule linked_right [OF l2]) (use assms(2) in auto)
  ultimately show ?thesis by (simp add: linked_append [of ?h us p "n # vs"])
qed


lemma linked_mid:
  "linked h (us @ p # a # n # vs) \<Longrightarrow>
     nxt h p = Some a \<and> prv h a = Some p \<and> nxt h a = Some n \<and> prv h n = Some a"
  by (simp add: linked_append [of h us p "a # n # vs"])

text \<open>An element whose own fields were left alone is put back between its former neighbors.\<close>

lemma linked_put_back:
  assumes "linked h (us @ p # n # vs)" and "distinct (us @ p # n # vs)" and "a \<notin> set (us @ p # n # vs)"
    and "nxt h a = Some n" and "prv h a = Some p"
  shows "linked (h\<lparr>nxt := (nxt h)(p \<mapsto> a), prv := (prv h)(n \<mapsto> a)\<rparr>) (us @ p # a # n # vs)" (is "linked ?h _")
proof -
  have "prv h n = Some p" using assms(1) by (simp add: linked_append [of h us p "n # vs"])
  then have "insert_elem h (Some n) a = Some (?h, a)"
    using assms(4,5) by (simp add: insert_elem_def Let_def fun_upd_idem)
  then show ?thesis using linked_insert [OF assms(1-3)] by auto
qed

lemma take_elem_linked:
  assumes "linked h (us @ p # a # n # vs)" and "distinct (us @ p # a # n # vs)"
  shows "\<exists>h'. take_elem h (Some a) = Some (h', a) \<and> linked h' (us @ p # n # vs)
    \<and> disposed h' = disposed h"
  using linked_take [OF assms] linked_mid [OF assms(1)] by (simp add: take_elem_def)

lemma erase_elem_linked:
  assumes "linked h (us @ p # a # n # vs)" and "distinct (us @ p # a # n # vs)"
  shows "\<exists>h'. erase_elem h (Some a) = Some (h', Some n) \<and> linked h' (us @ p # n # vs)
    \<and> disposed h' = disposed h @ [a]"
proof -
  obtain h1 where "take_elem h (Some a) = Some (h1, a)" "linked h1 (us @ p # n # vs)"
    "disposed h1 = disposed h"
    using take_elem_linked [OF assms] by blast
  then show ?thesis using linked_mid [OF assms(1)] by (simp add: erase_elem_def Let_def)
qed


section \<open>Refinement: the operations on the pair of lists\<close>

lemma implements_init:
  "distinct [plhead l, plseparator l, pltail l] \<Longrightarrow> implements l (init_plist l h) [] []"
  by (auto simp: implements_def chain_def init_plist_def)

lemma implements_begin:
  assumes "implements l h xs ys"
  shows "first_begin l h = Some (hd (xs @ [plseparator l]))"
    and "second_begin l h = Some (hd (ys @ [pltail l]))"
proof -
  have "linked h ([] @ plhead l # xs @ plseparator l # ys @ [pltail l])"
    using assms by (simp add: implements_def chain_def)
  then show "first_begin l h = Some (hd (xs @ [plseparator l]))"
    by (cases xs) (auto simp: first_begin_def)
  have "linked h ((plhead l # xs) @ plseparator l # ys @ [pltail l])"
    using assms by (simp add: implements_def chain_def)
  then have "linked h (plseparator l # ys @ [pltail l])"
    by (simp only: linked_append [of h "plhead l # xs" "plseparator l" "ys @ [pltail l]"])
  then show "second_begin l h = Some (hd (ys @ [pltail l]))"
    by (cases ys) (auto simp: second_begin_def)
qed

lemma implements_empty:
  assumes "implements l h xs ys"
  shows "first_empty l h \<longleftrightarrow> xs = []" and "second_empty l h \<longleftrightarrow> ys = []"
    and "empty_plist l h \<longleftrightarrow> xs = [] \<and> ys = []"
proof -
  show 1: "first_empty l h \<longleftrightarrow> xs = []"
    using implements_begin [OF assms] assms
    by (cases xs) (auto simp: first_empty_def first_end_def implements_def chain_def)
  show 2: "second_empty l h \<longleftrightarrow> ys = []"
    using implements_begin [OF assms] assms
    by (cases ys) (auto simp: second_empty_def second_end_def implements_def chain_def)
  show "empty_plist l h \<longleftrightarrow> xs = [] \<and> ys = []"
    by (simp add: empty_plist_def 1 2)
qed

text \<open>The chain around a position of either partition.\<close>

lemma chain_split:
  "chain l (xs1 @ xs2) ys =
     butlast (plhead l # xs1) @ last (plhead l # xs1) # xs2 @ plseparator l # ys @ [pltail l]"
  "chain l xs (ys1 @ ys2) =
     (plhead l # xs @ butlast (plseparator l # ys1)) @ last (plseparator l # ys1) # ys2 @ [pltail l]"
  by (simp_all add: chain_def)

lemma implements_insert_first:
  assumes "implements l h (xs1 @ xs2) ys" and "v \<notin> set (chain l (xs1 @ xs2) ys)"
  shows "\<exists>h'. insert_elem h (Some (hd (xs2 @ [plseparator l]))) v = Some (h', v)
    \<and> implements l h' (xs1 @ v # xs2) ys \<and> disposed h' = disposed h"
proof -
  let ?us = "butlast (plhead l # xs1)" and ?p = "last (plhead l # xs1)"
  obtain n vs where n: "xs2 @ plseparator l # ys @ [pltail l] = n # vs"
    "n = hd (xs2 @ [plseparator l])"
    by (cases xs2) auto
  have c: "chain l (xs1 @ xs2) ys = ?us @ ?p # n # vs"
    and c': "chain l (xs1 @ v # xs2) ys = ?us @ ?p # v # n # vs"
    using n(1) by (simp_all only: chain_split append_Cons)
  obtain h' where "insert_elem h (Some n) v = Some (h', v)" "linked h' (?us @ ?p # v # n # vs)"
    "disposed h' = disposed h"
    using linked_insert [of h ?us ?p n vs v] assms by (auto simp: implements_def c)
  moreover have "distinct (chain l (xs1 @ v # xs2) ys)"
    using assms by (auto simp: implements_def chain_def)
  ultimately show ?thesis using n(2) by (auto simp: implements_def c')
qed

lemma implements_insert_second:
  assumes "implements l h xs (ys1 @ ys2)" and "v \<notin> set (chain l xs (ys1 @ ys2))"
  shows "\<exists>h'. insert_elem h (Some (hd (ys2 @ [pltail l]))) v = Some (h', v)
    \<and> implements l h' xs (ys1 @ v # ys2) \<and> disposed h' = disposed h"
proof -
  let ?us = "plhead l # xs @ butlast (plseparator l # ys1)" and ?p = "last (plseparator l # ys1)"
  obtain n vs where n: "ys2 @ [pltail l] = n # vs" "n = hd (ys2 @ [pltail l])"
    by (cases ys2) auto
  have c: "chain l xs (ys1 @ ys2) = ?us @ ?p # n # vs"
    and c': "chain l xs (ys1 @ v # ys2) = ?us @ ?p # v # n # vs"
    using n(1) by (simp_all only: chain_split append_Cons)
  obtain h' where "insert_elem h (Some n) v = Some (h', v)" "linked h' (?us @ ?p # v # n # vs)"
    "disposed h' = disposed h"
    using linked_insert [of h ?us ?p n vs v] assms by (auto simp: implements_def c)
  moreover have "distinct (chain l xs (ys1 @ v # ys2))"
    using assms by (auto simp: implements_def chain_def)
  ultimately show ?thesis using n(2) by (auto simp: implements_def c')
qed

lemma implements_front:
  assumes "implements l h xs ys"
  shows "xs = a # xs' \<Longrightarrow> \<exists>us p n vs. chain l xs ys = us @ p # a # n # vs
      \<and> chain l xs' ys = us @ p # n # vs"
    and "ys = a # ys' \<Longrightarrow> \<exists>us p n vs. chain l xs ys = us @ p # a # n # vs
      \<and> chain l xs ys' = us @ p # n # vs"
proof -
  assume "xs = a # xs'"
  then show "\<exists>us p n vs. chain l xs ys = us @ p # a # n # vs \<and> chain l xs' ys = us @ p # n # vs"
    unfolding chain_def
    by (intro exI [of _ "[]"] exI [of _ "plhead l"] exI [of _ "hd (xs' @ [plseparator l])"]
        exI [of _ "tl (xs' @ plseparator l # ys @ [pltail l])"]) (cases xs', auto)
next
  assume "ys = a # ys'"
  then show "\<exists>us p n vs. chain l xs ys = us @ p # a # n # vs \<and> chain l xs ys' = us @ p # n # vs"
    unfolding chain_def
    by (intro exI [of _ "plhead l # xs"] exI [of _ "plseparator l"] exI [of _ "hd (ys' @ [pltail l])"]
        exI [of _ "tl (ys' @ [pltail l])"]) (cases ys', auto)
qed


lemma implements_take:
  assumes "implements l h xs ys"
  shows "xs = a # xs' \<Longrightarrow> \<exists>h'. take_first_front l h = Some (h', a) \<and> implements l h' xs' ys
      \<and> disposed h' = disposed h"
    and "ys = a # ys' \<Longrightarrow> \<exists>h'. take_second_front l h = Some (h', a) \<and> implements l h' xs ys'
      \<and> disposed h' = disposed h"
proof -
  assume xs: "xs = a # xs'"
  then obtain us p n vs where c: "chain l xs ys = us @ p # a # n # vs"
    "chain l xs' ys = us @ p # n # vs"
    using implements_front(1) [OF assms] by blast
  with take_elem_linked [of h us p a n vs] assms implements_begin(1) [OF assms] xs
  show "\<exists>h'. take_first_front l h = Some (h', a) \<and> implements l h' xs' ys
      \<and> disposed h' = disposed h"
    by (auto simp: implements_def take_first_front_def)
next
  assume ys: "ys = a # ys'"
  then obtain us p n vs where c: "chain l xs ys = us @ p # a # n # vs"
    "chain l xs ys' = us @ p # n # vs"
    using implements_front(2) [OF assms] by blast
  with take_elem_linked [of h us p a n vs] assms implements_begin(2) [OF assms] ys
  show "\<exists>h'. take_second_front l h = Some (h', a) \<and> implements l h' xs ys'
      \<and> disposed h' = disposed h"
    by (auto simp: implements_def take_second_front_def)
qed

lemma implements_erase:
  assumes "implements l h xs ys"
  shows "xs = a # xs' \<Longrightarrow> \<exists>h' n. erase_elem h (Some a) = Some (h', n) \<and> implements l h' xs' ys
      \<and> disposed h' = disposed h @ [a]"
    and "ys = a # ys' \<Longrightarrow> \<exists>h' n. erase_elem h (Some a) = Some (h', n) \<and> implements l h' xs ys'
      \<and> disposed h' = disposed h @ [a]"
proof -
  assume "xs = a # xs'"
  then obtain us p n vs where c: "chain l xs ys = us @ p # a # n # vs"
    "chain l xs' ys = us @ p # n # vs"
    using implements_front(1) [OF assms] by blast
  with erase_elem_linked [of h us p a n vs] assms
  show "\<exists>h' n. erase_elem h (Some a) = Some (h', n) \<and> implements l h' xs' ys
      \<and> disposed h' = disposed h @ [a]"
    by (auto simp: implements_def)
next
  assume "ys = a # ys'"
  then obtain us p n vs where c: "chain l xs ys = us @ p # a # n # vs"
    "chain l xs ys' = us @ p # n # vs"
    using implements_front(2) [OF assms] by blast
  with erase_elem_linked [of h us p a n vs] assms
  show "\<exists>h' n. erase_elem h (Some a) = Some (h', n) \<and> implements l h' xs ys'
      \<and> disposed h' = disposed h @ [a]"
    by (auto simp: implements_def)
qed

lemma implements_pop:
  assumes "implements l h xs ys"
  shows "xs = a # xs' \<Longrightarrow> \<exists>h'. pop_first_front l h = Some h' \<and> implements l h' xs' ys
      \<and> disposed h' = disposed h @ [a]"
    and "ys = a # ys' \<Longrightarrow> \<exists>h'. pop_second_front l h = Some h' \<and> implements l h' xs ys'
      \<and> disposed h' = disposed h @ [a]"
  using implements_erase [OF assms] implements_begin [OF assms]
  by (fastforce simp: pop_first_front_def pop_second_front_def)+

lemma implements_push:
  assumes "implements l h xs ys" and "v \<notin> set (chain l xs ys)"
  shows "\<exists>h'. push_first_back l h v = Some h' \<and> implements l h' (xs @ [v]) ys
      \<and> disposed h' = disposed h"
    and "\<exists>h'. push_second_back l h v = Some h' \<and> implements l h' xs (ys @ [v])
      \<and> disposed h' = disposed h"
  using implements_insert_first [of l h xs "[]" ys v] implements_insert_second [of l h xs ys "[]" v] assms
  by (auto simp: push_first_back_def push_second_back_def first_end_def second_end_def)

lemma implements_clear_first:
  "implements l h xs ys \<Longrightarrow>
     \<exists>h'. clear_partition first_begin first_end l f h s = Some (h', fold f xs s)
       \<and> implements l h' [] ys \<and> disposed h' = disposed h @ xs"
proof (induction xs arbitrary: h s)
  case Nil
  then show ?case
    using implements_begin(1) [OF Nil] by (simp add: clear_partition.simps first_end_def)
next
  case (Cons a xs)
  obtain h1 n where e: "erase_elem h (Some a) = Some (h1, n)" "implements l h1 xs ys"
    "disposed h1 = disposed h @ [a]"
    using implements_erase(1) [OF Cons.prems refl] by blast
  from Cons.prems have "a \<noteq> plseparator l" by (auto simp: implements_def chain_def)
  with Cons.IH [OF e(2), of "f a s"] implements_begin(1) [OF Cons.prems] e show ?case
    by (subst clear_partition.simps) (simp add: first_end_def [of l])
qed

lemma implements_clear_second:
  "implements l h xs ys \<Longrightarrow>
     \<exists>h'. clear_partition second_begin second_end l f h s = Some (h', fold f ys s)
       \<and> implements l h' xs [] \<and> disposed h' = disposed h @ ys"
proof (induction ys arbitrary: h s)
  case Nil
  then show ?case
    using implements_begin(2) [OF Nil] by (simp add: clear_partition.simps second_end_def)
next
  case (Cons a ys)
  obtain h1 n where e: "erase_elem h (Some a) = Some (h1, n)" "implements l h1 xs ys"
    "disposed h1 = disposed h @ [a]"
    using implements_erase(2) [OF Cons.prems refl] by blast
  from Cons.prems have "a \<noteq> pltail l" by (auto simp: implements_def chain_def)
  with Cons.IH [OF e(2), of "f a s"] implements_begin(2) [OF Cons.prems] e show ?case
    by (subst clear_partition.simps) (simp add: second_end_def [of l])
qed

lemma implements_clear:
  assumes "implements l h xs ys"
  shows "\<exists>h'. clear_plist l f h s = Some (h', fold f (xs @ ys) s) \<and> implements l h' [] []
    \<and> disposed h' = disposed h @ xs @ ys"
proof -
  obtain h1 where h1: "clear_partition first_begin first_end l f h s = Some (h1, fold f xs s)"
    "implements l h1 [] ys" "disposed h1 = disposed h @ xs"
    using implements_clear_first [OF assms, of f s] by blast
  obtain h2 where "clear_partition second_begin second_end l f h1 (fold f xs s) =
      Some (h2, fold f ys (fold f xs s))" "implements l h2 [] []"
    "disposed h2 = disposed h1 @ ys"
    using implements_clear_second [OF h1(2), of f "fold f xs s"] by blast
  with h1(1,3) show ?thesis by (simp add: clear_plist_def)
qed

lemma count_range_linked:
  "linked h (zs @ [t]) \<Longrightarrow> t \<notin> set zs \<Longrightarrow>
     count_range h (Some (hd (zs @ [t]))) t m = Some (min m (length zs))"
proof (induction zs arbitrary: m)
  case Nil
  then show ?case by (cases m) auto
next
  case (Cons a zs)
  then have "linked h (zs @ [t])" "nxt h a = Some (hd (zs @ [t]))" by (cases zs; auto)+
  with Cons show ?case by (cases m) auto
qed

lemma implements_linked_parts:
  assumes "implements l h xs ys"
  shows "linked h (xs @ [plseparator l])" and "linked h (ys @ [pltail l])"
    and "linked h (plseparator l # ys @ [pltail l])"
proof -
  have 1: "linked h ((plhead l # xs) @ plseparator l # ys @ [pltail l])"
    using assms by (simp add: implements_def chain_def)
  then have 2: "linked h ((plhead l # xs) @ [plseparator l])"
    and 3: "linked h (plseparator l # ys @ [pltail l])"
    by (simp_all only: linked_append [of h "plhead l # xs" "plseparator l" "ys @ [pltail l]"])
  show "linked h (xs @ [plseparator l])" using 2 by (cases xs) auto
  show "linked h (plseparator l # ys @ [pltail l])" by (rule 3)
  show "linked h (ys @ [pltail l])" using 3 by (cases ys) auto
qed

lemma implements_count:
  assumes "implements l h xs ys"
  shows "count_plist l h m = Some (min m (length xs + length ys))"
proof -
  have "plseparator l \<notin> set xs" "pltail l \<notin> set ys"
    using assms by (auto simp: implements_def chain_def)
  then show ?thesis
    using implements_linked_parts [OF assms] implements_begin [OF assms]
    by (simp add: count_plist_def first_end_def second_end_def count_range_linked)
qed

section \<open>Offering the cached elements to a behavior\<close>

text \<open>
  The list-level meaning of \<^verbatim>\<open>invoke\<close> on the second partition, for a callback on the pair of lists:
  whether an element was consumed successfully, what remains in the two partitions, which elements
  were disposed, and the state of the callback.
\<close>

type_synonym ('a, 's) list_callback =
  "'a \<Rightarrow> 'a list \<times> 'a list \<Rightarrow> 's \<Rightarrow> invoke_message_result \<times> bool \<times> ('a list \<times> 'a list) \<times> 'a list \<times> 's"

fun invoke_list ::
  "('a, 's) list_callback \<Rightarrow> 'a list \<Rightarrow> 'a list \<Rightarrow> 'a list \<Rightarrow> 's \<Rightarrow>
     bool \<times> ('a list \<times> 'a list) \<times> 'a list \<times> 's"
where
  "invoke_list g xs kept [] s = (False, (xs, kept), [], s)"
| "invoke_list g xs kept (a # zs) s =
     (let (res, held, parts, d, s1) = g a (xs, kept @ zs) s;
          gone = (if held then [a] else [])
      in case res of
           im_success \<Rightarrow> (True, parts, d @ gone, s1)
         | im_dropped \<Rightarrow>
             (let (b, parts', disp, s2) = invoke_list g xs kept zs s1 in (b, parts', gone @ disp, s2))
         | im_skipped \<Rightarrow> invoke_list g xs (kept @ gone) zs s1)"

text \<open>
  The callback on the heap does on every well-formed cache what the callback on lists says.  A
  callback that accepts the element may have changed the cache in any way, for instance by offering
  the remaining elements to another behavior; one that drops or skips it leaves the cache as
  it was, and with a skipped element its links.
\<close>

definition callback_refines ::
  "plist \<Rightarrow> (addr \<Rightarrow> heap \<Rightarrow> 's \<Rightarrow> (invoke_message_result \<times> bool \<times> heap \<times> 's) option) \<Rightarrow>
     (addr, 's) list_callback \<Rightarrow> bool" where
  "callback_refines l f g \<longleftrightarrow> (\<forall>a h xs ys s. implements l h xs ys \<longrightarrow> a \<notin> set (chain l xs ys) \<longrightarrow>
     (case g a (xs, ys) s of (res, held, (xs', ys'), d, s') \<Rightarrow>
        (\<exists>h'. f a h s = Some (res, held, h', s') \<and> implements l h' xs' ys' \<and> disposed h' = disposed h @ d
           \<and> (res \<noteq> im_success \<longrightarrow> xs' = xs \<and> ys' = ys \<and> d = [])
           \<and> (res = im_skipped \<longrightarrow> nxt h' a = nxt h a \<and> prv h' a = prv h a))))"

lemma callback_refinesD:
  assumes "callback_refines l f g" and "implements l h xs ys" and "a \<notin> set (chain l xs ys)"
    and "g a (xs, ys) s = (res, held, parts, d, s')"
  obtains h' where "f a h s = Some (res, held, h', s')" and "implements l h' (fst parts) (snd parts)"
    and "disposed h' = disposed h @ d" and "res \<noteq> im_success \<Longrightarrow> parts = (xs, ys) \<and> d = []"
    and "res = im_skipped \<Longrightarrow> nxt h' a = nxt h a \<and> prv h' a = prv h a"
proof -
  obtain xs' ys' where p: "parts = (xs', ys')" by force
  have "case g a (xs, ys) s of (res, held, (xs', ys'), d, s') \<Rightarrow>
      (\<exists>h'. f a h s = Some (res, held, h', s') \<and> implements l h' xs' ys' \<and> disposed h' = disposed h @ d
         \<and> (res \<noteq> im_success \<longrightarrow> xs' = xs \<and> ys' = ys \<and> d = [])
         \<and> (res = im_skipped \<longrightarrow> nxt h' a = nxt h a \<and> prv h' a = prv h a))"
    using assms(1) [unfolded callback_refines_def] assms(2,3) by simp
  then show ?thesis using that unfolding assms(4) p by auto
qed

lemma implements_dispose [simp]: "implements l (dispose h a) xs ys = implements l h xs ys"
  by (simp add: implements_def)

text \<open>The part of the chain before the next element offered to the callback.\<close>

abbreviation before :: "plist \<Rightarrow> addr list \<Rightarrow> addr list \<Rightarrow> addr list" where
  "before l xs kept \<equiv> plhead l # xs @ plseparator l # kept"

lemma chain_before: "chain l xs (kept @ zs) = butlast (before l xs kept) @ last (before l xs kept) # zs @ [pltail l]"
  by (simp add: chain_def append_butlast_last_id butlast_append split: if_splits)

lemma invoke_loop_refines:
  assumes cb: "callback_refines l f g"
  shows "implements l h xs (kept @ zs) \<Longrightarrow> invoke_list g xs kept zs s = (b, parts, disp, s') \<Longrightarrow>
    \<exists>h'. invoke_loop f (pltail l) (Some (hd (zs @ [pltail l]))) (Some (last (before l xs kept)))
        (nxt h (hd (zs @ [pltail l]))) h s = Some (b, h', s')
      \<and> implements l h' (fst parts) (snd parts) \<and> disposed h' = disposed h @ disp"
proof (induction zs arbitrary: kept h s b parts disp s')
  case Nil
  then show ?case by (subst invoke_loop.simps) auto
next
  case (Cons a zs)
  let ?p = "last (before l xs kept)" and ?us = "butlast (before l xs kept)"
  obtain n ws where n: "zs @ [pltail l] = n # ws" "n = hd (zs @ [pltail l])" by (cases zs) auto
  have lk: "linked h (?us @ ?p # a # n # ws)" and ds: "distinct (?us @ ?p # a # n # ws)"
    using Cons.prems(1) n(1) unfolding implements_def chain_before by simp_all
  note mid = linked_mid [OF lk]
  let ?h1 = "h\<lparr>nxt := (nxt h)(?p \<mapsto> n), prv := (prv h)(n \<mapsto> ?p)\<rparr>"
  have c1: "chain l xs (kept @ zs) = ?us @ ?p # n # ws" using n(1) unfolding chain_before by simp
  have i1: "implements l ?h1 xs (kept @ zs)"
    using linked_take [OF lk ds] ds unfolding implements_def c1 by simp
  have a: "a \<notin> set (chain l xs (kept @ zs))" "a \<noteq> pltail l"
    using ds n(1) unfolding c1 by (auto, metis in_set_conv_decomp list.set_intros(1,2) n(1) set_ConsD)
  obtain res held prts d s1 where g: "g a (xs, kept @ zs) s = (res, held, prts, d, s1)"
    by (cases "g a (xs, kept @ zs) s")
  obtain h2 where h2: "f a ?h1 s = Some (res, held, h2, s1)" "implements l h2 (fst prts) (snd prts)"
    "disposed h2 = disposed h @ d" "res \<noteq> im_success \<Longrightarrow> prts = (xs, kept @ zs) \<and> d = []"
    "res = im_skipped \<Longrightarrow> nxt h2 a = Some n \<and> prv h2 a = Some ?p"
    by (rule callback_refinesD [OF cb i1 a(1) g]) (use mid ds in auto)
  let ?h3 = "if held then dispose h2 a else h2"
  let ?h4 = "h2\<lparr>nxt := (nxt h2)(?p \<mapsto> a), prv := (prv h2)(n \<mapsto> a)\<rparr>"
  have unf: "invoke_loop f (pltail l) (Some a) (Some ?p) (nxt h a) h s =
     (case res of
        im_success \<Rightarrow> Some (True, ?h3, s1)
      | im_dropped \<Rightarrow> invoke_loop f (pltail l) (Some n) (Some ?p) (nxt ?h3 n) ?h3 s1
      | im_skipped \<Rightarrow> if held then invoke_loop f (pltail l) (Some n) (Some a) (nxt ?h4 n) ?h4 s1
                      else invoke_loop f (pltail l) (Some n) (Some ?p) (nxt h2 n) h2 s1)"
    using a(2) mid h2(1) by (subst invoke_loop.simps) (simp add: Let_def split: invoke_message_result.split)
  show ?case
  proof (cases res)
    case im_success
    then show ?thesis using unf h2(2,3) Cons.prems(2) by (auto simp: g)
  next
    case im_dropped
    then have i3: "implements l ?h3 xs (kept @ zs)" "d = []" using h2(2,4) by auto
    obtain b2 p2 d2 s2 where rec: "invoke_list g xs kept zs s1 = (b2, p2, d2, s2)"
      by (cases "invoke_list g xs kept zs s1")
    from Cons.IH [OF i3(1) rec] show ?thesis
      using im_dropped unf h2(3) i3(2) Cons.prems(2) n(2) by (auto simp: g rec)
  next
    case im_skipped
    then have s: "implements l h2 xs (kept @ zs)" "d = []" "nxt h2 a = Some n" "prv h2 a = Some ?p"
      using h2(2,4,5) by auto
    show ?thesis
    proof (cases held)
      case True
      have "chain l xs ((kept @ [a]) @ zs) = ?us @ ?p # a # n # ws"
        using n(1) chain_before [of l xs kept "a # zs"] by simp
      moreover have "linked h2 (?us @ ?p # n # ws)" using s(1) unfolding implements_def c1 by simp
      ultimately have "implements l ?h4 xs ((kept @ [a]) @ zs)"
        using linked_put_back [of h2 ?us ?p n ws a] s(3,4) ds unfolding implements_def by auto
      from Cons.IH [OF this, of s1 b parts disp s'] show ?thesis
        using im_skipped True unf h2(3) s(2) Cons.prems(2) n(2) by (auto simp: g)
    next
      case False
      from Cons.IH [OF s(1), of s1 b parts disp s'] show ?thesis
        using im_skipped False unf h2(3) s(2) Cons.prems(2) n(2) by (auto simp: g)
    qed
  qed
qed

lemma implements_invoke:
  assumes "callback_refines l f g" and "implements l h xs ys"
    and "invoke_list g xs [] ys s = (b, parts, disp, s')"
  shows "\<exists>h'. invoke_plist f (second_begin l h) (second_end l) h s = Some (b, h', s')
    \<and> implements l h' (fst parts) (snd parts) \<and> disposed h' = disposed h @ disp"
proof -
  have "prv h (hd (ys @ [pltail l])) = Some (plseparator l)"
    using implements_linked_parts(3) [OF assms(2)] by (cases ys) auto
  then show ?thesis
    using invoke_loop_refines [OF assms(1), of h xs "[]" ys] assms(2,3) implements_begin(2) [OF assms(2)]
    by (simp add: invoke_plist_def second_end_def)
qed

text \<open>
  The recursion the source speaks of: a callback that accepts the element after it has offered the rest
  of the cache to another behavior refines the corresponding callback on lists.
\<close>

definition reentrant ::
  "plist \<Rightarrow> (addr \<Rightarrow> heap \<Rightarrow> 's \<Rightarrow> (invoke_message_result \<times> bool \<times> heap \<times> 's) option) \<Rightarrow>
     addr \<Rightarrow> heap \<Rightarrow> 's \<Rightarrow> (invoke_message_result \<times> bool \<times> heap \<times> 's) option" where
  "reentrant l f a h s = (case invoke_plist f (second_begin l h) (second_end l) h s of
     None \<Rightarrow> None | Some (b, h', s') \<Rightarrow> Some (im_success, True, h', s'))"

definition reentrant_list :: "('a, 's) list_callback \<Rightarrow> ('a, 's) list_callback" where
  "reentrant_list g a parts s = (case invoke_list g (fst parts) [] (snd parts) s of
     (b, parts', d, s') \<Rightarrow> (im_success, True, parts', d, s'))"

lemma reentrant_refines:
  assumes "callback_refines l f g"
  shows "callback_refines l (reentrant l f) (reentrant_list g)"
  unfolding callback_refines_def
proof (intro allI impI)
  fix a h xs ys s
  assume "implements l h xs ys"
  moreover obtain b xs' ys' d s' where i: "invoke_list g xs [] ys s = (b, (xs', ys'), d, s')" by (metis surj_pair)
  ultimately obtain h' where "invoke_plist f (second_begin l h) (second_end l) h s = Some (b, h', s')"
    "implements l h' xs' ys'" "disposed h' = disposed h @ d"
    using implements_invoke [OF assms, of h xs ys s b "(xs', ys')" d s'] by auto
  then show "case reentrant_list g a (xs, ys) s of (res, held, (xs', ys'), d, s') \<Rightarrow>
      (\<exists>h'. reentrant l f a h s = Some (res, held, h', s') \<and> implements l h' xs' ys' \<and> disposed h' = disposed h @ d
         \<and> (res \<noteq> im_success \<longrightarrow> xs' = xs \<and> ys' = ys \<and> d = [])
         \<and> (res = im_skipped \<longrightarrow> nxt h' a = nxt h a \<and> prv h' a = prv h a))"
    using i by (simp add: reentrant_def reentrant_list_def)
qed

text \<open>A callback that picks between two others by the element.\<close>

lemma callback_refines_if:
  "callback_refines l f g \<Longrightarrow> callback_refines l f' g' \<Longrightarrow>
     callback_refines l (\<lambda>a. if P a then f a else f' a) (\<lambda>a. if P a then g a else g' a)"
  by (simp add: callback_refines_def)

text \<open>A callback that leaves the list alone.\<close>

lemma callback_refines_plain:
  "callback_refines l (\<lambda>a h s. case k a s of (res, held, s') \<Rightarrow> Some (res, held, h, s'))
     (\<lambda>a parts s. case k a s of (res, held, s') \<Rightarrow> (res, held, parts, [], s'))"
  by (auto simp: callback_refines_def split: prod.split)

section \<open>The interface of the cache\<close>

fun push_list :: "('c \<Rightarrow> 'a \<Rightarrow> 'c option) \<Rightarrow> 'c \<Rightarrow> 'a list \<Rightarrow> 'c option" where
  "push_list push c [] = Some c"
| "push_list push c (v # vs) =
     (case push c v of None \<Rightarrow> None | Some c' \<Rightarrow> push_list push c' vs)"

fun take_list :: "('c \<Rightarrow> ('c \<times> 'a) option) \<Rightarrow> nat \<Rightarrow> 'c \<Rightarrow> ('c \<times> 'a list) option" where
  "take_list tak 0 c = Some (c, [])"
| "take_list tak (Suc n) c =
     (case tak c of None \<Rightarrow> None
      | Some (c', a) \<Rightarrow> map_option (\<lambda>(c'', as). (c'', a # as)) (take_list tak n c'))"

text \<open>
  What the owner of the cache relies on: pushing appends to a partition, taking removes its
  front, and neither touches the other partition.
\<close>

locale partitioned_cache =
  fixes repr :: "'c \<Rightarrow> 'a list \<Rightarrow> 'a list \<Rightarrow> bool"
    and admissible :: "'a \<Rightarrow> bool"
    and push_fst :: "'c \<Rightarrow> 'a \<Rightarrow> 'c option"
    and push_snd :: "'c \<Rightarrow> 'a \<Rightarrow> 'c option"
    and take_fst :: "'c \<Rightarrow> ('c \<times> 'a) option"
    and take_snd :: "'c \<Rightarrow> ('c \<times> 'a) option"
  assumes push_fst: "repr c xs ys \<Longrightarrow> admissible v \<Longrightarrow> v \<notin> set (xs @ ys) \<Longrightarrow>
      \<exists>c'. push_fst c v = Some c' \<and> repr c' (xs @ [v]) ys"
    and push_snd: "repr c xs ys \<Longrightarrow> admissible v \<Longrightarrow> v \<notin> set (xs @ ys) \<Longrightarrow>
      \<exists>c'. push_snd c v = Some c' \<and> repr c' xs (ys @ [v])"
    and take_fst: "repr c (a # xs) ys \<Longrightarrow> \<exists>c'. take_fst c = Some (c', a) \<and> repr c' xs ys"
    and take_snd: "repr c xs (a # ys) \<Longrightarrow> \<exists>c'. take_snd c = Some (c', a) \<and> repr c' xs ys"
begin

lemma push_list_fst:
  "repr c xs ys \<Longrightarrow> list_all admissible vs \<Longrightarrow> distinct (xs @ ys @ vs) \<Longrightarrow>
     \<exists>c'. push_list push_fst c vs = Some c' \<and> repr c' (xs @ vs) ys"
proof (induction vs arbitrary: c xs)
  case (Cons v vs)
  then obtain c' where "push_fst c v = Some c'" "repr c' (xs @ [v]) ys"
    using push_fst [of c xs ys v] by auto
  with Cons.IH [of c' "xs @ [v]"] Cons.prems show ?case by auto
qed auto

lemma push_list_snd:
  "repr c xs ys \<Longrightarrow> list_all admissible vs \<Longrightarrow> distinct (xs @ ys @ vs) \<Longrightarrow>
     \<exists>c'. push_list push_snd c vs = Some c' \<and> repr c' xs (ys @ vs)"
proof (induction vs arbitrary: c ys)
  case (Cons v vs)
  then obtain c' where "push_snd c v = Some c'" "repr c' xs (ys @ [v])"
    using push_snd [of c xs ys v] by auto
  with Cons.IH [of c' "ys @ [v]"] Cons.prems show ?case by auto
qed auto

lemma take_list_fst:
  "repr c (vs @ xs) ys \<Longrightarrow>
     \<exists>c'. take_list take_fst (length vs) c = Some (c', vs) \<and> repr c' xs ys"
proof (induction vs arbitrary: c)
  case (Cons v vs)
  then obtain c' where c': "take_fst c = Some (c', v)" "repr c' (vs @ xs) ys"
    using take_fst [of c v "vs @ xs" ys] by auto
  with Cons.IH [OF c'(2)] show ?case by auto
qed auto

lemma take_list_snd:
  "repr c xs (vs @ ys) \<Longrightarrow>
     \<exists>c'. take_list take_snd (length vs) c = Some (c', vs) \<and> repr c' xs ys"
proof (induction vs arbitrary: c)
  case (Cons v vs)
  then obtain c' where c': "take_snd c = Some (c', v)" "repr c' xs (vs @ ys)"
    using take_snd [of c xs v "vs @ ys"] by auto
  with Cons.IH [OF c'(2)] show ?case by auto
qed auto

text \<open>Both partitions are queues, and they do not disturb each other.\<close>

lemma fifo_both:
  assumes "repr c [] []" and "list_all admissible (us @ vs)" and "distinct (us @ vs)"
  shows "\<exists>c1 c2 c3 c4. push_list push_fst c us = Some c1 \<and> push_list push_snd c1 vs = Some c2
    \<and> take_list take_snd (length vs) c2 = Some (c3, vs)
    \<and> take_list take_fst (length us) c3 = Some (c4, us) \<and> repr c4 [] []"
proof -
  obtain c1 where c1: "push_list push_fst c us = Some c1" "repr c1 us []"
    using push_list_fst [of c "[]" "[]" us] assms by auto
  obtain c2 where c2: "push_list push_snd c1 vs = Some c2" "repr c2 us vs"
    using push_list_snd [of c1 us "[]" vs] c1 assms by auto
  obtain c3 where c3: "take_list take_snd (length vs) c2 = Some (c3, vs)" "repr c3 us []"
    using take_list_snd [of c2 us vs "[]"] c2 by auto
  obtain c4 where "take_list take_fst (length us) c3 = Some (c4, us)" "repr c4 [] []"
    using take_list_fst [of c3 us "[]" "[]"] c3 by auto
  with c1 c2 c3 show ?thesis by blast
qed

end

interpretation pcache: partitioned_cache
  "implements l" "\<lambda>v. v \<noteq> plhead l \<and> v \<noteq> plseparator l \<and> v \<noteq> pltail l"
  "push_first_back l" "push_second_back l" "take_first_front l" "take_second_front l" for l
proof unfold_locales
  fix c xs ys v
  assume "implements l c xs ys" "v \<noteq> plhead l \<and> v \<noteq> plseparator l \<and> v \<noteq> pltail l"
    "v \<notin> set (xs @ ys)"
  then have "implements l c xs ys" "v \<notin> set (chain l xs ys)" by (auto simp: chain_def)
  from implements_push [OF this]
  show "\<exists>c'. push_first_back l c v = Some c' \<and> implements l c' (xs @ [v]) ys"
    and "\<exists>c'. push_second_back l c v = Some c' \<and> implements l c' xs (ys @ [v])"
    by blast+
qed (use implements_take in blast)+

section \<open>Properties\<close>

text \<open>
  Both partitions of the cache are first-in first-out queues: on a freshly constructed
  cache, elements pushed to the first and then to the second partition come out of each
  partition in the order they went in, no operation dereferences a null pointer on the way,
  and the cache ends up empty.
\<close>

lemma partitioned_list_fifo:
  assumes "distinct [plhead l, plseparator l, pltail l]" and "distinct (us @ vs)"
    and "set (us @ vs) \<inter> {plhead l, plseparator l, pltail l} = {}"
  shows "\<exists>h1 h2 h3 h4. push_list (push_first_back l) (init_plist l h) us = Some h1
    \<and> push_list (push_second_back l) h1 vs = Some h2
    \<and> take_list (take_second_front l) (length vs) h2 = Some (h3, vs)
    \<and> take_list (take_first_front l) (length us) h3 = Some (h4, us)
    \<and> empty_plist l h4"
proof -
  from assms(3) have "list_all (\<lambda>v. v \<noteq> plhead l \<and> v \<noteq> plseparator l \<and> v \<noteq> pltail l) (us @ vs)"
    by (auto simp: list_all_iff)
  from pcache.fifo_both [OF implements_init [OF assms(1)] this assms(2)]
  show ?thesis using implements_empty(3) by blast
qed

definition sample_plist :: plist where
  "sample_plist = \<lparr>plhead = 0, plseparator = 1, pltail = 2\<rparr>"

definition sample_heap :: heap where
  "sample_heap = \<lparr>nxt = Map.empty, prv = Map.empty, disposed = []\<rparr>"

lemma partitioned_list_fifo_witness:
  "\<exists>h1 h2 h3 h4. push_list (push_first_back sample_plist) (init_plist sample_plist sample_heap) [5, 3]
      = Some h1
    \<and> push_list (push_second_back sample_plist) h1 [7, 4] = Some h2
    \<and> take_list (take_second_front sample_plist) (length [7, 4 :: addr]) h2 = Some (h3, [7, 4])
    \<and> take_list (take_first_front sample_plist) (length [5, 3 :: addr]) h3 = Some (h4, [5, 3])
    \<and> empty_plist sample_plist h4"
  by (rule partitioned_list_fifo) (simp_all add: sample_plist_def)

text \<open>
  C22: offering the second partition to a behavior never touches null, terminates, keeps the cache
  well formed and has exactly the effect of a left-to-right
  pass over the element list: skipped elements stay in order, dropped and consumed ones are
  removed and disposed once (unless the callback took ownership), and the pass stops after the
  first success. The callback may change the cache itself, for example by a nested call of invoke, if it
  then accepts the element; a callback that skips or drops an element must leave the cache
  alone, because the saved neighbors are used again.
\<close>

theorem partitioned_list_invoke:
  assumes "callback_refines l f g" and "implements l h xs ys"
    and "invoke_list g xs [] ys s = (b, (xs', ys'), disp, s')"
  shows "\<exists>h'. invoke_plist f (second_begin l h) (second_end l) h s = Some (b, h', s')
    \<and> implements l h' xs' ys' \<and> disposed h' = disposed h @ disp"
  using implements_invoke [OF assms] by simp

text \<open>
  Element 5 is skipped, element 3 is accepted after the rest of the cache has been offered again by a
  nested call, which drops 5 and accepts 7.
\<close>

theorem partitioned_list_invoke_witness:
  "let l = sample_plist;
       inner = (\<lambda>a h s. Some (if a = 5 then im_dropped else im_success, True, h, s @ [a]));
       outer = (\<lambda>a. if a = 5 then (\<lambda>h s. Some (im_skipped, True, h, s @ [a])) else reentrant l inner a)
   in \<exists>h h'. implements l h [] [5, 3, 7, 8]
    \<and> invoke_plist outer (second_begin l h) (second_end l) h [] = Some (True, h', [5, 5, 7])
    \<and> implements l h' [] [8] \<and> disposed h' = disposed h @ [5, 7, 3]"
proof -
  let ?l = sample_plist
  let ?inner = "\<lambda>a h s. Some (if a = 5 then im_dropped else im_success, True, h, s @ [a])"
  let ?outer = "\<lambda>a. if a = 5 then (\<lambda>h s. Some (im_skipped, True, h, s @ [a])) else reentrant ?l ?inner a"
  let ?gi = "\<lambda>a parts s. (if a = 5 then im_dropped else im_success, True, parts, [], s @ [a])"
  let ?g = "\<lambda>a. if a = 5 then (\<lambda>parts s. (im_skipped, True, parts, [], s @ [a])) else reentrant_list ?gi a"
  have inner: "callback_refines ?l ?inner ?gi"
    using callback_refines_plain [of ?l "\<lambda>a s. (if a = 5 then im_dropped else im_success, True, s @ [a])"] by simp
  have skip: "callback_refines ?l (\<lambda>a h s. Some (im_skipped, True, h, s @ [a])) (\<lambda>a parts s. (im_skipped, True, parts, [], s @ [a]))"
    using callback_refines_plain [of ?l "\<lambda>a s. (im_skipped, True, s @ [a])"] by simp
  have cb: "callback_refines ?l ?outer ?g"
    by (rule callback_refines_if [OF skip reentrant_refines [OF inner]])
  have "implements ?l (init_plist ?l sample_heap) [] []"
    by (rule implements_init) (simp add: sample_plist_def)
  from pcache.push_list_snd [OF this, of "[5, 3, 7, 8]"]
  obtain h where h: "implements ?l h [] [5, 3, 7, 8]" by (auto simp: sample_plist_def)
  have "invoke_list ?g [] [] [5, 3, 7, 8 :: addr] [] = (True, ([], [8]), [5, 7, 3], [5, 5, 7])"
    by (simp add: reentrant_list_def Let_def)
  from partitioned_list_invoke [OF cb h this] h show ?thesis unfolding Let_def by blast
qed

text \<open>
  Why the condition is needed: a callback that disposes the following element by a nested operation
  and then skips its own makes the loop offer the disposed element.
\<close>

lemma reentrant_skip_stale:
  "let l = sample_plist;
       h = \<lparr>nxt = [0 \<mapsto> 1, 1 \<mapsto> 5, 5 \<mapsto> 3, 3 \<mapsto> 2], prv = [2 \<mapsto> 3, 3 \<mapsto> 5, 5 \<mapsto> 1, 1 \<mapsto> 0], disposed = []\<rparr>;
       f = (\<lambda>a h s. if a = 5
              then map_option (\<lambda>h'. (im_skipped, True, h', s @ [(a, disposed h)])) (pop_second_front l h)
              else Some (im_success, False, h, s @ [(a, disposed h)]))
   in implements l h [] [5, 3]
    \<and> map_option (\<lambda>(b, h', s). s) (invoke_plist f (second_begin l h) (second_end l) h [])
       = Some [(5, []), (3, [3])]"
  by (simp add: sample_plist_def implements_def chain_def invoke_plist_def invoke_loop.simps
      second_begin_def second_end_def pop_second_front_def erase_elem_def take_elem_def dispose_def Let_def)
    blast

text \<open>
  clearing the cache terminates, calls the visitor on every element exactly once (first
  partition before second, front to back), disposes each of them in that order and leaves an
  empty, well-formed cache.
\<close>

lemma partitioned_list_clear:
  assumes "implements l h xs ys"
  shows "\<exists>h'. clear_plist l f h s = Some (h', fold f (xs @ ys) s) \<and> implements l h' [] []
    \<and> disposed h' = disposed h @ xs @ ys \<and> empty_plist l h'
    \<and> count_plist l h m = Some (min m (length (xs @ ys)))"
  using implements_clear [OF assms, of f s] implements_empty(3) implements_count [OF assms, of m]
  by fastforce

lemma partitioned_list_clear_witness:
  "\<exists>h h'. implements sample_plist h [] [5, 3]
    \<and> clear_plist sample_plist (\<lambda>a s. s @ [a]) h [] = Some (h', [5, 3])
    \<and> empty_plist sample_plist h' \<and> count_plist sample_plist h 1 = Some 1"
proof -
  have "implements sample_plist (init_plist sample_plist sample_heap) [] []"
    by (rule implements_init) (simp add: sample_plist_def)
  from pcache.push_list_snd [OF this, of "[5, 3]"]
  obtain h where h: "implements sample_plist h [] [5, 3]"
    by (auto simp: sample_plist_def)
  from partitioned_list_clear [OF h, of "\<lambda>a s. s @ [a]" "[]" 1] h show ?thesis by auto
qed

end
