(* ===== verification/Local_Actor.thy ===== *)
theory Local_Actor
  imports Atoms Single_Reader_Queue Partitioned_List
begin

text \<open>
  Local actors (local_actor.hpp, local_actor.cpp) with their behavior stack, mailbox elements,
  response promises and the bouncer for requests to terminated actors. The state of one actor holds
  its own fields and the actor system around it. User code (message handlers, timeout handlers,
  on_exit, state serialization) is a parameter: a record of state transformers over that state,
  which may raise exceptions. Handlers are named by numbers; behaviors the runtime builds itself
  are constructors of their own.
\<close>

section \<open>Data\<close>

datatype exn = Actor_Exited u32 | Std_Exception

record mailbox_element =
  sender :: actor_addr
  mid :: message_id
  content :: "elem list"
  marked :: bool

definition make_element :: "actor_addr \<Rightarrow> message_id \<Rightarrow> elem list \<Rightarrow> mailbox_element" where
  "make_element s i m = \<lparr>sender = s, mid = i, content = m, marked = False\<rparr>"

definition elem_high_priority :: "mailbox_element \<Rightarrow> bool" where
  "elem_high_priority e = is_high_priority (mid e)"

record response_promise =
  rp_from :: actor_addr
  rp_to :: actor_addr
  rp_id :: message_id

text \<open>
  Behaviors: the empty one, those of the user, the wrapper installed when a handler returns the
  response id of a request of its own, the forwarder a migrated actor decays into, and the handler
  of the reply to a migration request.
\<close>

datatype bhvr =
    Empty_Bhvr
  | User nat
  | Wrapped bhvr response_promise
  | Forward_All actor_addr
  | Migrate_Reply actor_addr message_id

record local_actor =
  me :: nat
  sys :: world
  planned_exit_reason :: u32
  timeout_id :: u32
  last_request_id :: message_id
  pending_responses :: "(message_id \<times> bhvr) list"
  bhvr_elements :: "bhvr list"
  bhvr_erased :: "bhvr list"
  mailbox :: "mailbox_element srq"
  current_element :: "mailbox_element option"
  sync_failure_handler :: "nat option"

type_synonym 'a outcome_of = "(exn + 'a) \<times> local_actor"

record env =
  invoke_user :: "nat \<Rightarrow> elem list \<Rightarrow> local_actor \<Rightarrow> elem list option outcome_of"
  user_timeout :: "nat \<Rightarrow> duration"
  run_timeout :: "nat \<Rightarrow> local_actor \<Rightarrow> unit outcome_of"
  run_sync_failure :: "nat \<Rightarrow> local_actor \<Rightarrow> unit outcome_of"
  make_behavior :: "local_actor \<Rightarrow> bhvr outcome_of"
  run_act :: "local_actor \<Rightarrow> unit outcome_of"
  on_exit :: "local_actor \<Rightarrow> local_actor"
  save_state :: "local_actor \<Rightarrow> exn + u8 list"
  load_state :: "u8 list \<Rightarrow> local_actor \<Rightarrow> unit outcome_of"
  actor_name :: string
  exception_handler :: "exn \<Rightarrow> attachable \<Rightarrow> u32 option option"

definition bindE :: "'a outcome_of \<Rightarrow> ('a \<Rightarrow> local_actor \<Rightarrow> 'b outcome_of) \<Rightarrow> 'b outcome_of" where
  "bindE r f = (case r of (Inl e, s) \<Rightarrow> (Inl e, s) | (Inr a, s) \<Rightarrow> f a s)"

section \<open>Access to the actor's own part of the system\<close>

abbreviation self_state :: "local_actor \<Rightarrow> actor_state" where
  "self_state s \<equiv> actor_at (sys s) (me s)"

abbreviation with_sys :: "(world \<Rightarrow> world) \<Rightarrow> local_actor \<Rightarrow> local_actor" where
  "with_sys f s \<equiv> s\<lparr>sys := f (sys s)\<rparr>"

definition flag :: "u32 \<Rightarrow> local_actor \<Rightarrow> bool" where
  "flag f s = get_flag f (aflags (self_state s))"

definition put_flag :: "u32 \<Rightarrow> bool \<Rightarrow> local_actor \<Rightarrow> local_actor" where
  "put_flag f v s = with_sys (set_actor (me s) (aflags_update (set_flag v f))) s"

definition post :: "actor_addr \<Rightarrow> actor_addr \<Rightarrow> message_id \<Rightarrow> elem list \<Rightarrow> local_actor \<Rightarrow> local_actor" where
  "post dest from i m s = with_sys (enqueue_addr std_atoms dest from i m) s"

section \<open>The behavior stack\<close>

definition stack_pop_back :: "local_actor \<Rightarrow> local_actor" where
  "stack_pop_back s = (if bhvr_elements s = [] then s
     else s\<lparr>bhvr_erased := bhvr_erased s @ [last (bhvr_elements s)], bhvr_elements := butlast (bhvr_elements s)\<rparr>)"

definition stack_clear :: "local_actor \<Rightarrow> local_actor" where
  "stack_clear s = (if bhvr_elements s = [] then s
     else if bhvr_erased s = [] then s\<lparr>bhvr_elements := bhvr_erased s, bhvr_erased := bhvr_elements s\<rparr>
     else s\<lparr>bhvr_erased := bhvr_erased s @ bhvr_elements s, bhvr_elements := []\<rparr>)"

definition stack_push_back :: "bhvr \<Rightarrow> local_actor \<Rightarrow> local_actor" where
  "stack_push_back b s = s\<lparr>bhvr_elements := bhvr_elements s @ [b]\<rparr>"

definition stack_cleanup :: "local_actor \<Rightarrow> local_actor" where
  "stack_cleanup s = s\<lparr>bhvr_erased := []\<rparr>"

text \<open>timeout() of a behavior; None is the access through the null pointer of an empty one.\<close>

fun timeout_of :: "env \<Rightarrow> bhvr \<Rightarrow> duration option" where
  "timeout_of E Empty_Bhvr = None"
| "timeout_of E (User b) = Some (user_timeout E b)"
| "timeout_of E _ = Some invalid_duration"

section \<open>Requests to terminated actors\<close>

definition bouncer_reason :: "u32 \<Rightarrow> u32" where
  "bouncer_reason r = (if r = not_exited then exit_normal else r)"

definition bounce :: "u32 \<Rightarrow> actor_addr \<Rightarrow> message_id \<Rightarrow> world \<Rightarrow> world" where
  "bounce r snd_addr i w = (if snd_addr \<noteq> None \<and> is_request i
     then enqueue_addr std_atoms snd_addr None (response_id i) [Sync_Exited snd_addr (bouncer_reason r)] w
     else w)"

definition bounce_elem :: "u32 \<Rightarrow> mailbox_element \<Rightarrow> world \<Rightarrow> world" where
  "bounce_elem r e w = bounce r (sender e) (mid e) w"

section \<open>Enqueuing\<close>

definition local_enqueue :: "mailbox_element \<Rightarrow> local_actor \<Rightarrow> local_actor" where
  "local_enqueue e s =
     (if flag is_detached_flag s then
        (case synchronized_enqueue (mailbox s) e of
           (notified, accepted, q) \<Rightarrow>
             (let s1 = s\<lparr>mailbox := q\<rparr>;
                  s2 = (if notified then with_sys (emit (Notify (me s))) s1 else s1)
              in if \<not> accepted \<and> is_request (mid e)
                 then with_sys (bounce (exit_rsn (self_state s)) (sender e) (mid e)) s2 else s2))
      else (case enqueue (mailbox s) e of
              (unblocked_reader, q) \<Rightarrow> with_sys (emit (Schedule (me s))) (s\<lparr>mailbox := q\<rparr>)
            | (queue_closed, q) \<Rightarrow>
                (if is_request (mid e)
                 then with_sys (bounce (exit_rsn (self_state s)) (sender e) (mid e)) (s\<lparr>mailbox := q\<rparr>)
                 else s\<lparr>mailbox := q\<rparr>)
            | (success, q) \<Rightarrow> s\<lparr>mailbox := q\<rparr>))"

section \<open>Observing other actors and groups\<close>

definition monitor_actor :: "actor_addr \<Rightarrow> local_actor \<Rightarrow> local_actor" where
  "monitor_actor whom s = (case whom of None \<Rightarrow> s
     | Some a \<Rightarrow> with_sys (attach std_atoms a (Some (Default_Attachable (address (me s)) monitor))) s)"

definition demonitor_actor :: "actor_addr \<Rightarrow> local_actor \<Rightarrow> local_actor option" where
  "demonitor_actor whom s = (case whom of None \<Rightarrow> Some s
     | Some a \<Rightarrow> map_option (\<lambda>(n, w). s\<lparr>sys := w\<rparr>) (detach (Observe_Token (address (me s)) monitor) a (sys s)))"

text \<open>The group's subscribe says whether it accepted the actor.\<close>

definition join_group :: "(group_ptr \<Rightarrow> bool) \<Rightarrow> group_ptr option \<Rightarrow> local_actor \<Rightarrow> local_actor option" where
  "join_group subscribe what s = (case what of None \<Rightarrow> Some s
     | Some g \<Rightarrow> Option.bind (detach_on (Subscription_Token (Some g)) True True (me s) (sys s)) (\<lambda>(n, w).
         if n = 0 \<and> subscribe g then Some (s\<lparr>sys := attach_impl (me s) (Subscription g) w\<rparr>)
         else Some (s\<lparr>sys := w\<rparr>)))"

definition leave_group :: "group_ptr option \<Rightarrow> local_actor \<Rightarrow> local_actor option" where
  "leave_group what s = (case what of None \<Rightarrow> Some s
     | Some g \<Rightarrow> Option.bind (detach (Subscription_Token (Some g)) (me s) (sys s)) (\<lambda>(n, w).
         Some (s\<lparr>sys := if n > 0 then emit (Unsubscribe g (address (me s))) w else w\<rparr>)))"

definition joined_groups :: "local_actor \<Rightarrow> group_ptr list" where
  "joined_groups s = List.map_filter (\<lambda>x. case x of Subscription g \<Rightarrow> Some g | _ \<Rightarrow> None)
     (attachables (self_state s))"

section \<open>Forwarding and timeouts\<close>

text \<open>Moving the current element to another mailbox; None is a missing current element.\<close>

definition forward_current_message :: "actor_addr \<Rightarrow> local_actor \<Rightarrow> local_actor option" where
  "forward_current_message dest s = (if dest = None then Some s else
     (case current_element s of None \<Rightarrow> None
      | Some e \<Rightarrow> Some ((post dest (sender e) (mid e) (content e) s)\<lparr>current_element := None\<rparr>)))"

definition forward_current_prio :: "actor_addr \<Rightarrow> message_priority \<Rightarrow> local_actor \<Rightarrow> local_actor option" where
  "forward_current_prio dest prio s = (if dest = None then Some s else
     (case current_element s of None \<Rightarrow> None
      | Some e \<Rightarrow> forward_current_message dest (s\<lparr>current_element := Some (e\<lparr>mid :=
          (if prio = high then with_high_priority (mid e) else with_normal_priority (mid e))\<rparr>)\<rparr>)))"

definition delayed_send_impl :: "message_id \<Rightarrow> nat \<Rightarrow> duration \<Rightarrow> elem list \<Rightarrow> local_actor \<Rightarrow> local_actor" where
  "delayed_send_impl i dest d m s = with_sys (emit (Delayed d dest (address (me s)) i m)) s"

definition request_timeout :: "duration \<Rightarrow> local_actor \<Rightarrow> u32 \<times> local_actor" where
  "request_timeout d s =
     (if \<not> duration_valid d then (0, put_flag has_timeout_flag False s)
      else let s1 = put_flag has_timeout_flag True s;
               result = timeout_id s1 + 1;
               s2 = s1\<lparr>timeout_id := result\<rparr>;
               s3 = s2\<lparr>timeout_id := timeout_id s2 + 1\<rparr>;
               msg = [Timeout (timeout_id s3)]
           in (result,
               if duration_is_zero d
               then local_enqueue (make_element (address (me s3)) invalid_message_id msg) s3
               else delayed_send_impl invalid_message_id (me s3) d msg s3))"

definition request_sync_timeout_msg :: "duration \<Rightarrow> message_id \<Rightarrow> local_actor \<Rightarrow> local_actor" where
  "request_sync_timeout_msg d i s = (if \<not> duration_valid d then s
     else delayed_send_impl i (me s) d [Sync_Timeout] s)"

definition is_active_timeout :: "u32 \<Rightarrow> local_actor \<Rightarrow> bool" where
  "is_active_timeout tid s \<longleftrightarrow> flag has_timeout_flag s \<and> timeout_id s = tid"

definition reset_timeout :: "u32 \<Rightarrow> local_actor \<Rightarrow> local_actor" where
  "reset_timeout tid s = (if is_active_timeout tid s then put_flag has_timeout_flag False s else s)"

definition run_timeout_of :: "env \<Rightarrow> bhvr \<Rightarrow> local_actor \<Rightarrow> unit outcome_of" where
  "run_timeout_of E b s = (case b of User n \<Rightarrow> run_timeout E n s | _ \<Rightarrow> (Inr (), s))"

text \<open>
  The comparison of the top of the stack with the behavior goes through operator bool: both are
  compared as whether they are empty.
\<close>

definition handle_timeout :: "env \<Rightarrow> bhvr \<Rightarrow> u32 \<Rightarrow> local_actor \<Rightarrow> unit outcome_of" where
  "handle_timeout E b tid s = (if \<not> is_active_timeout tid s then (Inr (), s)
     else bindE (run_timeout_of E b s) (\<lambda>_ s1.
       if bhvr_elements s1 = [] \<or> (last (bhvr_elements s1) \<noteq> Empty_Bhvr) \<noteq> (b \<noteq> Empty_Bhvr) then (Inr (), s1)
       else if flag is_blocking_flag s1 then (Inr (), stack_pop_back s1) else (Inr (), s1)))"

section \<open>Requests and responses\<close>

definition new_request_id :: "message_priority \<Rightarrow> local_actor \<Rightarrow> message_id \<times> local_actor" where
  "new_request_id mp s = (let result = pre_increment (last_request_id s) in
     (if mp = normal then result else with_high_priority result,
      s\<lparr>last_request_id := result,
        pending_responses := (response_id result, Empty_Bhvr) # pending_responses s\<rparr>))"

definition mark_arrived :: "message_id \<Rightarrow> local_actor \<Rightarrow> local_actor" where
  "mark_arrived i s = s\<lparr>pending_responses := filter (\<lambda>p. fst p \<noteq> i) (pending_responses s)\<rparr>"

definition awaits_response :: "local_actor \<Rightarrow> bool" where
  "awaits_response s \<longleftrightarrow> pending_responses s \<noteq> []"

definition awaits :: "message_id \<Rightarrow> local_actor \<Rightarrow> bool" where
  "awaits i s = list_ex (\<lambda>p. fst p = i) (pending_responses s)"

definition find_pending_response :: "message_id \<Rightarrow> local_actor \<Rightarrow> (message_id \<times> bhvr) option" where
  "find_pending_response i s = find (\<lambda>p. fst p = i) (pending_responses s)"

text \<open>Writing through the reference find\_pending\_response returns.\<close>

fun update_first :: "message_id \<Rightarrow> bhvr \<Rightarrow> (message_id \<times> bhvr) list \<Rightarrow> (message_id \<times> bhvr) list" where
  "update_first i b [] = []"
| "update_first i b (p # ps) = (if fst p = i then (fst p, b) # ps else p # update_first i b ps)"

definition set_response_handler :: "env \<Rightarrow> message_id \<Rightarrow> bhvr \<Rightarrow> local_actor \<Rightarrow> local_actor option" where
  "set_response_handler E i b s = (case find_pending_response i s of None \<Rightarrow> Some s
     | Some _ \<Rightarrow> (case timeout_of E b of None \<Rightarrow> None
         | Some d \<Rightarrow> (let s1 = (if duration_valid d then request_sync_timeout_msg d i s else s)
             in Some (s1\<lparr>pending_responses := update_first i b (pending_responses s1)\<rparr>))))"

definition awaited_response_id :: "local_actor \<Rightarrow> message_id" where
  "awaited_response_id s = (case pending_responses s of [] \<Rightarrow> make_mid normal | p # _ \<Rightarrow> fst p)"

definition has_behavior :: "local_actor \<Rightarrow> bool" where
  "has_behavior s \<longleftrightarrow> bhvr_elements s \<noteq> [] \<or> pending_responses s \<noteq> []"

text \<open>The active behavior; None when there is none.\<close>

definition get_behavior :: "local_actor \<Rightarrow> bhvr option" where
  "get_behavior s = (case pending_responses s of
     [] \<Rightarrow> if bhvr_elements s = [] then None else Some (last (bhvr_elements s))
   | p # _ \<Rightarrow> Some (snd p))"

definition send_impl :: "message_id \<Rightarrow> actor_addr \<Rightarrow> elem list \<Rightarrow> local_actor \<Rightarrow> local_actor" where
  "send_impl i dest what s = (if dest = None then s else post dest (address (me s)) i what s)"

definition send_exit :: "actor_addr \<Rightarrow> u32 \<Rightarrow> local_actor \<Rightarrow> local_actor" where
  "send_exit whom r s = send_impl (make_mid high) whom [Exit (address (me s)) r] s"

text \<open>Inl is the exception for an invalid destination.\<close>

definition sync_send_impl :: "message_priority \<Rightarrow> actor_addr \<Rightarrow> elem list \<Rightarrow> local_actor \<Rightarrow> message_id outcome_of" where
  "sync_send_impl mp dest what s = (if dest = None then (Inl Std_Exception, s)
     else let (req_id, s1) = new_request_id mp s in (Inr (response_id req_id), send_impl req_id dest what s1))"

definition do_become :: "env \<Rightarrow> bhvr \<Rightarrow> bool \<Rightarrow> local_actor \<Rightarrow> local_actor option" where
  "do_become E b discard_old s = (case timeout_of E b of None \<Rightarrow> None
     | Some d \<Rightarrow> (let s1 = (if discard_old then stack_pop_back s else s);
                      (_, s2) = request_timeout d s1
                  in Some (stack_push_back b s2)))"

definition quit :: "u32 \<Rightarrow> local_actor \<Rightarrow> unit outcome_of" where
  "quit r s = (let s1 = s\<lparr>planned_exit_reason := r\<rparr> in
     if flag is_blocking_flag s1 then (Inl (Actor_Exited r), s1) else (Inr (), s1))"

definition make_response_promise :: "local_actor \<Rightarrow> response_promise \<times> local_actor" where
  "make_response_promise s = (case current_element s of
     None \<Rightarrow> (\<lparr>rp_from = None, rp_to = None, rp_id = invalid_message_id\<rparr>, s)
   | Some e \<Rightarrow> (\<lparr>rp_from = address (me s), rp_to = sender e, rp_id = response_id (mid e)\<rparr>,
       s\<lparr>current_element := Some (e\<lparr>mid := mark_as_answered (mid e)\<rparr>)\<rparr>))"

definition promise_valid :: "response_promise \<Rightarrow> bool" where
  "promise_valid p \<longleftrightarrow> rp_to p \<noteq> None"

definition deliver :: "response_promise \<Rightarrow> elem list \<Rightarrow> local_actor \<Rightarrow> local_actor" where
  "deliver p m s = (if rp_to p = None then s else post (rp_to p) (rp_from p) (rp_id p) m s)"

definition handle_sync_failure :: "env \<Rightarrow> local_actor \<Rightarrow> unit outcome_of" where
  "handle_sync_failure E s = (case sync_failure_handler s of
     Some h \<Rightarrow> run_sync_failure E h s | None \<Rightarrow> quit unhandled_sync_failure s)"

text \<open>
  Sending with a priority, sending later, and handing the current request on with another content.
\<close>

definition send_msg :: "message_priority \<Rightarrow> actor_addr \<Rightarrow> elem list \<Rightarrow> local_actor \<Rightarrow> local_actor" where
  "send_msg mp dest what s = send_impl (make_mid mp) dest what s"

definition delayed_send :: "message_priority \<Rightarrow> nat \<Rightarrow> duration \<Rightarrow> elem list \<Rightarrow> local_actor \<Rightarrow> local_actor" where
  "delayed_send mp dest d m s = delayed_send_impl (make_mid mp) dest d m s"

definition delegate_msg :: "message_priority \<Rightarrow> actor_addr \<Rightarrow> elem list \<Rightarrow> local_actor \<Rightarrow> local_actor option" where
  "delegate_msg mp dest m s = (if dest = None then Some s else
     (case current_element s of None \<Rightarrow> None
      | Some e \<Rightarrow>
          (let i = (if mp = high then with_high_priority (mid e) else with_normal_priority (mid e))
           in Some ((post dest (sender e) i m s)\<lparr>current_element := None\<rparr>))))"

definition get_response_id :: "local_actor \<Rightarrow> message_id option" where
  "get_response_id s = map_option (\<lambda>e. if is_request (mid e) then response_id (mid e) else invalid_message_id)
     (current_element s)"

definition last_dequeued :: "local_actor \<Rightarrow> exn + elem list" where
  "last_dequeued s = (case current_element s of None \<Rightarrow> Inl Std_Exception | Some e \<Rightarrow> Inr (content e))"

definition last_sender :: "local_actor \<Rightarrow> exn + actor_addr" where
  "last_sender s = (case current_element s of None \<Rightarrow> Inl Std_Exception | Some e \<Rightarrow> Inr (sender e))"

definition on_sync_failure :: "nat \<Rightarrow> local_actor \<Rightarrow> local_actor" where
  "on_sync_failure h s = s\<lparr>sync_failure_handler := Some h\<rparr>"

text \<open>Monitoring and linking a spawned actor, as its spawn options say.\<close>

definition eval_opts :: "bool \<Rightarrow> bool \<Rightarrow> actor_addr \<Rightarrow> local_actor \<Rightarrow> local_actor option" where
  "eval_opts with_monitor with_link res s =
     (let s1 = (if with_monitor then monitor_actor res s else s) in
      if with_link then map_option (\<lambda>w. s1\<lparr>sys := w\<rparr>) (link_to std_atoms (me s1) res (sys s1)) else Some s1)"

section \<open>Filtering of incoming messages\<close>

datatype msg_type = normal_exit | non_normal_exit | expired_timeout | expired_sync_response
  | timeout_type | ordinary | sync_response | sys_message

text \<open>The atom that marks the result of a handler as the id of a request of its own.\<close>

definition message_id_atom :: u64 where
  "message_id_atom = atom_val ''MESSAGE_ID'' 0xF"

text \<open>Answering the sender of a system message.\<close>

definition answer :: "mailbox_element \<Rightarrow> elem list \<Rightarrow> local_actor \<Rightarrow> local_actor" where
  "answer node m s = post (sender node) (address (me s)) (response_id (mid node)) m s"

text \<open>
  System messages of the form (SYS, ...): migration to or from this actor and queries. The result
  says whether one of the patterns matched.
\<close>

definition migrate_away :: "env \<Rightarrow> mailbox_element \<Rightarrow> actor_addr \<Rightarrow> local_actor \<Rightarrow> unit outcome_of" where
  "migrate_away E node mm s =
     (if \<not> flag is_serializable_flag s then (Inr (), answer node [Atom error_atom, Str ''not serializable''] s)
      else (case save_state E s of Inl ex \<Rightarrow> (Inl ex, s)
        | Inr buf \<Rightarrow> bindE (sync_send_impl normal mm [Atom migrate_atom, Str (actor_name E), Charbuf buf] s)
            (\<lambda>req s1. case set_response_handler E req (Migrate_Reply (sender node) (mid node)) s1 of
               None \<Rightarrow> (Inr (), s1) | Some s2 \<Rightarrow> (Inr (), s2))))"

definition migrate_here :: "env \<Rightarrow> mailbox_element \<Rightarrow> u8 list \<Rightarrow> local_actor \<Rightarrow> unit outcome_of" where
  "migrate_here E node buf s =
     (if \<not> flag is_serializable_flag s then (Inr (), answer node [Atom error_atom, Str ''not serializable''] s)
      else let s1 = (if flag is_migrated_from_flag s
                     then put_flag is_migrated_from_flag False (stack_pop_back s) else s)
           in bindE (load_state E buf s1) (\<lambda>_ s2.
                (Inr (), answer node [Atom ok_atom, Addr (address (me s2))] s2)))"

definition sys_get :: "env \<Rightarrow> mailbox_element \<Rightarrow> string \<Rightarrow> local_actor \<Rightarrow> local_actor" where
  "sys_get E node what s =
     (if what = ''info''
      then answer node [Atom ok_atom, Str what, Addr (address (me s)), Str (actor_name E)] s
      else answer node [Atom error_atom, Str (''unknown key: '' @ what)] s)"

definition handle_sys_message :: "env \<Rightarrow> mailbox_element \<Rightarrow> local_actor \<Rightarrow> bool outcome_of" where
  "handle_sys_message E node s = (case content node of
     [Atom a, Atom b, Actor mm] \<Rightarrow>
       if a = sys_atom \<and> b = migrate_atom then bindE (migrate_away E node mm s) (\<lambda>_ s'. (Inr True, s'))
       else (Inr False, s)
   | [Atom a, Atom b, Charbuf buf] \<Rightarrow>
       if a = sys_atom \<and> b = migrate_atom then bindE (migrate_here E node buf s) (\<lambda>_ s'. (Inr True, s'))
       else (Inr False, s)
   | [Atom a, Atom b, Str what] \<Rightarrow>
       if a = sys_atom \<and> b = get_atom then (Inr True, sys_get E node what s) else (Inr False, s)
   | _ \<Rightarrow> (Inr False, s))"

definition unlink_self :: "actor_addr \<Rightarrow> local_actor \<Rightarrow> local_actor" where
  "unlink_self other s = (case unlink_from std_atoms (me s) other (sys s) of
     Some w \<Rightarrow> s\<lparr>sys := w\<rparr> | None \<Rightarrow> s)"

definition handle_exit_msg :: "actor_addr \<Rightarrow> u32 \<Rightarrow> local_actor \<Rightarrow> msg_type outcome_of" where
  "handle_exit_msg source r s = (let s1 = unlink_self source s in
     if r = exit_kill then bindE (quit r s1) (\<lambda>_ s2. (Inr non_normal_exit, s2))
     else if \<not> flag trap_exit_flag s1 then
       if r \<noteq> exit_normal then bindE (quit r s1) (\<lambda>_ s2. (Inr non_normal_exit, s2))
       else (Inr normal_exit, s1)
     else (Inr ordinary, s1))"

text \<open>
  The test for a leading SYS atom compares types only, so that any leading atom passes; the patterns
  of the system messages then decide.
\<close>

definition is_sys_message :: "mailbox_element \<Rightarrow> bool" where
  "is_sys_message node \<longleftrightarrow> length (content node) > 1 \<and> type_of (hd (content node)) = T_atom \<and> sender node \<noteq> None"

definition filter_msg :: "env \<Rightarrow> mailbox_element \<Rightarrow> local_actor \<Rightarrow> msg_type outcome_of" where
  "filter_msg E node s =
     (if is_response (mid node) then (Inr (if awaits (mid node) s then sync_response else expired_sync_response), s)
      else if is_sys_message node then
        bindE (handle_sys_message E node s) (\<lambda>matched s'. (Inr (if matched then sys_message else ordinary), s'))
      else (case content node of
          [Timeout tid] \<Rightarrow> (Inr (if is_active_timeout tid s then timeout_type else expired_timeout), s)
        | [Exit source r] \<Rightarrow> handle_exit_msg source r s
        | _ \<Rightarrow> (Inr ordinary, s)))"

section \<open>Invoking handlers\<close>

text \<open>Enables handlers to return the response id of a request they sent.\<close>

definition handle_message_id_res :: "elem list \<Rightarrow> response_promise option \<Rightarrow> local_actor \<Rightarrow> bool \<times> local_actor" where
  "handle_message_id_res res hdl s = (case res of
     [Atom a, U64 n] \<Rightarrow>
       if a = message_id_atom then
         (case find_pending_response (from_integer_value n) s of
            None \<Rightarrow> (False, s)
          | Some (i, inner) \<Rightarrow>
              (let (fhdl, s1) = (case hdl of Some h \<Rightarrow> (h, s) | None \<Rightarrow> make_response_promise s)
               in (True, s1\<lparr>pending_responses := update_first i (Wrapped inner fhdl) (pending_responses s1)\<rparr>)))
       else (False, s)
   | _ \<Rightarrow> (False, s))"

text \<open>The reply to a migration request: decay into a proxy, or report the error.\<close>

definition migrate_reply :: "env \<Rightarrow> actor_addr \<Rightarrow> message_id \<Rightarrow> elem list \<Rightarrow> local_actor \<Rightarrow> elem list option outcome_of" where
  "migrate_reply E snd_addr i m s = (case m of
     [Atom a, Addr dest] \<Rightarrow>
       if a = ok_atom then
         (let s1 = post snd_addr (address (me s)) (response_id i) [Atom ok_atom, Addr dest] s in
          case do_become E (Forward_All dest) False s1 of
            None \<Rightarrow> (Inr None, s1)
          | Some s2 \<Rightarrow> (Inr (Some []), put_flag is_migrated_from_flag True s2))
       else (Inr None, s)
   | [Atom a, Str errmsg] \<Rightarrow>
       if a = error_atom
       then (Inr (Some []), post snd_addr (address (me s)) (response_id i) [Atom error_atom, Str errmsg] s)
       else (Inr None, s)
   | _ \<Rightarrow> (Inr None, s))"

fun invoke_bhvr :: "env \<Rightarrow> bhvr \<Rightarrow> elem list \<Rightarrow> local_actor \<Rightarrow> elem list option outcome_of" where
  "invoke_bhvr E Empty_Bhvr m s = (Inr None, s)"
| "invoke_bhvr E (User b) m s = invoke_user E b m s"
| "invoke_bhvr E (Forward_All dest) m s = (case forward_current_message dest s of
     None \<Rightarrow> (Inr None, s) | Some s' \<Rightarrow> (Inr (Some []), s'))"
| "invoke_bhvr E (Migrate_Reply snd_addr i) m s = migrate_reply E snd_addr i m s"
| "invoke_bhvr E (Wrapped inner fhdl) m s = bindE (invoke_bhvr E inner m s) (\<lambda>res s1. case res of
     None \<Rightarrow> (Inr (Some []), s1)
   | Some m' \<Rightarrow> (case handle_message_id_res m' (Some fhdl) s1 of
       (True, s2) \<Rightarrow> (Inr (Some []), s2)
     | (False, s2) \<Rightarrow> (Inr (Some []), deliver fhdl m' s2)))"

definition post_process_invoke_res :: "elem list option \<Rightarrow> local_actor \<Rightarrow> elem list option \<times> local_actor" where
  "post_process_invoke_res res s = (case res of
     None \<Rightarrow> (None, s)
   | Some [] \<Rightarrow>
       (case current_element s of
          None \<Rightarrow> (Some [], s)
        | Some e \<Rightarrow>
            if is_request (mid e) \<and> \<not> is_answered (mid e) then
              (let (fhdl, s1) = make_response_promise s
               in (Some [], if promise_valid fhdl then deliver fhdl [] s1 else s1))
            else (Some [], s))
   | Some m \<Rightarrow>
       (case handle_message_id_res m None s of
          (True, s1) \<Rightarrow> (Some [], s1)
        | (False, s1) \<Rightarrow>
            (let (fhdl, s2) = make_response_promise s1
             in if promise_valid fhdl then (Some [], deliver fhdl m s2) else (Some m, s2))))"

text \<open>Running a handler on an element: it becomes the current element for the time of the call.\<close>

definition call_handler :: "env \<Rightarrow> bhvr \<Rightarrow> mailbox_element \<Rightarrow> local_actor \<Rightarrow> elem list option outcome_of" where
  "call_handler E b e s = bindE (invoke_bhvr E b (content e) (s\<lparr>current_element := Some e\<rparr>))
     (\<lambda>res s1. case post_process_invoke_res res s1 of (r, s2) \<Rightarrow> (Inr r, s2))"

text \<open>Taking the element back after the call; None when the handler moved it elsewhere.\<close>

definition swap_back :: "mailbox_element option \<Rightarrow> local_actor \<Rightarrow> mailbox_element option \<times> local_actor" where
  "swap_back old s = (current_element s, s\<lparr>current_element := old\<rparr>)"

definition invoke_sync_response ::
  "env \<Rightarrow> mailbox_element \<Rightarrow> bhvr \<Rightarrow> message_id \<Rightarrow> local_actor
   \<Rightarrow> (invoke_message_result \<times> mailbox_element option) outcome_of" where
  "invoke_sync_response E e b awaited s =
     (if valid awaited \<and> mid e = awaited then
        bindE
          (if content e = [Sync_Timeout] then
             (if (case timeout_of E b of Some d \<Rightarrow> duration_valid d | None \<Rightarrow> False)
              then run_timeout_of E b (s\<lparr>current_element := Some e\<rparr>)
              else (Inr (), s\<lparr>current_element := Some e\<rparr>))
           else bindE (call_handler E b e s) (\<lambda>res s1. if res = None then handle_sync_failure E s1 else (Inr (), s1)))
          (\<lambda>_ s2. case swap_back (current_element s) s2 of (ptr, s3) \<Rightarrow>
             (Inr (im_success, ptr), mark_arrived awaited s3))
      else (Inr (im_skipped, Some e), s))"

definition invoke_ordinary ::
  "env \<Rightarrow> mailbox_element \<Rightarrow> bhvr \<Rightarrow> message_id \<Rightarrow> local_actor
   \<Rightarrow> (invoke_message_result \<times> mailbox_element option) outcome_of" where
  "invoke_ordinary E e b awaited s =
     (if valid awaited then (Inr (im_skipped, Some e), s)
      else let had_timeout = flag has_timeout_flag s;
               s1 = (if had_timeout then put_flag has_timeout_flag False s else s)
           in bindE (call_handler E b e s1) (\<lambda>res s2. case swap_back (current_element s) s2 of (ptr, s3) \<Rightarrow>
                if res \<noteq> None then (Inr (im_success, ptr), s3)
                else (Inr (im_skipped, ptr), if had_timeout then put_flag has_timeout_flag True s3 else s3)))"

definition invoke_message ::
  "env \<Rightarrow> mailbox_element \<Rightarrow> bhvr \<Rightarrow> message_id \<Rightarrow> local_actor
   \<Rightarrow> (invoke_message_result \<times> mailbox_element option) outcome_of" where
  "invoke_message E e b awaited s = bindE (filter_msg E e s) (\<lambda>ty s1. case ty of
     normal_exit \<Rightarrow> (Inr (im_dropped, Some e), s1)
   | expired_sync_response \<Rightarrow> (Inr (im_dropped, Some e), s1)
   | expired_timeout \<Rightarrow> (Inr (im_dropped, Some e), s1)
   | sys_message \<Rightarrow> (Inr (im_dropped, Some e), s1)
   | non_normal_exit \<Rightarrow> (Inr (im_success, Some e), s1)
   | timeout_type \<Rightarrow>
       if awaited = invalid_message_id then
         (case content e of
            [Timeout tid] \<Rightarrow> bindE (handle_timeout E b tid s1) (\<lambda>_ s2. (Inr (im_success, Some e), s2))
          | _ \<Rightarrow> (Inr (im_dropped, Some e), s1))
       else (Inr (im_dropped, Some e), s1)
   | sync_response \<Rightarrow> invoke_sync_response E e b awaited s1
   | ordinary \<Rightarrow> invoke_ordinary E e b awaited s1)"

section \<open>The mailbox and its cache\<close>

text \<open>
  next\_message of priority-aware actors empties the mailbox into the first partition of the cache.
  hp\_pos is the insert position for elements of high priority; the end of the partition stands for
  the end iterator. The number of elements in the mailbox bounds the loop.
\<close>

fun fetch_loop :: "nat \<Rightarrow> nat \<Rightarrow> mailbox_element srq \<Rightarrow> mailbox_element srq option" where
  "fetch_loop 0 hp_pos q = None"
| "fetch_loop (Suc k) hp_pos q = (case try_pop q of
     None \<Rightarrow> None
   | Some (None, q1) \<Rightarrow> Some q1
   | Some (Some e, q1) \<Rightarrow>
       (let xs = cache_first q1;
            pos = (if elem_high_priority e then hp_pos else length xs);
            q2 = q1\<lparr>cache_first := take pos xs @ e # drop pos xs\<rparr>;
            hp_pos1 = (if elem_high_priority e then Suc hp_pos else hp_pos)
        in fetch_loop k hp_pos1 q2))"

definition next_message :: "local_actor \<Rightarrow> (mailbox_element option \<times> local_actor) option" where
  "next_message s =
     (if \<not> flag is_priority_aware_flag s
      then map_option (\<lambda>(e, q). (e, s\<lparr>mailbox := q\<rparr>)) (try_pop (mailbox s))
      else let q = mailbox s in
        Option.bind
          (if cache_first q = [] \<or> \<not> elem_high_priority (hd (cache_first q))
           then fetch_loop (Suc (length (contents q))) 0 q else Some q)
          (\<lambda>q1. case cache_first q1 of
             [] \<Rightarrow> Some (None, s\<lparr>mailbox := q1\<rparr>)
           | e # es \<Rightarrow> Some (Some e, s\<lparr>mailbox := q1\<lparr>cache_first := es\<rparr>\<rparr>)))"

definition has_next_message :: "local_actor \<Rightarrow> bool" where
  "has_next_message s =
     (if \<not> flag is_priority_aware_flag s then can_fetch_more (mailbox s)
      else cache_first (mailbox s) \<noteq> [] \<or> can_fetch_more (mailbox s))"

text \<open>std::partition\_point on a list: the number of leading elements with the property (a binary
  search, which agrees with this on partitioned lists).\<close>

function partition_point :: "('a \<Rightarrow> bool) \<Rightarrow> 'a list \<Rightarrow> nat \<Rightarrow> nat \<Rightarrow> nat" where
  "partition_point P xs first len =
     (if len = 0 then first
      else let half = len div 2; middle = first + half in
        if middle < length xs \<and> P (xs ! middle) then partition_point P xs (Suc middle) (len - half - 1)
        else partition_point P xs first half)"
  by pat_completeness auto

termination partition_point
  by (relation "measure (\<lambda>(P, xs, f, len). len)") auto

declare partition_point.simps [simp del]

definition push_to_cache :: "mailbox_element \<Rightarrow> local_actor \<Rightarrow> local_actor" where
  "push_to_cache e s =
     (let q = mailbox s; ys = cache_second q in
      if \<not> flag is_priority_aware_flag s then s\<lparr>mailbox := q\<lparr>cache_second := ys @ [e]\<rparr>\<rparr>
      else let i = (if elem_high_priority e then partition_point elem_high_priority ys 0 (length ys) else length ys)
           in s\<lparr>mailbox := q\<lparr>cache_second := take i ys @ e # drop i ys\<rparr>\<rparr>)"

text \<open>
  One pass over the second partition of the cache: elements are taken out before they are invoked
  and put back when they are skipped.
\<close>

fun invoke_cache ::
  "env \<Rightarrow> bhvr \<Rightarrow> message_id \<Rightarrow> mailbox_element list \<Rightarrow> mailbox_element list \<Rightarrow> local_actor \<Rightarrow> bool outcome_of" where
  "invoke_cache E b awaited kept [] s = (Inr False, s)"
| "invoke_cache E b awaited kept (e # es) s =
     (let s1 = s\<lparr>mailbox := (mailbox s)\<lparr>cache_second := kept @ es\<rparr>\<rparr> in
      case invoke_message E e b awaited s1 of
        (Inl ex, s2) \<Rightarrow> (Inl ex, s2)
      | (Inr (im_success, _), s2) \<Rightarrow> (Inr True, s2)
      | (Inr (im_dropped, _), s2) \<Rightarrow> invoke_cache E b awaited kept es s2
      | (Inr (im_skipped, None), s2) \<Rightarrow> invoke_cache E b awaited kept es s2
      | (Inr (im_skipped, Some e'), s2) \<Rightarrow>
          invoke_cache E b awaited (kept @ [e']) es
            (s2\<lparr>mailbox := (mailbox s2)\<lparr>cache_second := kept @ e' # es\<rparr>\<rparr>))"

definition invoke_from_cache :: "env \<Rightarrow> bhvr \<Rightarrow> message_id \<Rightarrow> local_actor \<Rightarrow> bool outcome_of" where
  "invoke_from_cache E b awaited s = invoke_cache E b awaited [] (cache_second (mailbox s)) s"

section \<open>Life cycle\<close>

definition local_cleanup :: "u32 \<Rightarrow> local_actor \<Rightarrow> local_actor" where
  "local_cleanup r s =
     (case close_srq (bounce_elem r) (mailbox s) (sys s) of (q, w) \<Rightarrow>
        s\<lparr>current_element := None, mailbox := q, pending_responses := [],
          sys := set_registered (me s) False (cleanup std_atoms (me s) r w)\<rparr>)"

text \<open>The destructor answers requests that arrived after the last chance to look at them.\<close>

definition destroy_local :: "local_actor \<Rightarrow> local_actor" where
  "destroy_local s = (if closed (mailbox s) then s
     else (case close_srq (bounce_elem (exit_rsn (self_state s))) (mailbox s) (sys s) of (q, w) \<Rightarrow>
       s\<lparr>mailbox := q, sys := w\<rparr>))"

text \<open>Actors with a thread of their own wait for data; the first component says whether they sleep.\<close>

definition await_data :: "local_actor \<Rightarrow> bool \<times> local_actor" where
  "await_data s = (if has_next_message s then (False, s)
     else (case synchronized_await (mailbox s) of (sleeps, q) \<Rightarrow> (sleeps, s\<lparr>mailbox := q\<rparr>)))"

definition launch :: "bool \<Rightarrow> bool \<Rightarrow> local_actor \<Rightarrow> local_actor" where
  "launch lazy hide s =
     (let s1 = with_sys (set_registered (me s) (\<not> hide)) s in
      if flag is_detached_flag s1 then s1
      else if lazy then
        (case try_block (mailbox s1) of
           (True, q) \<Rightarrow> s1\<lparr>mailbox := q\<rparr>
         | (False, q) \<Rightarrow> with_sys (emit (Schedule (me s1))) (s1\<lparr>mailbox := q\<rparr>))
      else with_sys (emit (Schedule (me s1))) s1)"

definition initialize :: "env \<Rightarrow> local_actor \<Rightarrow> unit outcome_of" where
  "initialize E s = bindE (make_behavior E (put_flag is_initialized_flag True s)) (\<lambda>b s1.
     if b = Empty_Bhvr then (Inr (), s1)
     else (case do_become E b True s1 of None \<Rightarrow> (Inr (), s1) | Some s2 \<Rightarrow> (Inr (), s2)))"

datatype resume_result = resume_later | awaiting_message | done_result

definition actor_done :: "env \<Rightarrow> local_actor \<Rightarrow> bool \<times> local_actor" where
  "actor_done E s =
     (if \<not> has_behavior s \<or> planned_exit_reason s \<noteq> not_exited then
        (let s1 = stack_cleanup (stack_clear (on_exit E s));
             r = planned_exit_reason s1;
             s2 = (if r = not_exited then s1\<lparr>planned_exit_reason := exit_normal\<rparr> else s1)
         in (True, local_cleanup (planned_exit_reason s2) s2))
      else (False, s))"

text \<open>
  Consumption of cached elements as long as one of them is handled. The outer option of this and of
  the following definitions is None when the fuel does not suffice or when the code runs into
  undefined behavior (an access through an empty behavior, or a pop from a closed mailbox).
\<close>

fun cache_loop :: "nat \<Rightarrow> env \<Rightarrow> local_actor \<Rightarrow> bool outcome_of option" where
  "cache_loop 0 E s = None"
| "cache_loop (Suc k) E s = (case get_behavior s of None \<Rightarrow> None
     | Some b \<Rightarrow> (case invoke_from_cache E b (awaited_response_id s) s of
         (Inl ex, s1) \<Rightarrow> Some (Inl ex, s1)
       | (Inr False, s1) \<Rightarrow> Some (Inr False, s1)
       | (Inr True, s1) \<Rightarrow> (case actor_done E s1 of
           (True, s2) \<Rightarrow> Some (Inr True, s2)
         | (False, s2) \<Rightarrow> cache_loop k E s2)))"

definition reset_timeout_if_needed :: "env \<Rightarrow> bool \<Rightarrow> local_actor \<Rightarrow> local_actor option" where
  "reset_timeout_if_needed E handled s =
     (if handled \<and> has_behavior s
      then Option.bind (get_behavior s) (\<lambda>b. Option.bind (timeout_of E b) (\<lambda>d. Some (snd (request_timeout d s))))
      else Some s)"

text \<open>One round of the message loop on a popped element.\<close>

definition handle_one :: "env \<Rightarrow> mailbox_element \<Rightarrow> local_actor \<Rightarrow> (bool \<times> bool) outcome_of option" where
  "handle_one E e s = (case get_behavior s of None \<Rightarrow> None
     | Some b \<Rightarrow> (case invoke_message E e b (awaited_response_id s) s of
         (Inl ex, s1) \<Rightarrow> Some (Inl ex, s1)
       | (Inr (im_success, _), s1) \<Rightarrow>
           (case actor_done E (stack_cleanup s1) of
              (True, s2) \<Rightarrow> Some (Inr (True, True), s2)
            | (False, s2) \<Rightarrow>
                (case cache_loop (Suc (length (cache_second (mailbox s2)))) E s2 of
                   None \<Rightarrow> None
                 | Some (Inl ex, s3) \<Rightarrow> Some (Inl ex, s3)
                 | Some (Inr finished, s3) \<Rightarrow> Some (Inr (finished, True), s3)))
       | (Inr (im_skipped, Some e'), s1) \<Rightarrow> Some (Inr (False, False), push_to_cache e' s1)
       | (Inr (im_skipped, None), s1) \<Rightarrow> None
       | (Inr (im_dropped, _), s1) \<Rightarrow> Some (Inr (False, False), s1)))"

fun message_loop :: "nat \<Rightarrow> env \<Rightarrow> bool \<Rightarrow> local_actor \<Rightarrow> resume_result outcome_of option" where
  "message_loop 0 E handled s = (case reset_timeout_if_needed E handled s of None \<Rightarrow> None
     | Some s1 \<Rightarrow>
         if \<not> has_next_message s1 then
           (case try_block (mailbox s1) of
              (True, q) \<Rightarrow> Some (Inr awaiting_message, s1\<lparr>mailbox := q\<rparr>)
            | (False, q) \<Rightarrow> Some (Inr resume_later, s1\<lparr>mailbox := q\<rparr>))
         else Some (Inr resume_later, s1))"
| "message_loop (Suc i) E handled s = (case next_message s of
     None \<Rightarrow> None
   | Some (Some e, s1) \<Rightarrow>
       (case handle_one E e s1 of
          None \<Rightarrow> None
        | Some (Inl ex, s2) \<Rightarrow> Some (Inl ex, s2)
        | Some (Inr (True, _), s2) \<Rightarrow> Some (Inr done_result, s2)
        | Some (Inr (False, h), s2) \<Rightarrow> message_loop i E (handled \<or> h) s2)
   | Some (None, s1) \<Rightarrow>
       (case reset_timeout_if_needed E handled s1 of None \<Rightarrow> None
        | Some s2 \<Rightarrow>
            (case try_block (mailbox s2) of
               (True, q) \<Rightarrow> Some (Inr awaiting_message, s2\<lparr>mailbox := q\<rparr>)
             | (False, q) \<Rightarrow> message_loop i E handled (s2\<lparr>mailbox := q\<rparr>))))"

text \<open>The exception handlers around the loop.\<close>

definition exn_reason :: "exn \<Rightarrow> u32" where
  "exn_reason ex = (case ex of Actor_Exited r \<Rightarrow> r | Std_Exception \<Rightarrow> unhandled_exception)"

definition after_exception :: "env \<Rightarrow> exn \<Rightarrow> local_actor \<Rightarrow> resume_result \<times> local_actor" where
  "after_exception E ex s =
     (let s1 = (if exit_rsn (self_state s) = not_exited then snd (quit (exn_reason ex) s) else s);
          s2 = (case ex of Actor_Exited _ \<Rightarrow> s1
                | Std_Exception \<Rightarrow> (case handle_eptr (exception_handler E ex) (sys s1) (me s1) of
                    Some r \<Rightarrow> s1\<lparr>planned_exit_reason := r\<rparr> | None \<Rightarrow> s1))
      in case actor_done E s2 of (True, s3) \<Rightarrow> (done_result, s3) | (False, s3) \<Rightarrow> (resume_later, s3))"

text \<open>
  Blocking actors run their body to the end. A missing exit reason of the exception handlers is
  dereferenced without a check (None).
\<close>

definition resume_blocking :: "env \<Rightarrow> local_actor \<Rightarrow> (resume_result \<times> local_actor) option" where
  "resume_blocking E s = (case run_act E s of
     (r, s1) \<Rightarrow>
       Option.bind (case r of
           Inr _ \<Rightarrow> Some exit_normal
         | Inl (Actor_Exited rsn) \<Rightarrow> Some rsn
         | Inl Std_Exception \<Rightarrow> handle_eptr (exception_handler E Std_Exception) (sys s1) (me s1))
         (\<lambda>rsn. let s2 = on_exit E (s1\<lparr>planned_exit_reason := rsn\<rparr>)
                 in Some (done_result, local_cleanup (planned_exit_reason s2) s2)))"

text \<open>Actors that share the threads of the scheduler are resumed for a bounded number of messages.\<close>

definition resume_scheduled :: "env \<Rightarrow> nat \<Rightarrow> local_actor \<Rightarrow> (resume_result \<times> local_actor) option" where
  "resume_scheduled E max_throughput s =
     (let start = (if flag is_initialized_flag s then Some (Inr False, s)
                   else (case initialize E s of
                           (Inl ex, s1) \<Rightarrow> Some (Inl ex, s1)
                         | (Inr _, s1) \<Rightarrow> (case actor_done E s1 of (d, s2) \<Rightarrow> Some (Inr d, s2))))
      in case start of
           None \<Rightarrow> None
         | Some (Inl ex, s1) \<Rightarrow> Some (after_exception E ex s1)
         | Some (Inr True, s1) \<Rightarrow> Some (done_result, s1)
         | Some (Inr False, s1) \<Rightarrow>
             (case message_loop max_throughput E False s1 of
                None \<Rightarrow> None
              | Some (Inl ex, s2) \<Rightarrow> Some (after_exception E ex s2)
              | Some (Inr r, s2) \<Rightarrow> Some (r, s2)))"

definition resume :: "env \<Rightarrow> nat \<Rightarrow> local_actor \<Rightarrow> (resume_result \<times> local_actor) option" where
  "resume E max_throughput s =
     (if flag is_blocking_flag s then resume_blocking E s else resume_scheduled E max_throughput s)"

text \<open>dequeue of blocking actors: one element at a time; the fuel bounds the elements looked at.\<close>

fun dequeue_loop :: "nat \<Rightarrow> env \<Rightarrow> bhvr \<Rightarrow> message_id \<Rightarrow> u32 \<Rightarrow> local_actor \<Rightarrow> unit outcome_of option" where
  "dequeue_loop 0 E b awaited tid s = None"
| "dequeue_loop (Suc k) E b awaited tid s = (case next_message s of
     None \<Rightarrow> None
   | Some (None, s1) \<Rightarrow> None
   | Some (Some e, s1) \<Rightarrow> (case invoke_message E e b awaited s1 of
       (Inl ex, s2) \<Rightarrow> Some (Inl ex, s2)
     | (Inr (im_success, _), s2) \<Rightarrow>
         Some (Inr (), if awaited = invalid_message_id then reset_timeout tid s2 else s2)
     | (Inr (im_skipped, Some e'), s2) \<Rightarrow> dequeue_loop k E b awaited tid (push_to_cache e' s2)
     | (Inr (im_skipped, None), s2) \<Rightarrow> dequeue_loop k E b awaited tid s2
     | (Inr (im_dropped, _), s2) \<Rightarrow> dequeue_loop k E b awaited tid s2))"

definition dequeue :: "nat \<Rightarrow> env \<Rightarrow> bhvr \<Rightarrow> message_id \<Rightarrow> local_actor \<Rightarrow> unit outcome_of option" where
  "dequeue k E b awaited s = (case invoke_from_cache E b awaited s of
     (Inl ex, s1) \<Rightarrow> Some (Inl ex, s1)
   | (Inr True, s1) \<Rightarrow> Some (Inr (), s1)
   | (Inr False, s1) \<Rightarrow> (case timeout_of E b of None \<Rightarrow> None
       | Some d \<Rightarrow>
           (let (tid, s2) = (if awaited = invalid_message_id then request_timeout d s1
                             else (0, request_sync_timeout_msg d awaited s1))
            in dequeue_loop k E b awaited tid s2)))"

end
