(* ===== verification/Local_Actor_Mailbox.thy ===== *)
theory Local_Actor_Mailbox
  imports Local_Actor
begin

text \<open>
  The order in which a local actor sees its messages: next\_message of priority-aware actors is a
  stable priority queue over mailbox and cache, and push\_to\_cache keeps skipped messages in the same
  order.
\<close>

section \<open>Partitioned lists\<close>

fun partitioned :: "('a \<Rightarrow> bool) \<Rightarrow> 'a list \<Rightarrow> bool" where
  "partitioned P [] = True"
| "partitioned P (x # xs) = (if P x then partitioned P xs else list_all (\<lambda>y. \<not> P y) xs)"

abbreviation prio_order :: "('a \<Rightarrow> bool) \<Rightarrow> 'a list \<Rightarrow> 'a list" where
  "prio_order P xs \<equiv> filter P xs @ filter (\<lambda>x. \<not> P x) xs"

lemma filter_none: "list_all (\<lambda>y. \<not> P y) xs \<Longrightarrow> filter P xs = [] \<and> filter (\<lambda>y. \<not> P y) xs = xs"
  by (induction xs) auto

lemma filter_all: "list_all P xs \<Longrightarrow> filter P xs = xs \<and> filter (\<lambda>y. \<not> P y) xs = []"
  by (induction xs) auto

lemma partitioned_filters: "partitioned P xs \<Longrightarrow> prio_order P xs = xs"
proof (induction xs)
  case (Cons x xs)
  then show ?case using filter_none [of P xs] by (cases "P x") auto
qed simp

lemma partitioned_split:
  assumes "list_all P hs" and "list_all (\<lambda>y. \<not> P y) ls"
  shows "partitioned P (hs @ ls)"
  using assms
proof (induction hs)
  case Nil
  then show ?case by (cases ls) auto
qed auto

lemma partitionedE:
  assumes "partitioned P xs"
  obtains hs ls where "xs = hs @ ls" and "list_all P hs" and "list_all (\<lambda>y. \<not> P y) ls"
  using partitioned_filters [OF assms] that [of "filter P xs" "filter (\<lambda>y. \<not> P y) xs"]
  by (simp add: list_all_iff)

section \<open>The binary search\<close>

lemma partition_point_split:
  assumes "list_all P hs" and "list_all (\<lambda>y. \<not> P y) ls"
  shows "f \<le> length hs \<Longrightarrow> length hs \<le> f + n \<Longrightarrow> f + n \<le> length (hs @ ls) \<Longrightarrow>
    partition_point P (hs @ ls) f n = length hs"
proof (induction n arbitrary: f rule: less_induct)
  case (less n)
  show ?case
  proof (cases "n = 0")
    case True
    then show ?thesis using less.prems by (subst partition_point.simps) simp
  next
    case False
    let ?h = "n div 2"
    have m: "f + ?h < length (hs @ ls)" using False less.prems(3) by (simp add: less_le_trans)
    have P: "P ((hs @ ls) ! (f + ?h)) \<longleftrightarrow> f + ?h < length hs"
      using assms m by (auto simp: list_all_length nth_append)
    show ?thesis
    proof (cases "f + ?h < length hs")
      case True
      have "partition_point P (hs @ ls) (Suc (f + ?h)) (n - ?h - 1) = length hs"
        using False True less.prems by (intro less.IH) auto
      then show ?thesis using False True m P by (subst partition_point.simps) (simp add: Let_def)
    next
      case F: False
      have "partition_point P (hs @ ls) f ?h = length hs"
        using False F less.prems by (intro less.IH) auto
      then show ?thesis using False F m P by (subst partition_point.simps) (simp add: Let_def)
    qed
  qed
qed

section \<open>The priority queue\<close>

text \<open>All messages a priority-aware actor has not looked at yet, in delivery order.\<close>

definition delivery_order :: "mailbox_element srq \<Rightarrow> mailbox_element list" where
  "delivery_order q = prio_order elem_high_priority (cache_first q @ contents q)"

definition wf_mailbox :: "mailbox_element srq \<Rightarrow> bool" where
  "wf_mailbox q \<longleftrightarrow> wf_srq q \<and> \<not> closed q \<and> partitioned elem_high_priority (cache_first q)
     \<and> partitioned elem_high_priority (cache_second q)"

text \<open>The loop puts highs in front of the old elements, which are all low, and lows at the end.\<close>

lemma fetch_loop_result:
  assumes "wf_srq q" and "\<not> closed q" and "length (contents q) < k"
    and "cache_first q = hs @ ls" and "list_all elem_high_priority hs" and "list_all (\<lambda>e. \<not> elem_high_priority e) ls"
  shows "\<exists>q'. fetch_loop k (length hs) q = Some q' \<and> wf_srq q' \<and> \<not> closed q' \<and> contents q' = []
    \<and> cache_second q' = cache_second q
    \<and> cache_first q' = hs @ filter elem_high_priority (contents q) @ ls
        @ filter (\<lambda>e. \<not> elem_high_priority e) (contents q)"
  using assms
proof (induction k arbitrary: q hs ls)
  case (Suc k)
  obtain r q1 where p: "try_pop q = Some (r, q1)" "wf_srq q1" "\<not> closed q1"
    "cache_first q1 = cache_first q" "cache_second q1 = cache_second q"
    "case contents q of [] \<Rightarrow> r = None \<and> contents q1 = [] | x # xs \<Rightarrow> r = Some x \<and> contents q1 = xs"
    using try_pop_cases [OF Suc.prems(1,2)] by blast
  show ?case
  proof (cases "contents q")
    case Nil
    then show ?thesis using p Suc.prems(4) by simp
  next
    case (Cons e es)
    then have r: "r = Some e" "contents q1 = es" using p(6) by simp_all
    let ?q2 = "\<lambda>xs. q1\<lparr>cache_first := xs\<rparr>"
    have q2: "wf_srq (?q2 xs)" "\<not> closed (?q2 xs)" "contents (?q2 xs) = es" for xs
      using p(2,3) r(2) by (simp_all add: wf_srq_def closed_def contents_def)
    show ?thesis
    proof (cases "elem_high_priority e")
      case True
      have "\<exists>q'. fetch_loop k (length (hs @ [e])) (?q2 (hs @ e # ls)) = Some q' \<and> wf_srq q' \<and> \<not> closed q'
          \<and> contents q' = [] \<and> cache_second q' = cache_second (?q2 (hs @ e # ls))
          \<and> cache_first q' = (hs @ [e]) @ filter elem_high_priority (contents (?q2 (hs @ e # ls))) @ ls
              @ filter (\<lambda>e. \<not> elem_high_priority e) (contents (?q2 (hs @ e # ls)))"
        using Suc.prems q2 True Cons by (intro Suc.IH) auto
      then show ?thesis using p r Suc.prems(4) True Cons q2 by simp
    next
      case False
      have "\<exists>q'. fetch_loop k (length hs) (?q2 (hs @ ls @ [e])) = Some q' \<and> wf_srq q' \<and> \<not> closed q'
          \<and> contents q' = [] \<and> cache_second q' = cache_second (?q2 (hs @ ls @ [e]))
          \<and> cache_first q' = hs @ filter elem_high_priority (contents (?q2 (hs @ ls @ [e]))) @ (ls @ [e])
              @ filter (\<lambda>e. \<not> elem_high_priority e) (contents (?q2 (hs @ ls @ [e])))"
        using Suc.prems q2 False Cons by (intro Suc.IH) auto
      then show ?thesis using p r Suc.prems(4) False Cons q2 by simp
    qed
  qed
qed simp

lemma next_message_fetched:
  assumes "wf_mailbox (mailbox s)"
  shows "\<exists>q. (if cache_first (mailbox s) = [] \<or> \<not> elem_high_priority (hd (cache_first (mailbox s)))
        then fetch_loop (Suc (length (contents (mailbox s)))) 0 (mailbox s) else Some (mailbox s)) = Some q
      \<and> wf_mailbox q \<and> cache_second q = cache_second (mailbox s)
      \<and> delivery_order q = delivery_order (mailbox s)
      \<and> (case delivery_order (mailbox s) of [] \<Rightarrow> cache_first q = [] | e # es \<Rightarrow> cache_first q \<noteq> [] \<and> hd (cache_first q) = e)"
proof (cases "cache_first (mailbox s) = [] \<or> \<not> elem_high_priority (hd (cache_first (mailbox s)))")
  case True
  let ?q = "mailbox s"
  let ?hs = "filter elem_high_priority (contents ?q)"
  let ?ls = "filter (\<lambda>e. \<not> elem_high_priority e) (contents ?q)"
  have low: "list_all (\<lambda>e. \<not> elem_high_priority e) (cache_first ?q)"
    using True assms by (cases "cache_first ?q") (auto simp: wf_mailbox_def)
  obtain q where q: "fetch_loop (Suc (length (contents ?q))) 0 ?q = Some q" "wf_srq q" "\<not> closed q" "contents q = []"
    "cache_second q = cache_second ?q" "cache_first q = ?hs @ cache_first ?q @ ?ls"
    using fetch_loop_result [of ?q "Suc (length (contents ?q))" "[]" "cache_first ?q"] assms low
    by (auto simp: wf_mailbox_def)
  have part: "partitioned elem_high_priority (cache_first q)"
    unfolding q(6) using low by (intro partitioned_split) (auto simp: list_all_iff)
  have d: "delivery_order ?q = cache_first q" "delivery_order q = cache_first q"
    using filter_none [OF low] partitioned_filters [OF part] q(4,6) by (simp_all add: delivery_order_def)
  show ?thesis using True q part d assms
    by (auto simp: wf_mailbox_def split: list.splits)
next
  case False
  then obtain e es where e: "cache_first (mailbox s) = e # es" "elem_high_priority e"
    by (cases "cache_first (mailbox s)") auto
  then show ?thesis using False assms by (auto simp: delivery_order_def)
qed

text \<open>Taking the front element off.\<close>

lemma delivery_order_tail:
  assumes "wf_mailbox q" and "cache_first q = e # es" and "hd (delivery_order q) = e"
  shows "delivery_order (q\<lparr>cache_first := es\<rparr>) = tl (delivery_order q)" and "wf_mailbox (q\<lparr>cache_first := es\<rparr>)"
proof -
  have c: "contents (q\<lparr>cache_first := es\<rparr>) = contents q" by (simp add: contents_def)
  show "wf_mailbox (q\<lparr>cache_first := es\<rparr>)"
    using assms(1,2) by (cases es) (auto simp: wf_mailbox_def wf_srq_def closed_def split: if_splits)
  show "delivery_order (q\<lparr>cache_first := es\<rparr>) = tl (delivery_order q)"
  proof (cases "elem_high_priority e")
    case True
    then show ?thesis using assms(2) c by (simp add: delivery_order_def)
  next
    case False
    have "filter elem_high_priority (cache_first q @ contents q) = []"
    proof (rule ccontr)
      assume "filter elem_high_priority (cache_first q @ contents q) \<noteq> []"
      then obtain a as where "filter elem_high_priority (cache_first q @ contents q) = a # as"
        by (cases "filter elem_high_priority (cache_first q @ contents q)") auto
      then have "elem_high_priority (hd (delivery_order q))"
        using filter_eq_ConsD [of elem_high_priority "cache_first q @ contents q" a as]
        unfolding delivery_order_def by (auto simp del: filter_append)
      with assms(3) False show False by simp
    qed
    then show ?thesis using assms(2) False c by (simp add: delivery_order_def)
  qed
qed

section \<open>Message sources\<close>

text \<open>
  What the message loop relies on: fetching takes the front of the delivery order until nothing is
  left.
\<close>

locale message_source =
  fixes inv :: "'s \<Rightarrow> bool" and order :: "'s \<Rightarrow> 'a list" and fetch :: "'s \<Rightarrow> ('a option \<times> 's) option"
  assumes fetch_front: "inv s \<Longrightarrow> \<exists>r s'. fetch s = Some (r, s') \<and> inv s'
    \<and> (case order s of [] \<Rightarrow> r = None \<and> order s' = [] | x # xs \<Rightarrow> r = Some x \<and> order s' = xs)"
begin

lemma fetch_all:
  "inv s \<Longrightarrow> \<exists>s'. pop_list fetch n s = Some (take n (order s), s') \<and> order s' = drop n (order s) \<and> inv s'"
proof (induction n arbitrary: s)
  case (Suc n)
  obtain r s1 where f: "fetch s = Some (r, s1)" "inv s1"
    "case order s of [] \<Rightarrow> r = None \<and> order s1 = [] | x # xs \<Rightarrow> r = Some x \<and> order s1 = xs"
    using fetch_front [OF Suc.prems] by blast
  from Suc.IH [OF f(2)] f show ?case by (cases "order s") auto
qed simp

end

definition prio_inv :: "local_actor \<Rightarrow> bool" where
  "prio_inv s \<longleftrightarrow> flag is_priority_aware_flag s \<and> wf_mailbox (mailbox s)"

definition plain_inv :: "local_actor \<Rightarrow> bool" where
  "plain_inv s \<longleftrightarrow> \<not> flag is_priority_aware_flag s \<and> wf_srq (mailbox s) \<and> \<not> closed (mailbox s)"

interpretation plain: message_source plain_inv "\<lambda>s. contents (mailbox s)" next_message
proof
  fix s
  assume i: "plain_inv s"
  then obtain r q where "try_pop (mailbox s) = Some (r, q)" "wf_srq q" "\<not> closed q"
    "case contents (mailbox s) of [] \<Rightarrow> r = None \<and> contents q = [] | x # xs \<Rightarrow> r = Some x \<and> contents q = xs"
    using try_pop_cases [of "mailbox s"] unfolding plain_inv_def by blast
  then show "\<exists>r s'. next_message s = Some (r, s') \<and> plain_inv s'
    \<and> (case contents (mailbox s) of [] \<Rightarrow> r = None \<and> contents (mailbox s') = []
       | x # xs \<Rightarrow> r = Some x \<and> contents (mailbox s') = xs)"
    using i by (simp add: next_message_def plain_inv_def flag_def split: list.splits)
qed

interpretation prio: message_source prio_inv "\<lambda>s. delivery_order (mailbox s)" next_message
proof
  fix s
  assume i: "prio_inv s"
  let ?d = "delivery_order (mailbox s)"
  obtain q where q: "(if cache_first (mailbox s) = [] \<or> \<not> elem_high_priority (hd (cache_first (mailbox s)))
        then fetch_loop (Suc (length (contents (mailbox s)))) 0 (mailbox s) else Some (mailbox s)) = Some q"
    "wf_mailbox q" "delivery_order q = ?d"
    "case ?d of [] \<Rightarrow> cache_first q = [] | e # es \<Rightarrow> cache_first q \<noteq> [] \<and> hd (cache_first q) = e"
    using next_message_fetched [of s] i unfolding prio_inv_def by blast
  have n: "next_message s = (case cache_first q of [] \<Rightarrow> Some (None, s\<lparr>mailbox := q\<rparr>)
      | e # es \<Rightarrow> Some (Some e, s\<lparr>mailbox := q\<lparr>cache_first := es\<rparr>\<rparr>))"
    using i q(1) by (simp add: next_message_def prio_inv_def Let_def)
  show "\<exists>r s'. next_message s = Some (r, s') \<and> prio_inv s'
    \<and> (case ?d of [] \<Rightarrow> r = None \<and> delivery_order (mailbox s') = []
       | x # xs \<Rightarrow> r = Some x \<and> delivery_order (mailbox s') = xs)"
  proof (cases ?d)
    case Nil
    then show ?thesis using n q i by (simp add: prio_inv_def flag_def)
  next
    case (Cons e es)
    then obtain xs where c: "cache_first q = e # xs" using q(4) by (cases "cache_first q") auto
    have "hd (delivery_order q) = e" using q(3) Cons by simp
    from delivery_order_tail [OF q(2) c this] show ?thesis
      using n c Cons q(3) i by (simp add: prio_inv_def flag_def)
  qed
qed

section \<open>Properties\<close>

text \<open>
  C24: The messages a local actor fetches come in a fixed order and none is lost or repeated:
  fetching n times returns the first n messages of the mailbox in arrival order, and for
  priority-aware actors all messages of high priority before all others, each group in arrival
  order, however fetching and caching are interleaved with earlier fetches.
\<close>

theorem next_message_order:
  assumes "plain_inv s" and "prio_inv t"
  shows "(\<exists>s'. pop_list next_message n s = Some (take n (contents (mailbox s)), s')
      \<and> contents (mailbox s') = drop n (contents (mailbox s)) \<and> plain_inv s')
    \<and> (\<exists>t'. pop_list next_message n t = Some (take n (delivery_order (mailbox t)), t')
      \<and> delivery_order (mailbox t') = drop n (delivery_order (mailbox t)) \<and> prio_inv t')"
  using plain.fetch_all [OF assms(1)] prio.fetch_all [OF assms(2)] by blast

text \<open>A fresh actor, with or without priority awareness, and three messages in its mailbox.\<close>

definition fresh_actor :: "bool \<Rightarrow> local_actor" where
  "fresh_actor prio_aware = \<lparr>me = 1,
     sys = set_actor 1 (aflags_update (set_flag prio_aware is_priority_aware_flag)) sample_world,
     planned_exit_reason = not_exited, timeout_id = 0, last_request_id = invalid_message_id,
     pending_responses = [], bhvr_elements = [], bhvr_erased = [], mailbox = srq_init,
     current_element = None, sync_failure_handler = None\<rparr>"

definition sample_mail :: "mailbox_element list" where
  "sample_mail = [make_element (Some 2) (make_mid normal) [U16 1], make_element (Some 2) (make_mid high) [U16 2],
     make_element (Some 2) (make_mid normal) [U16 3]]"

definition with_mail :: "local_actor \<Rightarrow> local_actor" where
  "with_mail s = s\<lparr>mailbox := (mailbox s)\<lparr>stk := Elems (rev sample_mail)\<rparr>\<rparr>"

lemma fresh_priority: "flag is_priority_aware_flag (with_mail (fresh_actor p)) = p"
  by (simp add: flag_def with_mail_def fresh_actor_def get_flag_def set_flag_def is_priority_aware_flag_def
      sample_world_def new_actor_def is_abstract_actor_flag_def)

theorem next_message_order_witness:
  "(\<exists>s'. pop_list next_message 2 (with_mail (fresh_actor False)) = Some (take 2 sample_mail, s'))
   \<and> (\<exists>t'. pop_list next_message 2 (with_mail (fresh_actor True)) = Some ([sample_mail ! 1, sample_mail ! 0], t'))"
proof -
  have c: "contents (mailbox (with_mail (fresh_actor p))) = sample_mail" "cache_first (mailbox (with_mail (fresh_actor p))) = []"
    "cache_second (mailbox (with_mail (fresh_actor p))) = []" for p
    by (simp_all add: with_mail_def fresh_actor_def srq_init_def contents_def)
  have w: "wf_srq (mailbox (with_mail (fresh_actor p)))" "\<not> closed (mailbox (with_mail (fresh_actor p)))" for p
    by (simp_all add: with_mail_def fresh_actor_def srq_init_def wf_srq_def closed_def sample_mail_def)
  have i: "plain_inv (with_mail (fresh_actor False))" "prio_inv (with_mail (fresh_actor True))"
    using w c fresh_priority by (simp_all add: plain_inv_def prio_inv_def wf_mailbox_def)
  have h: "is_high_priority (make_mid high)" "\<not> is_high_priority (make_mid normal)" by code_simp+
  have d: "delivery_order (mailbox (with_mail (fresh_actor True))) = [sample_mail ! 1, sample_mail ! 0, sample_mail ! 2]"
    unfolding delivery_order_def c using h by (simp add: sample_mail_def elem_high_priority_def make_element_def)
  show ?thesis using next_message_order [OF i, of 2] unfolding c d by auto
qed

text \<open>
  Skipped messages are kept in the cache in the same order: push_to_cache appends for ordinary
  actors; for priority-aware actors the cache stays partitioned, the new element is put behind the
  elements of its own class, and the order of the others does not change.
\<close>

lemma push_to_cache_order:
  assumes "partitioned elem_high_priority (cache_second (mailbox s))"
  shows "cache_second (mailbox (push_to_cache e s)) =
      (if flag is_priority_aware_flag s
       then filter elem_high_priority (cache_second (mailbox s) @ [e])
         @ filter (\<lambda>x. \<not> elem_high_priority x) (cache_second (mailbox s) @ [e])
       else cache_second (mailbox s) @ [e])
    \<and> (flag is_priority_aware_flag s \<longrightarrow> partitioned elem_high_priority (cache_second (mailbox (push_to_cache e s))))
    \<and> contents (mailbox (push_to_cache e s)) = contents (mailbox s)
    \<and> cache_first (mailbox (push_to_cache e s)) = cache_first (mailbox s)"
proof -
  obtain hs ls where c: "cache_second (mailbox s) = hs @ ls" "list_all elem_high_priority hs"
    "list_all (\<lambda>x. \<not> elem_high_priority x) ls" using assms by (rule partitionedE)
  have p: "partition_point elem_high_priority (hs @ ls) 0 (length (hs @ ls)) = length hs"
    using partition_point_split [OF c(2,3), of 0 "length (hs @ ls)"] by simp
  have r: "cache_second (mailbox (push_to_cache e s)) =
      (if flag is_priority_aware_flag s then (if elem_high_priority e then hs @ [e] @ ls else hs @ ls @ [e])
       else hs @ ls @ [e])"
    using c p by (simp add: push_to_cache_def Let_def)
  have f: "filter elem_high_priority hs = hs" "filter (\<lambda>x. \<not> elem_high_priority x) hs = []"
    "filter elem_high_priority ls = []" "filter (\<lambda>x. \<not> elem_high_priority x) ls = ls"
    using filter_all [OF c(2)] filter_none [OF c(3)] by simp_all
  have "partitioned elem_high_priority ((hs @ [e]) @ ls)" if "elem_high_priority e"
    using that c by (intro partitioned_split) (auto simp: list_all_iff)
  moreover have "partitioned elem_high_priority (hs @ (ls @ [e]))" if "\<not> elem_high_priority e"
    using that c by (intro partitioned_split) (auto simp: list_all_iff)
  ultimately show ?thesis using r f c(1)
    by (auto simp: push_to_cache_def Let_def contents_def)
qed

lemma push_to_cache_order_witness:
  "cache_second (mailbox (push_to_cache (sample_mail ! 1) (push_to_cache (sample_mail ! 0) (fresh_actor False))))
   = [sample_mail ! 0, sample_mail ! 1]"
proof -
  have p: "\<not> flag is_priority_aware_flag (fresh_actor False)"
    using fresh_priority [of False] by (simp add: with_mail_def flag_def)
  have f: "flag f (push_to_cache e s) = flag f s" for f e s by (simp add: push_to_cache_def flag_def Let_def)
  have e: "cache_second (mailbox (fresh_actor False)) = []" by (simp add: fresh_actor_def srq_init_def)
  have 1: "cache_second (mailbox (push_to_cache (sample_mail ! 0) (fresh_actor False))) = [sample_mail ! 0]"
    using push_to_cache_order [of "fresh_actor False" "sample_mail ! 0"] p e by simp
  show ?thesis
    using push_to_cache_order [of "push_to_cache (sample_mail ! 0) (fresh_actor False)" "sample_mail ! 1"] 1 p f by simp
qed

end
