(* ===== verification/Local_Actor_Requests.thy ===== *)
theory Local_Actor_Requests
  imports Local_Actor_Mailbox
begin

text \<open>
  Requests and their responses, timeouts, exit signals and termination of local actors: which ids an
  actor awaits, that a response reaches its handler once, that every request found in the mailbox of
  a terminating actor is answered once, and what the filter does with exit messages.
\<close>

section \<open>Frame facts\<close>

lemma flag_put_flag:
  "f \<in> set actor_flags \<Longrightarrow> g \<in> set actor_flags \<Longrightarrow> flag f (put_flag g v s) = (if f = g then v else flag f s)"
  by (simp add: flag_def put_flag_def get_set_flag)

lemma flags_differ [simp]:
  "is_detached_flag \<noteq> has_timeout_flag" "is_blocking_flag \<noteq> has_timeout_flag" "trap_exit_flag \<noteq> has_timeout_flag"
  by (simp_all add: flag_defs)

lemma put_flag_fields [simp]:
  "timeout_id (put_flag f v s) = timeout_id s" "pending_responses (put_flag f v s) = pending_responses s"
  "last_request_id (put_flag f v s) = last_request_id s" "me (put_flag f v s) = me s"
  "bhvr_elements (put_flag f v s) = bhvr_elements s" "mailbox (put_flag f v s) = mailbox s"
  "current_element (put_flag f v s) = current_element s"
  by (simp_all add: put_flag_def)

lemma post_fields [simp]:
  "timeout_id (post d a i m s) = timeout_id s" "pending_responses (post d a i m s) = pending_responses s"
  "last_request_id (post d a i m s) = last_request_id s" "me (post d a i m s) = me s"
  "bhvr_elements (post d a i m s) = bhvr_elements s" "mailbox (post d a i m s) = mailbox s"
  "flag f (post d a i m s) = flag f s"
  by (simp_all add: post_def flag_def)

lemma send_impl_fields [simp]:
  "pending_responses (send_impl i d m s) = pending_responses s"
  "last_request_id (send_impl i d m s) = last_request_id s" "flag f (send_impl i d m s) = flag f s"
  by (simp_all add: send_impl_def)

lemma in_actor_flags [simp]:
  "has_timeout_flag \<in> set actor_flags" "is_detached_flag \<in> set actor_flags" "is_blocking_flag \<in> set actor_flags"
  "trap_exit_flag \<in> set actor_flags" "is_priority_aware_flag \<in> set actor_flags"
  by (simp_all add: actor_flags_def)

lemma local_enqueue_fields [simp]:
  "timeout_id (local_enqueue e s) = timeout_id s" "pending_responses (local_enqueue e s) = pending_responses s"
  "flag f (local_enqueue e s) = flag f s"
  by (auto simp: local_enqueue_def flag_def bounce_def Let_def split: prod.splits enqueue_result.splits)

lemma mailbox_local_enqueue:
  assumes "mailbox t = mailbox s" and "flag is_detached_flag t = flag is_detached_flag s"
  shows "mailbox (local_enqueue e t) = mailbox (local_enqueue e s)"
  unfolding local_enqueue_def assms
  by (cases "flag is_detached_flag s") (auto simp: Let_def split: prod.splits enqueue_result.splits)

text \<open>The messages a send to an address produces.\<close>

definition posted :: "(nat \<Rightarrow> actor_kind) \<Rightarrow> actor_addr \<Rightarrow> actor_addr \<Rightarrow> message_id \<Rightarrow> elem list \<Rightarrow> event list" where
  "posted K dest from i m = (case dest of None \<Rightarrow> [] | Some a \<Rightarrow> (case K a of
     Local \<Rightarrow> [Enqueue a from i m]
   | Proxy None \<Rightarrow> []
   | Proxy (Some mgr) \<Rightarrow> [Enqueue mgr None invalid_message_id
       [Atom (forward_atom std_atoms), Addr from, Addr (Some a), Mid i, Msg m]]))"

lemma log_enqueue_addr: "log (enqueue_addr std_atoms d a i m w) = log w @ posted (kinds w) d a i m"
  by (auto simp: enqueue_addr_def enqueue_to_def forward_msg_def posted_def address_def
      split: option.splits actor_kind.splits)

section \<open>Timeouts\<close>

text \<open>
  request_timeout hands out an id that never fires: for a valid duration the message it arranges
  carries the active timeout id, but the id it returns is never the active one, so that resetting
  the returned id, as dequeue does after it received a message, has no effect and the timeout stays
  armed. An invalid duration disarms the timeout.
\<close>

lemma request_timeout_id_inactive:
  "case request_timeout d s of (tid, t) \<Rightarrow>
     (if duration_valid d then
        \<not> is_active_timeout tid t \<and> is_active_timeout (tid + 1) t \<and> reset_timeout tid t = t
        \<and> (if duration_is_zero d
           then mailbox t = mailbox (local_enqueue (make_element (address (me s)) invalid_message_id [Timeout (tid + 1)]) s)
           else log (sys t) = log (sys s)
             @ [Delayed d (me s) (address (me s)) invalid_message_id [Timeout (tid + 1)]])
      else tid = 0 \<and> \<not> flag has_timeout_flag t)"
proof -
  have f: "flag g (t\<lparr>timeout_id := x\<rparr>) = flag g t" "flag g (t\<lparr>timeout_id := x, sys := emit ev (sys t)\<rparr>) = flag g t" for g x t ev
    by (simp_all add: flag_def)
  have n: "(x :: u32) + 1 + 1 \<noteq> x + 1" for x by simp
  have q: "mailbox (local_enqueue e (put_flag has_timeout_flag True s\<lparr>timeout_id := x\<rparr>)) = mailbox (local_enqueue e s)" for e x
    by (rule mailbox_local_enqueue) (simp_all add: f flag_put_flag)
  show ?thesis
    using q by (auto simp: request_timeout_def delayed_send_impl_def is_active_timeout_def reset_timeout_def flag_put_flag f Let_def n)
      (simp add: put_flag_def add.assoc)
qed

section \<open>Requests\<close>

text \<open>
  The pending responses of an actor: response ids without flags, each of a request number handed out
  before, no number twice.
\<close>

definition wf_pending :: "local_actor \<Rightarrow> bool" where
  "wf_pending s \<longleftrightarrow> distinct (map fst (pending_responses s))
     \<and> list_all (\<lambda>p. \<exists>r. fst p = response_id r \<and> is_request r \<and> r \<le> last_request_id s) (pending_responses s)"

lemma new_request_id_normal:
  assumes "wf_pending s" and "integer_value (last_request_id s) < request_id_mask"
    and "new_request_id normal s = (i, t)"
  shows "is_request i" and "\<not> is_high_priority i" and "\<not> awaits (response_id i) s"
    and "pending_responses t = (response_id i, Empty_Bhvr) # pending_responses s"
    and "last_request_id t = i" and "wf_pending t"
proof -
  have i: "i = pre_increment (last_request_id s)" "t = s\<lparr>last_request_id := i, pending_responses := (response_id i, Empty_Bhvr) # pending_responses s\<rparr>"
    using assms(3) by (auto simp: new_request_id_def Let_def)
  have b: "is_request i" "\<not> is_high_priority i" "last_request_id s < i"
    using pre_increment_below [OF assms(2)] i(1) by simp_all
  show "is_request i" "\<not> is_high_priority i" using b by simp_all
  show "pending_responses t = (response_id i, Empty_Bhvr) # pending_responses s" "last_request_id t = i"
    using i(2) by simp_all
  have fresh: "response_id i \<notin> fst ` set (pending_responses s)"
  proof
    assume "response_id i \<in> fst ` set (pending_responses s)"
    then obtain r where "response_id i = response_id r" "is_request r" "r \<le> last_request_id s"
      using assms(1) by (fastforce simp: wf_pending_def list_all_iff)
    then show False using b response_id_eq_iff [of i r] by simp
  qed
  then show "\<not> awaits (response_id i) s" by (force simp: awaits_def list_ex_iff)
  have "list_all (\<lambda>p. \<exists>r. fst p = response_id r \<and> is_request r \<and> r \<le> i) (pending_responses s)"
    using assms(1) b(3) unfolding wf_pending_def list_all_iff by (meson dual_order.strict_trans2 less_imp_le)
  then show "wf_pending t" using assms(1) b(1) fresh i(2) by (auto simp: wf_pending_def)
qed

lemma response_id_high: "is_request i \<Longrightarrow> is_high_priority (response_id (with_high_priority i))"
  by (simp add: mid_defs)

text \<open>Ids of high priority are not those that are awaited.\<close>

lemma wf_pending_low: "wf_pending s \<Longrightarrow> integer_value (last_request_id s) < 2 ^ 61 \<Longrightarrow> p \<in> set (pending_responses s)
    \<Longrightarrow> \<not> is_high_priority (fst p)"
proof -
  assume w: "wf_pending s" and l: "integer_value (last_request_id s) < 2 ^ 61" and p: "p \<in> set (pending_responses s)"
  then obtain r where r: "fst p = response_id r" "is_request r" "r \<le> last_request_id s"
    by (auto simp: wf_pending_def list_all_iff)
  then have "integer_value r < 2 ^ 61" using l by (auto simp: less_eq_message_id_def)
  from flag_small [OF this] r(1,2) show ?thesis by (simp add: mid_defs)
qed

lemma sync_send_result:
  assumes "new_request_id mp s = (i, t)"
  shows "sync_send_impl mp (Some a) what s = (Inr (response_id i), send_impl i (Some a) what t)"
    and "log (sys (send_impl i (Some a) what t)) = log (sys s) @ posted (kinds (sys s)) (Some a) (address (me s)) i what"
proof -
  show "sync_send_impl mp (Some a) what s = (Inr (response_id i), send_impl i (Some a) what t)"
    using assms by (simp add: sync_send_impl_def)
  have "sys t = sys s" "me t = me s" using assms by (auto simp: new_request_id_def Let_def)
  then show "log (sys (send_impl i (Some a) what t)) = log (sys s) @ posted (kinds (sys s)) (Some a) (address (me s)) i what"
    by (simp add: send_impl_def post_def log_enqueue_addr)
qed

lemma post_process_some: "fst (post_process_invoke_res (Some m) s) \<noteq> None"
  by (auto simp: post_process_invoke_res_def Let_def split: list.splits option.splits prod.splits bool.splits)

lemma not_awaits_mark_arrived: "\<not> awaits i (mark_arrived i s)"
  by (auto simp: awaits_def mark_arrived_def list_ex_iff)

lemma valid_awaited: "valid (awaited_response_id s) \<Longrightarrow> awaits (awaited_response_id s) s"
  by (cases "pending_responses s") (simp_all add: awaited_response_id_def make_mid_def awaits_def)

text \<open>A response nobody waits for is dropped without any effect.\<close>

lemma expired_response_dropped:
  assumes "is_response (mid e)" and "\<not> awaits (mid e) s"
  shows "invoke_message E e b k s = (Inr (im_dropped, Some e), s)"
  using assms by (simp add: invoke_message_def filter_msg_def bindE_def)

text \<open>
  A response its actor waits for is given to the handler with the response as current element; the
  resulting state is that of the handler and of the post-processing of its result, the current element of before is put
  back and the id is no longer pending. If the handler does not match, the handler for
  synchronous failures runs in its place.
\<close>

lemma awaited_response_handled:
  assumes "awaits (mid e) s" and "is_response (mid e)" and "valid (mid e)" and "content e \<noteq> [Sync_Timeout]"
  shows "invoke_bhvr E b (content e) (s\<lparr>current_element := Some e\<rparr>) = (Inr (Some m), v) \<Longrightarrow>
      post_process_invoke_res (Some m) v = (r, w) \<Longrightarrow>
      invoke_message E e b (mid e) s
        = (Inr (im_success, current_element w), mark_arrived (mid e) (w\<lparr>current_element := current_element s\<rparr>))"
    and "invoke_bhvr E b (content e) (s\<lparr>current_element := Some e\<rparr>) = (Inr None, v) \<Longrightarrow>
      handle_sync_failure E v = (Inr (), w) \<Longrightarrow>
      invoke_message E e b (mid e) s
        = (Inr (im_success, current_element w), mark_arrived (mid e) (w\<lparr>current_element := current_element s\<rparr>))"
proof -
  have i: "invoke_message E e b (mid e) s = invoke_sync_response E e b (mid e) s"
    using assms(1,2) by (simp add: invoke_message_def filter_msg_def bindE_def)
  show "invoke_message E e b (mid e) s
      = (Inr (im_success, current_element w), mark_arrived (mid e) (w\<lparr>current_element := current_element s\<rparr>))"
    if h: "invoke_bhvr E b (content e) (s\<lparr>current_element := Some e\<rparr>) = (Inr (Some m), v)"
      "post_process_invoke_res (Some m) v = (r, w)"
  proof -
    have "r \<noteq> None" using post_process_some [of m v] h(2) by simp
    moreover have "call_handler E b e s = (Inr r, w)" using h by (simp add: call_handler_def bindE_def)
    ultimately show ?thesis using assms(3,4) by (auto simp: i invoke_sync_response_def bindE_def swap_back_def)
  qed
  show "invoke_message E e b (mid e) s
      = (Inr (im_success, current_element w), mark_arrived (mid e) (w\<lparr>current_element := current_element s\<rparr>))"
    if "invoke_bhvr E b (content e) (s\<lparr>current_element := Some e\<rparr>) = (Inr None, v)" "handle_sync_failure E v = (Inr (), w)"
    using assms(3,4) that
    by (simp add: i invoke_sync_response_def bindE_def swap_back_def call_handler_def post_process_invoke_res_def)
qed

text \<open>
  What an actor with state \<open>u\<close> that awaits the response \<open>i\<close> with user behavior \<open>n\<close> does with it: the behavior is
  applied once to the response and the final state is the one it leaves behind (\<open>v\<close>, followed by the
  answer to the request that was being handled, if any), with the response no longer pending.
\<close>

definition response_applied :: "env \<Rightarrow> nat \<Rightarrow> message_id \<Rightarrow> local_actor \<Rightarrow> bool" where
  "response_applied E n i u \<longleftrightarrow> (\<forall>e. mid e = i \<longrightarrow> content e \<noteq> [Sync_Timeout] \<longrightarrow>
     (case invoke_user E n (content e) (u\<lparr>current_element := Some e\<rparr>) of
        (Inl ex, v) \<Rightarrow> invoke_message E e (User n) i u = (Inl ex, v)
      | (Inr (Some m), v) \<Rightarrow>
          (let w = snd (post_process_invoke_res (Some m) v) in
           invoke_message E e (User n) i u
             = (Inr (im_success, current_element w), mark_arrived i (w\<lparr>current_element := current_element u\<rparr>)))
      | (Inr None, v) \<Rightarrow>
          (\<forall>w. handle_sync_failure E v = (Inr (), w) \<longrightarrow> invoke_message E e (User n) i u
             = (Inr (im_success, current_element w), mark_arrived i (w\<lparr>current_element := current_element u\<rparr>)))))"

lemma response_appliedI:
  assumes "awaits i u" and "is_response i" and "valid i"
  shows "response_applied E n i u"
  unfolding response_applied_def
proof (intro allI impI)
  fix e :: mailbox_element assume e: "mid e = i" "content e \<noteq> [Sync_Timeout]"
  note h = awaited_response_handled [of e u E "User n", unfolded e(1) invoke_bhvr.simps, OF assms e(2)]
  have x: "invoke_message E e (User n) i u = (Inl ex, v)"
    if "invoke_user E n (content e) (u\<lparr>current_element := Some e\<rparr>) = (Inl ex, v)" for ex v
    using assms e that by (simp add: invoke_message_def filter_msg_def invoke_sync_response_def call_handler_def bindE_def)
  show "case invoke_user E n (content e) (u\<lparr>current_element := Some e\<rparr>) of
        (Inl ex, v) \<Rightarrow> invoke_message E e (User n) i u = (Inl ex, v)
      | (Inr (Some m), v) \<Rightarrow>
          (let w = snd (post_process_invoke_res (Some m) v) in
           invoke_message E e (User n) i u
             = (Inr (im_success, current_element w), mark_arrived i (w\<lparr>current_element := current_element u\<rparr>)))
      | (Inr None, v) \<Rightarrow>
          (\<forall>w. handle_sync_failure E v = (Inr (), w) \<longrightarrow> invoke_message E e (User n) i u
             = (Inr (im_success, current_element w), mark_arrived i (w\<lparr>current_element := current_element u\<rparr>)))"
    using h x by (auto simp: Let_def split: prod.split sum.split option.split) (metis surjective_pairing)
qed

text \<open>
  C4: As long as the actor has not used up its 2^61 - 1 request numbers, a request of normal priority
  and its response form a round trip. sync_send posts the request
  under a fresh id and the actor awaits exactly the response id it returns; the handler installed
  for that id becomes the active behavior; when the response arrives, the handler is applied to it once, with the
  response as current element, and the actor ends in the state the handler left behind, with the id no longer
  awaited (a handler that does not match is replaced by the handler for synchronous failures, and its exceptions pass through);
  in that state every further message with that id is dropped and leaves the actor untouched.
\<close>

theorem sync_send_roundtrip:
  assumes "wf_pending s" and "integer_value (last_request_id s) < request_id_mask"
  shows "\<exists>r t. sync_send_impl normal (Some a) what s = (Inr (response_id r), t)
    \<and> is_request r \<and> \<not> awaits (response_id r) s \<and> awaits (response_id r) t \<and> wf_pending t
    \<and> log (sys t) = log (sys s) @ posted (kinds (sys s)) (Some a) (address (me s)) r what
    \<and> (\<forall>E n. \<exists>u. set_response_handler E (response_id r) (User n) t = Some u
        \<and> get_behavior u = Some (User n) \<and> awaited_response_id u = response_id r \<and> wf_pending u
        \<and> response_applied E n (response_id r) u)
    \<and> (\<forall>x E e b k. mid e = response_id r \<longrightarrow>
        invoke_message E e b k (mark_arrived (response_id r) x) = (Inr (im_dropped, Some e), mark_arrived (response_id r) x))"
proof -
  obtain i t0 where n: "new_request_id normal s = (i, t0)" by force
  let ?t = "send_impl i (Some a) what t0"
  note ni = new_request_id_normal [OF assms n]
  have pend: "pending_responses ?t = (response_id i, Empty_Bhvr) # pending_responses s" "last_request_id ?t = i"
    using ni by simp_all
  have wt: "wf_pending ?t" using ni(4,5,6) pend by (simp add: wf_pending_def)
  have h: "\<exists>u. set_response_handler E (response_id i) (User n) ?t = Some u \<and> last_request_id u = i
      \<and> pending_responses u = (response_id i, User n) # pending_responses s" for E n
    using pend by (simp add: set_response_handler_def find_pending_response_def Let_def request_sync_timeout_msg_def delayed_send_impl_def)
  have *: "\<exists>u. set_response_handler E (response_id i) (User n) ?t = Some u
        \<and> get_behavior u = Some (User n) \<and> awaited_response_id u = response_id i \<and> wf_pending u
        \<and> response_applied E n (response_id i) u" for E n
  proof -
    obtain u where u: "set_response_handler E (response_id i) (User n) ?t = Some u" "last_request_id u = i"
      "pending_responses u = (response_id i, User n) # pending_responses s" using h by blast
    have "get_behavior u = Some (User n)" "awaited_response_id u = response_id i" "awaits (response_id i) u"
      using u by (simp_all add: get_behavior_def awaited_response_id_def awaits_def)
    moreover have "wf_pending u" using wt pend u(2,3) by (simp add: wf_pending_def)
    ultimately show ?thesis using u(1) response_appliedI [of "response_id i" u E n] ni(1) by auto
  qed
  have "invoke_message E e b k (mark_arrived (response_id i) x) = (Inr (im_dropped, Some e), mark_arrived (response_id i) x)"
    if "mid e = response_id i" for x E e b k
    using expired_response_dropped [of e "mark_arrived (response_id i) x"] not_awaits_mark_arrived [of "response_id i" x] that ni(1)
    by simp
  then show ?thesis
    using sync_send_result [OF n, of a what] ni(1,3) wt pend *
    by (intro exI [of _ i] exI [of _ ?t]) (simp add: awaits_def)
qed

text \<open>
  A user program for the witnesses: every behavior accepts every message without an answer, has no
  timeout, and nothing else does anything.
\<close>

definition quiet_env :: env where
  "quiet_env = \<lparr>invoke_user = (\<lambda>n m s. (Inr (Some []), s)), user_timeout = (\<lambda>n. invalid_duration),
     run_timeout = (\<lambda>n s. (Inr (), s)), run_sync_failure = (\<lambda>n s. (Inr (), s)),
     make_behavior = (\<lambda>s. (Inr (User 0), s)), run_act = (\<lambda>s. (Inr (), s)), on_exit = (\<lambda>s. s),
     save_state = (\<lambda>s. Inr []), load_state = (\<lambda>b s. (Inr (), s)), actor_name = ''actor'',
     exception_handler = (\<lambda>x a. None)\<rparr>"

lemma fresh_requests:
  "wf_pending (fresh_actor p)" "integer_value (last_request_id (fresh_actor p)) < request_id_mask"
  "kinds (sys (fresh_actor p)) b = Local" "log (sys (fresh_actor p)) = []" "me (fresh_actor p) = 1"
  by (simp_all add: fresh_actor_def wf_pending_def invalid_message_id_def request_id_mask_def sample_world_def new_actor_def)

text \<open>A user program whose behaviors ask for termination when they get a message.\<close>

definition quitting_env :: env where
  "quitting_env = quiet_env\<lparr>invoke_user := (\<lambda>n m s. (Inr (Some []), s\<lparr>planned_exit_reason := user_shutdown\<rparr>))\<rparr>"

theorem sync_send_roundtrip_witness:
  "\<exists>r t u x. sync_send_impl normal (Some 2) [U16 4] (fresh_actor False) = (Inr (response_id r), t)
     \<and> log (sys t) = [Enqueue 2 (Some 1) r [U16 4]]
     \<and> set_response_handler quitting_env (response_id r) (User 3) t = Some u
     \<and> invoke_message quitting_env (make_element (Some 2) (response_id r) [U16 5]) (User 3) (response_id r) u
         = (Inr (im_success, Some (make_element (Some 2) (response_id r) [U16 5])), x)
     \<and> planned_exit_reason x = user_shutdown \<and> \<not> awaits (response_id r) x"
proof -
  obtain r t where r: "sync_send_impl normal (Some 2) [U16 4] (fresh_actor False) = (Inr (response_id r), t)" "is_request r"
    "log (sys t) = log (sys (fresh_actor False)) @ posted (kinds (sys (fresh_actor False))) (Some 2) (address (me (fresh_actor False))) r [U16 4]"
    "\<And>E n. \<exists>u. set_response_handler E (response_id r) (User n) t = Some u \<and> response_applied E n (response_id r) u"
    using sync_send_roundtrip [OF fresh_requests(1,2), of 2 "[U16 4]" False] by (elim exE conjE) metis
  let ?e = "make_element (Some 2) (response_id r) [U16 5]"
  have l: "log (sys t) = [Enqueue 2 (Some 1) r [U16 4]]"
    using r(3) by (simp add: fresh_requests posted_def address_def)
  obtain u where u: "set_response_handler quitting_env (response_id r) (User 3) t = Some u"
    "response_applied quitting_env 3 (response_id r) u" using r(4) by blast
  let ?x = "mark_arrived (response_id r) (u\<lparr>planned_exit_reason := user_shutdown\<rparr>)"
  have "invoke_message quitting_env ?e (User 3) (response_id r) u = (Inr (im_success, Some ?e), ?x)"
    using u(2) r(2) by (simp add: response_applied_def make_element_def quitting_env_def post_process_invoke_res_def Let_def)
  moreover have "planned_exit_reason ?x = user_shutdown" by (simp add: mark_arrived_def)
  ultimately show ?thesis using r(1) l u(1) not_awaits_mark_arrived by blast
qed

text \<open>
  C34: A request of high priority never gets its response. sync_send returns an id that carries the
  priority flag, while the actor awaits the id without it: the returned id is not awaited,
  installing a handler for it changes nothing, and the response, which carries the same id, is
  dropped. The actor keeps awaiting the other id with an empty handler, so that it skips every
  ordinary message from then on, and resetting its timeout dereferences the empty handler.
\<close>

theorem sync_send_high_priority_lost:
  assumes "wf_pending s" and "integer_value (last_request_id s) < request_id_mask"
  shows "\<exists>r t. sync_send_impl high (Some a) what s = (Inr (response_id r), t)
    \<and> is_request r \<and> is_high_priority r
    \<and> log (sys t) = log (sys s) @ posted (kinds (sys s)) (Some a) (address (me s)) r what
    \<and> \<not> awaits (response_id r) t \<and> awaits_response t
    \<and> (\<forall>E b. set_response_handler E (response_id r) b t = Some t)
    \<and> (\<forall>E e b k. mid e = response_id r \<longrightarrow> invoke_message E e b k t = (Inr (im_dropped, Some e), t))
    \<and> (\<forall>E e b t'. filter_msg E e t = (Inr ordinary, t') \<longrightarrow>
        invoke_message E e b (awaited_response_id t) t = (Inr (im_skipped, Some e), t'))
    \<and> (\<forall>E. reset_timeout_if_needed E True t = None)"
proof -
  obtain i t0 where n: "new_request_id normal s = (i, t0)" by force
  then have h: "new_request_id high s = (with_high_priority i, t0)" by (auto simp: new_request_id_def Let_def)
  let ?r = "with_high_priority i"
  let ?t = "send_impl ?r (Some a) what t0"
  note ni = new_request_id_normal [OF assms n]
  have "integer_value (last_request_id t0) < 2 ^ 61"
    using assms(2) ni(5) n by (auto simp: new_request_id_def pre_increment_def Let_def request_id_mask_def
        word_less_nat_alt unat_word_ariths)
  then have not_pending: "fst p \<noteq> response_id ?r" if "p \<in> set (pending_responses t0)" for p
    using wf_pending_low [OF ni(6)] that response_id_high [OF ni(1)] by metis
  have na: "\<not> awaits (response_id ?r) ?t" and fp: "find_pending_response (response_id ?r) ?t = None"
    using not_pending by (auto simp: awaits_def list_ex_iff find_pending_response_def find_None_iff simp del: split_paired_All split_paired_Ex)
  have p: "awaits_response ?t" "awaited_response_id ?t = response_id i" "get_behavior ?t = Some Empty_Bhvr"
    using ni(4) by (simp_all add: awaits_response_def awaited_response_id_def get_behavior_def)
  have sk: "invoke_message E e b (awaited_response_id ?t) ?t = (Inr (im_skipped, Some e), t')"
    if "filter_msg E e ?t = (Inr ordinary, t')" for E e b t'
    using that p(2) ni(1) by (simp add: invoke_message_def bindE_def invoke_ordinary_def)
  have rs: "reset_timeout_if_needed E True ?t = None" for E
    using p by (simp add: reset_timeout_if_needed_def has_behavior_def awaits_response_def)
  show ?thesis
    using sync_send_result [OF h, of a what] ni(1) na fp p(1) sk rs expired_response_dropped
    by (intro exI [of _ ?r] exI [of _ ?t]) (auto simp: set_response_handler_def)
qed

theorem sync_send_high_priority_lost_witness:
  "\<exists>r t. sync_send_impl high (Some 2) [U16 4] (fresh_actor False) = (Inr (response_id r), t)
     \<and> \<not> awaits (response_id r) t \<and> awaits_response t \<and> reset_timeout_if_needed quiet_env True t = None"
  using sync_send_high_priority_lost [OF fresh_requests(1,2), of 2 "[U16 4]" False] by metis

section \<open>Exit signals\<close>

lemma unlink_from_frame:
  "\<exists>w'. unlink_from at a other w = Some w'
     \<and> (\<forall>c. exit_rsn (actor_at w' c) = exit_rsn (actor_at w c) \<and> aflags (actor_at w' c) = aflags (actor_at w c)
          \<and> kind (actor_at w' c) = kind (actor_at w c))"
proof -
  have "\<exists>ok w'. remove_link_impl at a other w = Some (ok, w')
      \<and> (\<forall>c. exit_rsn (actor_at w' c) = exit_rsn (actor_at w c) \<and> aflags (actor_at w' c) = aflags (actor_at w c)
          \<and> kind (actor_at w' c) = kind (actor_at w c))"
  proof (cases "other = None \<or> other = address a")
    case True
    then show ?thesis by (auto simp: remove_link_impl_def address_def)
  next
    case False
    then obtain b where b: "other = Some b" "a \<noteq> b" by (auto simp: address_def)
    show ?thesis using remove_link_result [OF b(2), of at w] b(1) by (auto split: if_splits)
  qed
  then obtain ok w' where r: "remove_link_impl at a other w = Some (ok, w')"
    "\<forall>c. exit_rsn (actor_at w' c) = exit_rsn (actor_at w c) \<and> aflags (actor_at w' c) = aflags (actor_at w c)
          \<and> kind (actor_at w' c) = kind (actor_at w c)" by blast
  then have "unlink_from at a other w = Some (snd (forward_if at a (unlink_atom at) other (ok, w')))"
    by (simp add: unlink_from_def link_impl_def)
  then show ?thesis using r(2) by simp
qed

lemma unlink_self_frame [simp]:
  "flag f (unlink_self a s) = flag f s" "exit_rsn (actor_at (sys (unlink_self a s)) c) = exit_rsn (actor_at (sys s) c)"
  "planned_exit_reason (unlink_self a s) = planned_exit_reason s" "me (unlink_self a s) = me s"
  "mailbox (unlink_self a s) = mailbox s" "bhvr_elements (unlink_self a s) = bhvr_elements s"
  using unlink_from_frame [of std_atoms "me s" a "sys s"] by (auto simp: unlink_self_def flag_def)

text \<open>The element of an exit message.\<close>

definition exit_element :: "actor_addr \<Rightarrow> u32 \<Rightarrow> message_id \<Rightarrow> mailbox_element" where
  "exit_element source r i = make_element source i [Exit source r]"

lemma filter_exit_element:
  "\<not> is_response i \<Longrightarrow> filter_msg E (exit_element source r i) s = handle_exit_msg source r s"
  by (simp add: filter_msg_def exit_element_def make_element_def is_sys_message_def)

text \<open>The answer a request in the mailbox of a terminated actor gets.\<close>

definition bounced :: "(nat \<Rightarrow> actor_kind) \<Rightarrow> u32 \<Rightarrow> mailbox_element \<Rightarrow> event list" where
  "bounced K r e = (if is_request (mid e)
     then posted K (sender e) None (response_id (mid e)) [Sync_Exited (sender e) r] else [])"

lemma log_bounce_elem:
  "r \<noteq> not_exited \<Longrightarrow> log (bounce_elem r e w) = log w @ bounced (kinds w) r e"
  by (auto simp: bounce_elem_def bounce_def bounced_def bouncer_reason_def log_enqueue_addr posted_def)

lemma actor_at_bounce_elem [simp]: "actor_at (bounce_elem r e w) = actor_at w"
  by (simp add: bounce_elem_def bounce_def)

lemma fold_bounce:
  "actor_at (fold (bounce_elem r) es w) = actor_at w"
  "r \<noteq> not_exited \<Longrightarrow> log (fold (bounce_elem r) es w) = log w @ concat (map (bounced (kinds w) r) es)"
  by (induction es arbitrary: w) (simp_all add: log_bounce_elem)

lemma set_registered_frame [simp]:
  "log (set_registered a v w) = log w" "exit_rsn (actor_at (set_registered a v w) b) = exit_rsn (actor_at w b)"
  "kind (actor_at (set_registered a v w) b) = kind (actor_at w b)"
  "attachables (actor_at (set_registered a v w) b) = attachables (actor_at w b)"
  by (simp_all add: set_registered_def set_actor_def Let_def)

text \<open>
  What on_exit may not do: change who the actor is, whether it has exited, or break the mailbox. It
  may send, become something else and choose another exit reason; that reason is the final one.
\<close>

definition on_exit_ok :: "env \<Rightarrow> bool" where
  "on_exit_ok E \<longleftrightarrow> (\<forall>s. me (on_exit E s) = me s \<and> exit_rsn (self_state (on_exit E s)) = exit_rsn (self_state s)
     \<and> (wf_srq (mailbox s) \<longrightarrow> wf_srq (mailbox (on_exit E s))))"

definition final_reason :: "env \<Rightarrow> local_actor \<Rightarrow> u32" where
  "final_reason E s = (let p = planned_exit_reason (on_exit E s) in if p = not_exited then exit_normal else p)"

text \<open>Termination with a planned reason.\<close>

lemma actor_done_planned:
  assumes "on_exit_ok E" and "planned_exit_reason s \<noteq> not_exited"
    and "exit_rsn (self_state s) = not_exited" and "wf_srq (mailbox s)"
  shows "\<exists>t. actor_done E s = (True, t) \<and> exit_rsn (self_state t) = final_reason E s \<and> closed (mailbox t)
    \<and> pending_responses t = [] \<and> bhvr_elements t = [] \<and> attachables (self_state t) = []"
proof -
  let ?x = "on_exit E s"
  let ?u = "stack_cleanup (stack_clear ?x)"
  have x: "me ?x = me s" "exit_rsn (self_state ?x) = not_exited" "wf_srq (mailbox ?x)"
    using assms(1,3,4) unfolding on_exit_ok_def by metis+
  have f: "sys ?u = sys ?x" "me ?u = me ?x" "mailbox ?u = mailbox ?x" "bhvr_elements ?u = []"
    "planned_exit_reason ?u = planned_exit_reason ?x"
    by (auto simp: stack_cleanup_def stack_clear_def)
  show ?thesis using assms(2) x f
    by (auto simp: actor_done_def local_cleanup_def close_srq_visits Let_def fold_bounce cleanup_actor_at exited_def closed_def
        final_reason_def)
qed


text \<open>An actor with one behavior on its stack.\<close>

definition running_actor :: local_actor where
  "running_actor = (fresh_actor False)\<lparr>bhvr_elements := [User 0]\<rparr>"

lemma running_actor_flags:
  "\<not> flag trap_exit_flag running_actor" "\<not> flag is_blocking_flag running_actor" "\<not> flag is_detached_flag running_actor"
  "exit_rsn (self_state running_actor) = not_exited" "attachables (self_state running_actor) = []"
  "wf_srq (mailbox running_actor)" "get_behavior running_actor = Some (User 0)"
  by (simp_all add: running_actor_def fresh_actor_def flag_def sample_world_def new_actor_def get_flag_def set_flag_def
      flag_defs is_abstract_actor_flag_def wf_srq_def srq_init_def get_behavior_def)

text \<open>A user program whose on_exit sets a new behavior: the actor terminates all the same.\<close>

definition reviving_env :: env where
  "reviving_env = quiet_env\<lparr>on_exit := stack_push_back (User 1)\<rparr>"


section \<open>Termination\<close>

text \<open>
  C9: When an actor terminates, every request in its mailbox and in its cache is answered exactly
  once with the exit reason, other messages are discarded, each attachable is notified, and nothing
  else is sent; the mailbox is closed, so that every later request is answered in the same way at
  once and every other later message disappears.
\<close>

theorem cleanup_answers_requests:
  assumes "wf_srq (mailbox s)" and "exit_rsn (self_state s) = not_exited" and "r \<noteq> not_exited"
  shows "let t = local_cleanup r s; K = kinds (sys s) in
    log (sys t) = log (sys s)
      @ concat (map (bounced K r) (contents (mailbox s) @ cache_first (mailbox s) @ cache_second (mailbox s)))
      @ concat (map (notify std_atoms K (me s) r) (attachables (self_state s)))
    \<and> closed (mailbox t) \<and> exit_rsn (self_state t) = r \<and> pending_responses t = []
    \<and> (\<forall>e. mailbox (local_enqueue e t) = mailbox t \<and> log (sys (local_enqueue e t)) = log (sys t) @ bounced K r e)"
proof -
  let ?t = "local_cleanup r s"
  let ?w = "fold (bounce_elem r) (contents (mailbox s) @ cache_first (mailbox s) @ cache_second (mailbox s)) (sys s)"
  have t: "sys ?t = set_registered (me s) False (cleanup std_atoms (me s) r ?w)" "me ?t = me s" "pending_responses ?t = []"
    "mailbox ?t = (mailbox s)\<lparr>stk := Closed, hd_list := [], cache_first := [], cache_second := []\<rparr>"
    by (simp_all add: local_cleanup_def close_srq_visits [OF assms(1)])
  have w: "actor_at ?w = actor_at (sys s)" by (rule fold_bounce(1))
  have x: "exit_rsn (self_state ?t) = r" "\<And>c. kinds (sys ?t) c = kinds (sys s) c"
    using assms(2) w by (simp_all add: t cleanup_actor_at exited_def)
  have l: "log (sys ?t) = log (sys s)
      @ concat (map (bounced (kinds (sys s)) r) (contents (mailbox s) @ cache_first (mailbox s) @ cache_second (mailbox s)))
      @ concat (map (notify std_atoms (kinds (sys s)) (me s) r) (attachables (self_state s)))"
    using assms(2,3) w fold_bounce(2) [OF assms(3)] by (simp add: t log_cleanup exited_def fold_bounce(1))
  have e: "mailbox (local_enqueue e ?t) = mailbox ?t
      \<and> log (sys (local_enqueue e ?t)) = log (sys ?t) @ bounced (kinds (sys s)) r e" for e
    using log_bounce_elem [OF assms(3), of e "sys ?t"] x t(4)
    by (auto simp: local_enqueue_def synchronized_enqueue_def enqueue_def bounce_elem_def bounced_def Let_def)
  show ?thesis unfolding Let_def using l e x t(3,4) by (simp add: closed_def)
qed

theorem cleanup_answers_requests_witness:
  "let s = running_actor\<lparr>mailbox := (mailbox running_actor)\<lparr>stk := Elems
             [make_element (Some 2) (Message_Id 9) [U16 1], make_element (Some 2) (make_mid normal) [U16 2]]\<rparr>\<rparr>
   in log (sys (local_cleanup user_shutdown s))
        = [Enqueue 2 None (response_id (Message_Id 9)) [Sync_Exited (Some 2) user_shutdown]]"
proof -
  let ?s = "running_actor\<lparr>mailbox := (mailbox running_actor)\<lparr>stk := Elems
             [make_element (Some 2) (Message_Id 9) [U16 1], make_element (Some 2) (make_mid normal) [U16 2]]\<rparr>\<rparr>"
  have m: "contents (mailbox ?s) = [make_element (Some 2) (make_mid normal) [U16 2], make_element (Some 2) (Message_Id 9) [U16 1]]"
    "cache_first (mailbox ?s) = []" "cache_second (mailbox ?s) = []" "wf_srq (mailbox ?s)"
    by (simp_all add: running_actor_def fresh_actor_def srq_init_def contents_def wf_srq_def)
  have i: "\<not> is_request (make_mid normal)" "is_request (Message_Id 9)" by code_simp+
  have x: "exit_rsn (self_state ?s) = not_exited" "user_shutdown \<noteq> not_exited" "kinds (sys ?s) = (\<lambda>_. Local)"
    "attachables (self_state ?s) = []" "log (sys ?s) = []"
    using running_actor_flags(4,5) by (simp_all add: exit_reason_defs running_actor_def fresh_requests fun_eq_iff)
  show ?thesis using cleanup_answers_requests [OF m(4) x(1,2)] unfolding Let_def m x
    by (simp add: bounced_def make_element_def i posted_def)
qed

end
