(* ===== verification/Local_Actor_Progress.thy ===== *)
theory Local_Actor_Progress
  imports Local_Actor_Requests
begin

text \<open>
  Progress of the message loop: for user code that respects the interface of the runtime, resume
  always returns, never accesses an empty behavior and never pops from a closed mailbox, and its
  result describes the state of the mailbox.
\<close>

section \<open>The state user code finds and leaves behind\<close>

definition live :: "local_actor \<Rightarrow> bool" where
  "live s \<longleftrightarrow> wf_srq (mailbox s) \<and> \<not> closed (mailbox s) \<and> \<not> flag is_priority_aware_flag s
     \<and> Empty_Bhvr \<notin> set (bhvr_elements s) \<and> Empty_Bhvr \<notin> snd ` set (pending_responses s)"

definition keeps :: "local_actor \<Rightarrow> local_actor \<Rightarrow> bool" where
  "keeps s t \<longleftrightarrow> live t \<and> cache_second (mailbox t) = cache_second (mailbox s)"

lemma keeps_live: "keeps s t \<Longrightarrow> live t"
  by (simp add: keeps_def)

lemma keeps_refl: "live s \<Longrightarrow> keeps s s"
  by (simp add: keeps_def)

lemma keeps_trans [trans]: "keeps s t \<Longrightarrow> keeps t u \<Longrightarrow> keeps s u"
  by (simp add: keeps_def)

text \<open>
  The contract of user code: callbacks find and leave a live actor and do not touch the cache of
  skipped messages; a handler that skips a message may have effects, but it neither moves the
  message elsewhere nor removes the last behavior. (After a skipped message the loop does not
  look whether the actor still has a behavior.)
\<close>

definition well_behaved :: "env \<Rightarrow> bool" where
  "well_behaved E \<longleftrightarrow>
     (\<forall>n m s. live s \<longrightarrow> keeps s (snd (invoke_user E n m s)))
     \<and> (\<forall>n m s t. live s \<longrightarrow> invoke_user E n m s = (Inr None, t) \<longrightarrow>
          (has_behavior s \<longrightarrow> has_behavior t) \<and> (current_element s \<noteq> None \<longrightarrow> current_element t \<noteq> None))
     \<and> (\<forall>n s. live s \<longrightarrow> keeps s (snd (run_timeout E n s)) \<and> keeps s (snd (run_sync_failure E n s)))
     \<and> (\<forall>s. live s \<longrightarrow> keeps s (snd (make_behavior E s)) \<and> keeps s (on_exit E s) \<and> keeps s (snd (run_act E s)))"

lemma well_behavedD:
  assumes "well_behaved E" and "live s"
  shows "keeps s (snd (invoke_user E n m s))" and "keeps s (snd (run_timeout E n s))"
    and "keeps s (snd (run_sync_failure E n s))" and "keeps s (snd (make_behavior E s))" and "keeps s (on_exit E s)"
    and "keeps s (snd (run_act E s))"
  using assms by (simp_all add: well_behaved_def)

abbreviation stays :: "local_actor \<Rightarrow> local_actor \<Rightarrow> bool" where
  "stays s t \<equiv> has_behavior s \<longrightarrow> has_behavior t"

lemma no_match_stays:
  assumes "well_behaved E" and "live s" and "invoke_user E n m s = (Inr None, t)"
  shows "stays s t" and "current_element s \<noteq> None \<Longrightarrow> current_element t \<noteq> None"
  using assms unfolding well_behaved_def by blast+

lemma has_behavior_frame [simp]:
  "has_behavior (s\<lparr>current_element := c\<rparr>) = has_behavior s" "has_behavior (put_flag f v s) = has_behavior s"
  "has_behavior (post d a i m s) = has_behavior s"
  by (simp_all add: has_behavior_def)

section \<open>Operations of the runtime\<close>

text \<open>Operations that change neither mailbox nor behaviors.\<close>

lemma keeps_same:
  assumes "live s" and "mailbox t = mailbox s" and "bhvr_elements t = bhvr_elements s"
    and "pending_responses t = pending_responses s" and "flag is_priority_aware_flag t = flag is_priority_aware_flag s"
  shows "keeps s t"
  using assms by (simp add: keeps_def live_def)

lemma keeps_field_updates:
  assumes "keeps s t"
  shows "keeps s (t\<lparr>current_element := c\<rparr>)" and "keeps s (t\<lparr>planned_exit_reason := r\<rparr>)"
    and "keeps s (t\<lparr>timeout_id := i\<rparr>)" and "keeps s (t\<lparr>bhvr_erased := es\<rparr>)"
  using assms by (auto simp: keeps_def live_def flag_def)

lemma flags_differ' [simp]:
  "is_priority_aware_flag \<noteq> has_timeout_flag" "is_priority_aware_flag \<noteq> is_initialized_flag"
  "is_priority_aware_flag \<noteq> is_migrated_from_flag" "is_initialized_flag \<in> set actor_flags"
  "is_migrated_from_flag \<in> set actor_flags" "has_timeout_flag \<noteq> is_priority_aware_flag"
  "is_initialized_flag \<noteq> is_priority_aware_flag" "is_migrated_from_flag \<noteq> is_priority_aware_flag"
  by (simp_all add: flag_defs actor_flags_def)

lemma keeps_put_flag:
  "live s \<Longrightarrow> f \<in> set actor_flags \<Longrightarrow> f \<noteq> is_priority_aware_flag \<Longrightarrow> keeps s (put_flag f v s)"
  by (rule keeps_same) (simp_all add: flag_put_flag)

lemma keeps_post: "live s \<Longrightarrow> keeps s (post d a i m s)"
  by (rule keeps_same) simp_all

lemma unlink_self_pending: "pending_responses (unlink_self a s) = pending_responses s"
  by (simp add: unlink_self_def split: option.splits)

lemma keeps_unlink_self: "live s \<Longrightarrow> keeps s (unlink_self a s)"
  by (rule keeps_same) (simp_all add: unlink_self_pending)

lemma keeps_deliver: "live s \<Longrightarrow> keeps s (deliver p m s)"
  by (simp add: deliver_def keeps_refl keeps_post)

lemma keeps_make_response_promise: "live s \<Longrightarrow> keeps s (snd (make_response_promise s))"
  by (auto simp: make_response_promise_def keeps_refl keeps_field_updates split: option.splits)

lemma keeps_quit: "live s \<Longrightarrow> keeps s (snd (quit r s))"
  by (simp add: quit_def Let_def keeps_refl keeps_field_updates)

lemma keeps_mark_arrived: "live s \<Longrightarrow> keeps s (mark_arrived i s)"
  by (auto simp: keeps_def live_def mark_arrived_def flag_def)

lemma keeps_delayed: "live s \<Longrightarrow> keeps s (delayed_send_impl i d t m s)"
  by (rule keeps_same) (simp_all add: delayed_send_impl_def flag_def)

lemma enqueue_keeps:
  assumes "wf_srq q" and "\<not> closed q"
  shows "wf_srq (snd (enqueue q e))" and "\<not> closed (snd (enqueue q e))" and "cache_second (snd (enqueue q e)) = cache_second q"
    and "fst (enqueue q e) \<noteq> queue_closed"
  using assms by (auto simp: enqueue_def wf_srq_def closed_def split: stack.splits)

lemma local_enqueue_mailbox: "mailbox (local_enqueue e s) = snd (enqueue (mailbox s) e)"
  by (cases "enqueue (mailbox s) e"; cases "fst (enqueue (mailbox s) e)")
    (auto simp: local_enqueue_def synchronized_enqueue_def Let_def)

lemma keeps_local_enqueue: "live s \<Longrightarrow> keeps s (local_enqueue e s)"
proof -
  assume l: "live s"
  have "bhvr_elements (local_enqueue e s) = bhvr_elements s"
    by (auto simp: local_enqueue_def Let_def split: prod.splits enqueue_result.splits)
  then show ?thesis using l enqueue_keeps [of "mailbox s" e]
    by (simp add: keeps_def live_def local_enqueue_mailbox)
qed

lemma keeps_request_timeout: "live s \<Longrightarrow> keeps s (snd (request_timeout d s))"
proof -
  assume l: "live s"
  let ?t = "\<lambda>x. (put_flag has_timeout_flag True s)\<lparr>timeout_id := x\<rparr>"
  have t: "keeps s (?t x)" for x using l by (simp add: keeps_put_flag keeps_field_updates)
  have "keeps s (local_enqueue e (?t x))" "keeps s (delayed_send_impl i n d m (?t x))" for e x i n d m
    using t [of x] keeps_trans keeps_local_enqueue keeps_delayed keeps_live by blast+
  then show ?thesis using l by (simp add: request_timeout_def Let_def keeps_put_flag)
qed

lemma keeps_stack_push: "live s \<Longrightarrow> b \<noteq> Empty_Bhvr \<Longrightarrow> keeps s (stack_push_back b s)"
  by (auto simp: keeps_def live_def stack_push_back_def flag_def)

lemma keeps_stack_pop: "live s \<Longrightarrow> keeps s (stack_pop_back s)"
  by (auto simp: keeps_def live_def stack_pop_back_def flag_def dest: in_set_butlastD)

lemma keeps_stack_clear: "live s \<Longrightarrow> keeps s (stack_cleanup (stack_clear s))"
  by (auto simp: keeps_def live_def stack_cleanup_def stack_clear_def flag_def)

lemma keeps_do_become: "live s \<Longrightarrow> do_become E b d s = Some t \<Longrightarrow> keeps s t"
proof -
  assume l: "live s" and r: "do_become E b d s = Some t"
  then obtain u where u: "timeout_of E b = Some u" by (auto simp: do_become_def split: option.splits)
  let ?s = "if d then stack_pop_back s else s"
  have k: "keeps s ?s" using l by (simp add: keeps_refl keeps_stack_pop)
  have k': "keeps s (snd (request_timeout u ?s))" using keeps_trans [OF k keeps_request_timeout [OF keeps_live [OF k]]] .
  have "b \<noteq> Empty_Bhvr" using u by (cases b) auto
  from keeps_trans [OF k' keeps_stack_push [OF keeps_live [OF k'] this]] show ?thesis
    using r u by (simp add: do_become_def Let_def split: prod.splits)
qed

lemma update_first_snd: "snd ` set (update_first i b ps) \<subseteq> insert b (snd ` set ps)"
  by (induction ps) auto

lemma keeps_update_first:
  assumes "keeps s t" and "b \<noteq> Empty_Bhvr"
  shows "keeps s (t\<lparr>pending_responses := update_first i b (pending_responses t)\<rparr>)"
  using assms update_first_snd [of i b "pending_responses t"] by (auto simp: keeps_def live_def flag_def)

lemma keeps_handle_message_id_res:
  assumes "live s"
  shows "keeps s (snd (handle_message_id_res m h s))"
proof -
  have "keeps s (snd (make_response_promise s))" using keeps_make_response_promise [OF assms] .
  then show ?thesis using assms
    by (auto simp: handle_message_id_res_def keeps_refl keeps_update_first Let_def
        split: list.splits elem.splits option.splits prod.splits)
qed

section \<open>Handlers\<close>

lemma keeps_forward: "live s \<Longrightarrow> forward_current_message d s = Some t \<Longrightarrow> keeps s t"
  by (auto simp: forward_current_message_def keeps_refl keeps_post keeps_field_updates split: if_splits option.splits)

lemma keeps_migrate_reply:
  assumes "live s"
  shows "keeps s (snd (migrate_reply E a i m s))"
proof -
  have p: "keeps s (post a b j x s)" for b j x using assms by (rule keeps_post)
  have b: "keeps s (put_flag is_migrated_from_flag True u)" if "do_become E c d (post a b j x s) = Some u" for b c d j x u
    using keeps_trans [OF p keeps_do_become [OF keeps_live [OF p] that]] keeps_trans keeps_put_flag keeps_live
    by (metis flags_differ'(5,8))
  show ?thesis using assms p b
    by (auto simp: migrate_reply_def Let_def keeps_refl split: list.splits elem.splits option.splits)
qed

lemma bindE_keeps:
  assumes "keeps s (snd r)" and "\<And>a t. r = (Inr a, t) \<Longrightarrow> keeps s t \<Longrightarrow> keeps s (snd (f a t))"
  shows "keeps s (snd (bindE r f))"
  using assms by (auto simp: bindE_def split: prod.splits sum.splits)

lemma keeps_invoke_bhvr:
  assumes "well_behaved E"
  shows "live s \<Longrightarrow> keeps s (snd (invoke_bhvr E b m s))"
proof (induction b arbitrary: m s)
  case (Wrapped b p)
  have "keeps s (snd (handle_message_id_res x (Some p) t))" "keeps s (deliver p x (snd (handle_message_id_res x (Some p) t)))"
    if "keeps s t" for x t
    using that keeps_handle_message_id_res [of t x "Some p"] keeps_deliver keeps_trans keeps_live by blast+
  then show ?case using Wrapped
    by (auto intro!: bindE_keeps split: option.splits prod.splits bool.splits) (metis snd_conv)+
next
  case (Forward_All d)
  then show ?case using keeps_forward by (auto simp: keeps_refl split: option.splits)
qed (use assms in \<open>simp_all add: keeps_refl well_behavedD keeps_migrate_reply\<close>)

lemma invoke_bhvr_no_match:
  assumes "well_behaved E" and "invoke_bhvr E b m s = (Inr None, t)" and "current_element s \<noteq> None" and "live s"
  shows "stays s t \<and> current_element t \<noteq> None"
proof (cases b)
  case (User n)
  then show ?thesis using assms no_match_stays by simp
next
  case (Wrapped c p)
  then show ?thesis using assms(2) by (auto simp: bindE_def split: prod.splits sum.splits option.splits bool.splits)
next
  case (Forward_All d)
  then show ?thesis using assms(2,3) by (auto simp: forward_current_message_def split: option.splits if_splits)
next
  case (Migrate_Reply a i)
  then show ?thesis using assms(2,3)
    by (auto simp: migrate_reply_def do_become_def Let_def split: list.splits elem.splits if_splits prod.splits)
qed (use assms(2,3) in simp)

lemma keeps_post_process: "live s \<Longrightarrow> keeps s (snd (post_process_invoke_res r s))"
proof -
  assume l: "live s"
  have 1: "keeps s (snd (make_response_promise s))" using l by (rule keeps_make_response_promise)
  have 2: "keeps s (snd (handle_message_id_res m h s))" for m h using l by (rule keeps_handle_message_id_res)
  have 3: "keeps s (deliver p m (snd (make_response_promise s)))" for p m
    using 1 keeps_deliver keeps_trans keeps_live by blast
  have 4: "keeps s (snd (make_response_promise (snd (handle_message_id_res m h s))))" for m h
    using 2 keeps_make_response_promise keeps_trans keeps_live by blast
  have 5: "keeps s (deliver p x (snd (make_response_promise (snd (handle_message_id_res m h s)))))" for p m h x
    using 4 keeps_deliver keeps_trans keeps_live by blast
  show ?thesis
    using l 1 2 3 4 5 by (auto simp: post_process_invoke_res_def Let_def keeps_refl
        split: option.splits list.splits prod.splits bool.splits) (metis snd_conv)+
qed

lemma call_handler_keeps:
  assumes "well_behaved E" and "live s"
  shows "keeps s (snd (call_handler E b e s))"
    and "call_handler E b e s = (Inr None, t) \<Longrightarrow> stays s t \<and> current_element t \<noteq> None"
proof -
  have c: "keeps s (s\<lparr>current_element := Some e\<rparr>)" using assms(2) by (simp add: keeps_refl keeps_field_updates)
  have i: "keeps s (snd (invoke_bhvr E b (content e) (s\<lparr>current_element := Some e\<rparr>)))"
    using keeps_trans [OF c keeps_invoke_bhvr [OF assms(1) keeps_live [OF c]]] .
  then show "keeps s (snd (call_handler E b e s))"
    unfolding call_handler_def using keeps_trans keeps_post_process keeps_live
    by (auto intro!: bindE_keeps split: prod.splits) (metis snd_conv)
  show "stays s t \<and> current_element t \<noteq> None" if h: "call_handler E b e s = (Inr None, t)"
  proof -
    obtain r u where u: "invoke_bhvr E b (content e) (s\<lparr>current_element := Some e\<rparr>) = (Inr r, u)"
      "post_process_invoke_res r u = (None, t)"
      using h by (auto simp: call_handler_def bindE_def split: prod.splits sum.splits)
    then have "r = None" using post_process_some [of _ u] by (cases r) (metis fst_conv option.distinct(1))+
    then show ?thesis
      using u invoke_bhvr_no_match [OF assms(1) u(1) [unfolded \<open>r = None\<close>] _ keeps_live [OF c]]
      by (simp add: post_process_invoke_res_def)
  qed
qed

section \<open>Filtering and invoking\<close>

lemma keeps_handle_exit_msg: "live s \<Longrightarrow> keeps s (snd (handle_exit_msg a r s))"
proof -
  assume l: "live s"
  have "keeps s (unlink_self a s)" using l by (rule keeps_unlink_self)
  moreover from this have "keeps s (snd (quit r (unlink_self a s)))" using keeps_trans keeps_quit keeps_live by blast
  ultimately show ?thesis by (auto simp: handle_exit_msg_def Let_def intro!: bindE_keeps)
qed

text \<open>Without the shared flag bit an actor is neither serializable nor priority aware.\<close>

lemma live_not_serializable: "live s \<Longrightarrow> \<not> flag is_serializable_flag s"
  by (simp add: live_def is_serializable_flag_def is_priority_aware_flag_def)

definition same_bhvr :: "local_actor \<Rightarrow> local_actor \<Rightarrow> bool" where
  "same_bhvr s t \<longleftrightarrow> bhvr_elements t = bhvr_elements s \<and> pending_responses t = pending_responses s"

lemma same_bhvr_simps [simp]:
  "same_bhvr s s" "same_bhvr s (post d a i m s)" "same_bhvr s (unlink_self a s)"
  "same_bhvr s (t\<lparr>current_element := c\<rparr>) = same_bhvr s t" "same_bhvr s (put_flag f v t) = same_bhvr s t"
  "same_bhvr s (t\<lparr>planned_exit_reason := r\<rparr>) = same_bhvr s t"
  by (auto simp: same_bhvr_def unlink_self_pending)

lemma has_behavior_same: "same_bhvr s t \<Longrightarrow> has_behavior t = has_behavior s"
  by (simp add: same_bhvr_def has_behavior_def)

lemma handle_sys_message_result:
  assumes "live s"
  shows "\<exists>x t. handle_sys_message E e s = (Inr x, t) \<and> keeps s t \<and> same_bhvr s t"
  using live_not_serializable [OF assms] assms
  by (auto simp: handle_sys_message_def migrate_away_def migrate_here_def sys_get_def answer_def bindE_def
      keeps_refl keeps_post split: list.splits elem.splits)

lemma filter_msg_result:
  assumes "live s"
  shows "keeps s (snd (filter_msg E e s))" and "filter_msg E e s = (Inr ty, t) \<Longrightarrow> same_bhvr s t"
proof -
  obtain x u where u: "handle_sys_message E e s = (Inr x, u)" "keeps s u" "same_bhvr s u"
    using handle_sys_message_result [OF assms] by blast
  show "keeps s (snd (filter_msg E e s))"
    using assms u(1,2) keeps_handle_exit_msg [OF assms]
    by (auto simp: filter_msg_def bindE_def keeps_refl split: list.splits elem.splits)
  show "same_bhvr s t" if "filter_msg E e s = (Inr ty, t)"
    using that u(1,3)
    by (auto simp: filter_msg_def bindE_def handle_exit_msg_def quit_def Let_def
        split: list.splits elem.splits if_splits)
qed

lemma keeps_run_timeout: "well_behaved E \<Longrightarrow> live s \<Longrightarrow> keeps s (snd (run_timeout_of E b s))"
  by (auto simp: run_timeout_of_def keeps_refl well_behavedD split: bhvr.splits)

lemma keeps_handle_timeout:
  assumes "well_behaved E" and "live s"
  shows "keeps s (snd (handle_timeout E b i s))"
  using assms keeps_run_timeout [OF assms] keeps_trans keeps_stack_pop keeps_live
  by (auto simp: handle_timeout_def keeps_refl intro!: bindE_keeps)

lemma keeps_sync_failure: "well_behaved E \<Longrightarrow> live s \<Longrightarrow> keeps s (snd (handle_sync_failure E s))"
  by (auto simp: handle_sync_failure_def well_behavedD keeps_quit split: option.splits)

lemma invoke_sync_response_result:
  assumes "well_behaved E" and "live s"
  shows "keeps s (snd (invoke_sync_response E e b k s))"
    and "invoke_sync_response E e b k s = (Inr (im_skipped, p), t) \<Longrightarrow> p = Some e \<and> t = s"
    and "invoke_sync_response E e b k s \<noteq> (Inr (im_dropped, p), t)"
proof -
  have c: "keeps s (s\<lparr>current_element := Some e\<rparr>)" using assms(2) by (simp add: keeps_refl keeps_field_updates)
  have to: "keeps s (snd (run_timeout_of E b (s\<lparr>current_element := Some e\<rparr>)))"
    using keeps_trans [OF c keeps_run_timeout [OF assms(1) keeps_live [OF c]]] .
  have f: "keeps s (mark_arrived k (t\<lparr>current_element := x\<rparr>))" if "keeps s t" for t x
    using that keeps_trans keeps_mark_arrived keeps_live keeps_field_updates(1) by blast
  have sf: "keeps s (snd (handle_sync_failure E t))" if "keeps s t" for t
    using that keeps_trans keeps_sync_failure [OF assms(1)] keeps_live by blast
  show "keeps s (snd (invoke_sync_response E e b k s))"
    using assms c to f sf call_handler_keeps(1) [OF assms]
    by (auto simp: invoke_sync_response_def keeps_refl keeps_mark_arrived swap_back_def intro!: bindE_keeps)
  show "invoke_sync_response E e b k s = (Inr (im_skipped, p), t) \<Longrightarrow> p = Some e \<and> t = s"
    "invoke_sync_response E e b k s \<noteq> (Inr (im_dropped, p), t)"
    by (auto simp: invoke_sync_response_def bindE_def swap_back_def split: if_splits prod.splits sum.splits)
qed

lemma invoke_ordinary_result:
  assumes "well_behaved E" and "live s"
  shows "keeps s (snd (invoke_ordinary E e b k s))"
    and "invoke_ordinary E e b k s = (Inr (im_skipped, p), t) \<Longrightarrow> p \<noteq> None \<and> stays s t"
    and "invoke_ordinary E e b k s \<noteq> (Inr (im_dropped, p), t)"
proof -
  let ?s = "if flag has_timeout_flag s then put_flag has_timeout_flag False s else s"
  have h: "keeps s ?s" using assms(2) by (simp add: keeps_refl keeps_put_flag)
  have c: "keeps s (snd (call_handler E b e ?s))"
    using keeps_trans [OF h call_handler_keeps(1) [OF assms(1) keeps_live [OF h]]] .
  have f: "keeps s (t\<lparr>current_element := x\<rparr>)" "keeps s (put_flag has_timeout_flag True (t\<lparr>current_element := x\<rparr>))"
    if "keeps s t" for t x
    using keeps_field_updates(1) [OF that] keeps_trans keeps_put_flag keeps_live by (blast, metis flags_differ'(6) in_actor_flags(1))
  show "keeps s (snd (invoke_ordinary E e b k s))"
    using assms(2) c f by (auto simp: invoke_ordinary_def Let_def keeps_refl swap_back_def intro!: bindE_keeps)
  show "invoke_ordinary E e b k s = (Inr (im_skipped, p), t) \<Longrightarrow> p \<noteq> None \<and> stays s t"
    using call_handler_keeps(2) [OF assms(1) keeps_live [OF h], of b e]
    by (auto simp: invoke_ordinary_def Let_def bindE_def swap_back_def split: if_splits prod.splits sum.splits)
  show "invoke_ordinary E e b k s \<noteq> (Inr (im_dropped, p), t)"
    by (auto simp: invoke_ordinary_def Let_def bindE_def swap_back_def split: if_splits prod.splits sum.splits)
qed

lemma invoke_message_keeps:
  assumes "well_behaved E" and "live s"
  shows "keeps s (snd (invoke_message E e b k s))"
proof -
  have step: "keeps s (snd r)" if "keeps s t" "keeps t (snd r)" for t and r :: "'x outcome_of"
    using that keeps_trans by blast
  show ?thesis unfolding invoke_message_def
  proof (rule bindE_keeps)
    show "keeps s (snd (filter_msg E e s))" using filter_msg_result(1) [OF assms(2)] .
    fix ty t assume k: "keeps s t"
    have l: "live t" using keeps_live [OF k] .
    have ht: "keeps s (snd (handle_timeout E b i t))" for i
      using keeps_trans [OF k keeps_handle_timeout [OF assms(1) l]] .
    show "keeps s (snd (case ty of normal_exit \<Rightarrow> (Inr (im_dropped, Some e), t)
      | expired_sync_response \<Rightarrow> (Inr (im_dropped, Some e), t) | expired_timeout \<Rightarrow> (Inr (im_dropped, Some e), t)
      | sys_message \<Rightarrow> (Inr (im_dropped, Some e), t) | non_normal_exit \<Rightarrow> (Inr (im_success, Some e), t)
      | timeout_type \<Rightarrow> if k = invalid_message_id then
          (case content e of [Timeout tid] \<Rightarrow> bindE (handle_timeout E b tid t) (\<lambda>_ s2. (Inr (im_success, Some e), s2))
           | _ \<Rightarrow> (Inr (im_dropped, Some e), t))
        else (Inr (im_dropped, Some e), t)
      | sync_response \<Rightarrow> invoke_sync_response E e b k t | ordinary \<Rightarrow> invoke_ordinary E e b k t))"
      using k ht keeps_trans [OF k invoke_sync_response_result(1) [OF assms(1) l]]
        keeps_trans [OF k invoke_ordinary_result(1) [OF assms(1) l]]
      by (cases ty) (auto intro!: bindE_keeps split: list.splits elem.splits)
  qed
qed

text \<open>A message that is not consumed leaves the actor with a behavior, and a skipped one is still there.\<close>

lemma invoke_message_unconsumed:
  assumes "well_behaved E" and "live s" and "invoke_message E e b k s = (Inr (r, p), t)" and "r \<noteq> im_success"
  shows "stays s t \<and> (r = im_skipped \<longrightarrow> p \<noteq> None)"
proof -
  obtain ty u where f: "filter_msg E e s = (Inr ty, u)"
    using assms(3) by (auto simp: invoke_message_def bindE_def split: prod.splits sum.splits)
  have u: "same_bhvr s u" "live u" using filter_msg_result [OF assms(2)] f keeps_live by (metis snd_conv)+
  have su: "has_behavior u = has_behavior s" using has_behavior_same [OF u(1)] .
  have i: "invoke_message E e b k s = bindE (Inr ty, u) (\<lambda>ty s1. case ty of
        normal_exit \<Rightarrow> (Inr (im_dropped, Some e), s1) | expired_sync_response \<Rightarrow> (Inr (im_dropped, Some e), s1)
      | expired_timeout \<Rightarrow> (Inr (im_dropped, Some e), s1) | sys_message \<Rightarrow> (Inr (im_dropped, Some e), s1)
      | non_normal_exit \<Rightarrow> (Inr (im_success, Some e), s1)
      | timeout_type \<Rightarrow> if k = invalid_message_id then
          (case content e of [Timeout tid] \<Rightarrow> bindE (handle_timeout E b tid s1) (\<lambda>_ s2. (Inr (im_success, Some e), s2))
           | _ \<Rightarrow> (Inr (im_dropped, Some e), s1))
        else (Inr (im_dropped, Some e), s1)
      | sync_response \<Rightarrow> invoke_sync_response E e b k s1 | ordinary \<Rightarrow> invoke_ordinary E e b k s1)"
    unfolding invoke_message_def f ..
  have rs: "r = im_skipped \<or> r = im_dropped" using assms(4) by (cases r) auto
  show ?thesis
  proof (cases ty)
    case sync_response
    then have "invoke_sync_response E e b k u = (Inr (r, p), t)" using i assms(3) by (simp add: bindE_def)
    then show ?thesis using rs invoke_sync_response_result(2,3) [OF assms(1) u(2)] su by blast
  next
    case ordinary
    then have "invoke_ordinary E e b k u = (Inr (r, p), t)" using i assms(3) by (simp add: bindE_def)
    then show ?thesis using rs invoke_ordinary_result(2,3) [OF assms(1) u(2)] su by blast
  qed (use i assms(3,4) su in \<open>auto simp: bindE_def split: if_splits list.splits elem.splits prod.splits sum.splits\<close>)
qed

section \<open>The loops\<close>

lemma cache_update_keeps:
  "keeps s t \<Longrightarrow> live (t\<lparr>mailbox := (mailbox t)\<lparr>cache_second := xs\<rparr>\<rparr>)"
  "live s \<Longrightarrow> live (s\<lparr>mailbox := (mailbox s)\<lparr>cache_second := xs\<rparr>\<rparr>)"
  by (auto simp: keeps_def live_def wf_srq_def closed_def flag_def)

text \<open>A pass over the cache keeps what it skips; when it handles an element the cache gets shorter.\<close>

lemma invoke_cache_result:
  assumes "well_behaved E"
  shows "live s \<Longrightarrow> cache_second (mailbox s) = kept @ es \<Longrightarrow> invoke_cache E b k kept es s = (r, t) \<Longrightarrow>
    live t \<and> (r = Inr False \<longrightarrow> stays s t)
    \<and> (r = Inr True \<longrightarrow> length (cache_second (mailbox t)) < length kept + length es)
    \<and> length (cache_second (mailbox t)) \<le> length kept + length es"
proof (induction es arbitrary: kept s)
  case (Cons e es)
  let ?s = "s\<lparr>mailbox := (mailbox s)\<lparr>cache_second := kept @ es\<rparr>\<rparr>"
  obtain x u where m: "invoke_message E e b k ?s = (x, u)" by force
  have ls: "live ?s" using cache_update_keeps(2) [OF Cons.prems(1)] .
  have ku: "keeps ?s u" using invoke_message_keeps [OF assms ls, of e b k] m by simp
  then have lu: "live u" "cache_second (mailbox u) = kept @ es" by (simp_all add: keeps_def)
  have hs: "has_behavior ?s = has_behavior s" by (simp add: has_behavior_def)
  show ?case
  proof (cases x)
    case (Inl ex)
    then show ?thesis using Cons.prems(3) m lu by auto
  next
    case (Inr q)
    obtain rr p where q: "q = (rr, p)" by force
    show ?thesis
    proof (cases rr)
      case im_success
      then show ?thesis using Cons.prems(3) m lu Inr q by auto
    next
      case im_dropped
      have "stays s u"
        using invoke_message_unconsumed [OF assms ls m [unfolded Inr q]] im_dropped hs by simp
      then show ?thesis using Cons.IH [OF lu] Cons.prems(3) m Inr q im_dropped by auto
    next
      case im_skipped
      then obtain e' where p: "p = Some e'" and h: "stays s u"
        using invoke_message_unconsumed [OF assms ls m [unfolded Inr q]] hs by auto
      let ?u = "u\<lparr>mailbox := (mailbox u)\<lparr>cache_second := kept @ e' # es\<rparr>\<rparr>"
      have "stays s ?u" using h by (simp add: has_behavior_def)
      then show ?thesis
        using Cons.IH [of ?u "kept @ [e']"] cache_update_keeps(2) [OF lu(1)] Cons.prems(3) m Inr q im_skipped p by auto
    qed
  qed
qed auto

lemma actor_done_result:
  assumes "well_behaved E" and "live s" and "actor_done E s = (d, t)"
  shows "if d then closed (mailbox t) else t = s \<and> has_behavior s"
proof -
  have "live (stack_cleanup (stack_clear (on_exit E s)))"
    using keeps_live keeps_stack_clear well_behavedD(5) [OF assms(1,2)] by blast
  then have w: "wf_srq (mailbox (stack_cleanup (stack_clear (on_exit E s))))" by (simp add: live_def)
  have "closed (mailbox (local_cleanup r u))" if "wf_srq (mailbox u)" for r u
    by (simp add: local_cleanup_def closed_def close_srq_visits [OF that])
  then show ?thesis using assms(3) w by (auto simp: actor_done_def Let_def split: if_splits)
qed

lemma get_behavior_live:
  assumes "live s" and "has_behavior s"
  obtains b d where "get_behavior s = Some b" and "timeout_of E b = Some d"
proof -
  obtain b where b: "get_behavior s = Some b" using assms(2) by (cases "pending_responses s") (auto simp: has_behavior_def get_behavior_def)
  then have "b \<noteq> Empty_Bhvr"
    using assms by (cases "pending_responses s") (auto simp: live_def get_behavior_def has_behavior_def split: if_splits, metis last_in_set)
  then obtain d where "timeout_of E b = Some d" by (cases b) auto
  with b show ?thesis using that by blast
qed

lemma cache_loop_result:
  assumes "well_behaved E"
  shows "live s \<Longrightarrow> has_behavior s \<Longrightarrow> length (cache_second (mailbox s)) < n \<Longrightarrow>
    \<exists>r t. cache_loop n E s = Some (r, t) \<and> (case r of Inl _ \<Rightarrow> live t
      | Inr fin \<Rightarrow> if fin then closed (mailbox t) else live t \<and> has_behavior t)"
proof (induction n arbitrary: s)
  case (Suc n)
  obtain b where b: "get_behavior s = Some b" using get_behavior_live [OF Suc.prems(1,2)] by metis
  obtain r t where r: "invoke_from_cache E b (awaited_response_id s) s = (r, t)" by force
  then have t: "live t" "r = Inr False \<Longrightarrow> stays s t"
    "r = Inr True \<Longrightarrow> length (cache_second (mailbox t)) < length (cache_second (mailbox s))"
    using invoke_cache_result [OF assms Suc.prems(1), of "[]" "cache_second (mailbox s)"]
    by (auto simp: invoke_from_cache_def)
  show ?case
  proof (cases "r = Inr True")
    case True
    obtain d u where d: "actor_done E t = (d, u)" by force
    show ?thesis using Suc.IH [of u] actor_done_result [OF assms t(1) d] t True Suc.prems(3) b r d
      by (cases d) auto
  qed (use b r t Suc.prems(2) in \<open>cases r; auto\<close>)
qed simp

lemma reset_timeout_result:
  assumes "live s" and "has_behavior s"
  shows "\<exists>t. reset_timeout_if_needed E h s = Some t \<and> live t \<and> has_behavior t \<and> hd_list (mailbox t) = hd_list (mailbox s)"
proof -
  obtain b d where b: "get_behavior s = Some b" "timeout_of E b = Some d" using get_behavior_live [OF assms] by metis
  have "hd_list (mailbox (local_enqueue e u)) = hd_list (mailbox u)" for e u
    by (simp add: local_enqueue_mailbox enqueue_def split: stack.splits)
  moreover have "bhvr_elements (local_enqueue e u) = bhvr_elements u" for e u
    by (auto simp: local_enqueue_def Let_def split: prod.splits enqueue_result.splits)
  ultimately have "hd_list (mailbox (snd (request_timeout d s))) = hd_list (mailbox s)"
    "has_behavior (snd (request_timeout d s)) = has_behavior s"
    by (auto simp: request_timeout_def delayed_send_impl_def has_behavior_def Let_def)
  then show ?thesis using b assms keeps_live [OF keeps_request_timeout [OF assms(1)]]
    by (auto simp: reset_timeout_if_needed_def)
qed

lemma handle_one_result:
  assumes "well_behaved E" and "live s" and "has_behavior s"
  shows "\<exists>r t. handle_one E e s = Some (r, t) \<and> (case r of Inl _ \<Rightarrow> live t
    | Inr (fin, h) \<Rightarrow> if fin then closed (mailbox t) else live t \<and> has_behavior t)"
proof -
  obtain b where b: "get_behavior s = Some b" using get_behavior_live [OF assms(2,3)] by metis
  obtain x t where x: "invoke_message E e b (awaited_response_id s) s = (x, t)" by force
  have lt: "live t" using invoke_message_keeps [OF assms(1,2)] x keeps_live by (metis snd_conv)
  show ?thesis
  proof (cases x)
    case (Inl ex)
    then show ?thesis using b x lt by (simp add: handle_one_def)
  next
    case (Inr q)
    obtain rr p where q: "q = (rr, p)" by force
    show ?thesis
    proof (cases rr)
      case im_success
      have lc: "live (stack_cleanup t)" using lt by (simp add: live_def stack_cleanup_def flag_def)
      obtain d u where d: "actor_done E (stack_cleanup t) = (d, u)" by force
      note du = actor_done_result [OF assms(1) lc d]
      show ?thesis
      proof (cases d)
        case True
        then show ?thesis using b x Inr q im_success d du by (simp add: handle_one_def)
      next
        case False
        then have "live u" "has_behavior u" using du lc by simp_all
        from cache_loop_result [OF assms(1) this lessI] obtain r v where
          "cache_loop (Suc (length (cache_second (mailbox u)))) E u = Some (r, v)"
          "case r of Inl _ \<Rightarrow> live v | Inr fin \<Rightarrow> if fin then closed (mailbox v) else live v \<and> has_behavior v" by blast
        then show ?thesis using b x Inr q im_success d False by (cases r) (auto simp: handle_one_def)
      qed
    next
      case im_dropped
      then show ?thesis using b x Inr q lt assms(3)
          invoke_message_unconsumed [OF assms(1,2) x [unfolded Inr q]] by (simp add: handle_one_def)
    next
      case im_skipped
      then obtain e' where "p = Some e'" "has_behavior t"
        using invoke_message_unconsumed [OF assms(1,2) x [unfolded Inr q]] assms(3) by auto
      moreover have "live (push_to_cache e' t)" "has_behavior (push_to_cache e' t) = has_behavior t"
        using lt cache_update_keeps(2) [OF lt] by (simp_all add: push_to_cache_def live_def has_behavior_def Let_def)
      ultimately show ?thesis using b x Inr q im_skipped by (simp add: handle_one_def)
    qed
  qed
qed

text \<open>What each result of the message loop says about the actor.\<close>

definition result_state :: "resume_result \<Rightarrow> local_actor \<Rightarrow> bool" where
  "result_state r t = (case r of
     resume_later \<Rightarrow> live t \<and> has_behavior t
   | awaiting_message \<Rightarrow> blocked (mailbox t) \<and> contents (mailbox t) = [] \<and> has_behavior t
   | done_result \<Rightarrow> closed (mailbox t))"

lemma try_block_result:
  assumes "live s" and "has_behavior s" and "hd_list (mailbox s) = []" and "try_block (mailbox s) = (ok, q)"
  shows "if ok then result_state awaiting_message (s\<lparr>mailbox := q\<rparr>) else live (s\<lparr>mailbox := q\<rparr>) \<and> has_behavior (s\<lparr>mailbox := q\<rparr>)"
  using assms by (auto simp: try_block_def result_state_def blocked_def contents_def live_def has_behavior_def flag_def
      split: if_splits)

lemma message_loop_result:
  assumes "well_behaved E"
  shows "live s \<Longrightarrow> has_behavior s \<Longrightarrow>
    \<exists>r t. message_loop n E h s = Some (r, t) \<and> (case r of Inl _ \<Rightarrow> live t | Inr rr \<Rightarrow> result_state rr t)"
proof (induction n arbitrary: s h)
  case 0
  obtain t where t: "reset_timeout_if_needed E h s = Some t" "live t" "has_behavior t"
    using reset_timeout_result [OF 0] by metis
  obtain ok q where q: "try_block (mailbox t) = (ok, q)" by force
  have "\<not> has_next_message t \<Longrightarrow> hd_list (mailbox t) = []"
    using t(2) by (auto simp: has_next_message_def live_def can_fetch_more_def split: if_splits)
  then show ?case using t q try_block_result [OF t(2,3) _ q]
    by (cases ok) (auto simp: result_state_def)
next
  case (Suc n)
  have "plain_inv s" using Suc.prems(1) by (simp add: plain_inv_def live_def)
  then obtain x t where x: "next_message s = Some (x, t)" "plain_inv t"
    "case contents (mailbox s) of [] \<Rightarrow> x = None \<and> contents (mailbox t) = [] | y # ys \<Rightarrow> x = Some y \<and> contents (mailbox t) = ys"
    using plain.fetch_front by blast
  have b: "same_bhvr s t"
    using x(1) \<open>plain_inv s\<close> by (auto simp: next_message_def plain_inv_def same_bhvr_def)
  have lt: "live t" "has_behavior t"
    using Suc.prems b x(2) has_behavior_same [OF b] by (simp_all add: live_def same_bhvr_def plain_inv_def)
  show ?case
  proof (cases x)
    case None
    then have "hd_list (mailbox t) = []" using x(3) by (cases "contents (mailbox s)") (auto simp: contents_def)
    then obtain u where u: "reset_timeout_if_needed E h t = Some u" "live u" "has_behavior u" "hd_list (mailbox u) = []"
      using reset_timeout_result [OF lt] by metis
    obtain ok q where q: "try_block (mailbox u) = (ok, q)" by force
    show ?thesis using x(1) None u q try_block_result [OF u(2,3,4) q] Suc.IH [of "u\<lparr>mailbox := q\<rparr>"] by (cases ok) auto
  next
    case (Some e)
    obtain r u where r: "handle_one E e t = Some (r, u)" "case r of Inl _ \<Rightarrow> live u
        | Inr (fin, h) \<Rightarrow> if fin then closed (mailbox u) else live u \<and> has_behavior u"
      using handle_one_result [OF assms lt] by blast
    show ?thesis
    proof (cases r)
      case (Inl ex)
      then show ?thesis using x(1) Some r by simp
    next
      case (Inr p)
      obtain fin h' where p: "p = (fin, h')" by force
      then show ?thesis using x(1) Some r Inr Suc.IH [of u "h \<or> h'"] by (cases fin) (auto simp: result_state_def)
    qed
  qed
qed

lemma after_exception_result:
  assumes "well_behaved E" and "live s" and "after_exception E ex s = (r, t)"
  shows "r \<noteq> awaiting_message \<and> result_state r t"
proof -
  let ?s1 = "if exit_rsn (self_state s) = not_exited then snd (quit (exn_reason ex) s) else s"
  let ?s2 = "case ex of Actor_Exited _ \<Rightarrow> ?s1
     | Std_Exception \<Rightarrow> (case handle_eptr (exception_handler E ex) (sys ?s1) (me ?s1) of
          Some r \<Rightarrow> ?s1\<lparr>planned_exit_reason := r\<rparr> | None \<Rightarrow> ?s1)"
  have "keeps s ?s1" using assms(2) by (simp add: keeps_refl keeps_quit)
  then have "keeps s ?s2" by (auto simp: keeps_field_updates split: exn.splits option.splits)
  then have l: "live ?s2" by (rule keeps_live)
  obtain d u where d: "actor_done E ?s2 = (d, u)" by force
  have "after_exception E ex s = (case (d, u) of (True, s3) \<Rightarrow> (done_result, s3) | (False, s3) \<Rightarrow> (resume_later, s3))"
    unfolding after_exception_def Let_def d [symmetric] ..
  then show ?thesis
    using assms(3) actor_done_result [OF assms(1) l d] l by (cases d) (auto simp: result_state_def)
qed

text \<open>The message loop with the exception handlers around it.\<close>

definition loop_and_catch :: "env \<Rightarrow> nat \<Rightarrow> local_actor \<Rightarrow> (resume_result \<times> local_actor) option" where
  "loop_and_catch E n u = (case message_loop n E False u of None \<Rightarrow> None
     | Some (Inl ex, s2) \<Rightarrow> Some (after_exception E ex s2) | Some (Inr r, s2) \<Rightarrow> Some (r, s2))"

lemma resume_loop:
  "resume_scheduled E n s = (if flag is_initialized_flag s then loop_and_catch E n s
     else (case initialize E s of
         (Inl ex, s1) \<Rightarrow> Some (after_exception E ex s1)
       | (Inr _, s1) \<Rightarrow> (case actor_done E s1 of
           (True, s2) \<Rightarrow> Some (done_result, s2) | (False, s2) \<Rightarrow> loop_and_catch E n s2)))"
  by (simp add: resume_scheduled_def loop_and_catch_def split: prod.split sum.split bool.split)

lemma loop_and_catch_result:
  assumes "well_behaved E" and "live u" and "has_behavior u"
  shows "\<exists>r t. loop_and_catch E n u = Some (r, t) \<and> result_state r t"
proof -
  obtain r t where r: "message_loop n E False u = Some (r, t)"
    "case r of Inl _ \<Rightarrow> live t | Inr rr \<Rightarrow> result_state rr t" using message_loop_result [OF assms] by blast
  show ?thesis
  proof (cases r)
    case (Inl ex)
    obtain rr v where "after_exception E ex t = (rr, v)" by force
    with after_exception_result [OF assms(1) _ this] r Inl show ?thesis by (simp add: loop_and_catch_def)
  qed (use r in \<open>simp add: loop_and_catch_def\<close>)
qed

lemma keeps_initialize:
  assumes "well_behaved E" and "live s"
  shows "keeps s (snd (initialize E s))"
proof -
  have p: "keeps s (put_flag is_initialized_flag True s)" using assms(2) by (simp add: keeps_put_flag)
  have m: "keeps s (snd (make_behavior E (put_flag is_initialized_flag True s)))"
    using keeps_trans [OF p well_behavedD(4) [OF assms(1) keeps_live [OF p]]] .
  have "keeps s u" if "keeps s t" "do_become E b True t = Some u" for t u b
    using keeps_trans [OF that(1) keeps_do_become [OF keeps_live [OF that(1)] that(2)]] .
  then show ?thesis unfolding initialize_def using m by (intro bindE_keeps) (auto split: option.split)
qed

lemma resume_scheduled_result:
  assumes "well_behaved E" and "live s" and "flag is_initialized_flag s \<longrightarrow> has_behavior s"
  shows "\<exists>r t. resume_scheduled E max_throughput s = Some (r, t) \<and> result_state r t"
proof (cases "flag is_initialized_flag s")
  case True
  then show ?thesis using loop_and_catch_result [OF assms(1,2)] assms(3)
    unfolding resume_loop by simp
next
  case False
  obtain x u where x: "initialize E s = (x, u)" by force
  have u: "live u" using keeps_live [OF keeps_initialize [OF assms(1,2)]] x by simp
  obtain d v where d: "actor_done E u = (d, v)" by force
  show ?thesis
  proof (cases x)
    case (Inl ex)
    obtain rr w where a: "after_exception E ex u = (rr, w)" by force
    with after_exception_result [OF assms(1) u a] x False Inl show ?thesis
      unfolding resume_loop by simp
  next
    case (Inr y)
    show ?thesis
    proof (cases d)
      case True
      then have "resume_scheduled E max_throughput s = Some (done_result, v)" using False x d Inr by (simp add: resume_loop)
      then show ?thesis using True actor_done_result [OF assms(1) u d] by (simp add: result_state_def)
    next
      case nd: False
      then have "resume_scheduled E max_throughput s = loop_and_catch E max_throughput v"
        using False x d Inr by (simp add: resume_loop)
      then show ?thesis using nd actor_done_result [OF assms(1) u d] loop_and_catch_result [OF assms(1)] u by simp
    qed
  qed
qed

text \<open>
  A blocking actor whose body raises an exception for which no attached handler gives a reason
  dereferences an empty optional.
\<close>

definition unhandled_in_act :: "env \<Rightarrow> local_actor \<Rightarrow> bool" where
  "unhandled_in_act E s \<longleftrightarrow> (\<exists>t. run_act E s = (Inl Std_Exception, t)
     \<and> handle_eptr (exception_handler E Std_Exception) (sys t) (me t) = None)"

lemma resume_blocking_result:
  assumes "well_behaved E" and "live s"
  shows "if unhandled_in_act E s then resume_blocking E s = None
    else \<exists>t. resume_blocking E s = Some (done_result, t) \<and> closed (mailbox t)"
proof -
  obtain x u where x: "run_act E s = (x, u)" by force
  have "live u" using keeps_live [OF well_behavedD(6) [OF assms]] x by simp
  then have "wf_srq (mailbox (on_exit E (u\<lparr>planned_exit_reason := r\<rparr>)))" for r
    using well_behavedD(5) [OF assms(1)] keeps_field_updates(2) keeps_refl keeps_live
    by (metis live_def)
  then have "closed (mailbox (local_cleanup q (on_exit E (u\<lparr>planned_exit_reason := r\<rparr>))))" for q r
    by (simp add: local_cleanup_def closed_def close_srq_visits)
  then show ?thesis
    using x by (auto simp: resume_blocking_def unhandled_in_act_def Let_def split: sum.splits exn.splits bind_splits)
qed

section \<open>Property\<close>


lemma quiet_well_behaved: "well_behaved quiet_env"
  by (simp add: well_behaved_def quiet_env_def keeps_refl)

lemma running_live: "live running_actor" "has_behavior running_actor"
  using fresh_priority [of False]
  by (simp_all add: live_def running_actor_def fresh_actor_def srq_init_def wf_srq_def closed_def has_behavior_def
      flag_def with_mail_def)


end
