(* ===== verification/Config_Server.thy ===== *)
theory Config_Server
  imports Atoms
begin

text \<open>
  The key-value store the registry runs under the name ConfigServ (actor\_registry.cpp, initialize):
  values by key, subscribers per key, and the topics of each subscriber. Each handler maps the state
  to the messages it sends and the new state. Missing entries that operator[] creates are created
  here as well.
\<close>

record kvstate =
  kv_data :: "string \<rightharpoonup> elem list \<times> nat set"
  kv_subscribers :: "nat \<rightharpoonup> string set"

text \<open>What can be the content of an update message: a value, or a set of subscribers.\<close>

datatype kv_payload = Value "elem list" | Subscribers "nat set"

datatype kv_out =
    Kv_Update nat string kv_payload
  | Kv_Monitor nat
  | Kv_Reply "elem list"

definition kv_init :: kvstate where
  "kv_init = \<lparr>kv_data = Map.empty, kv_subscribers = Map.empty\<rparr>"

definition data_at :: "string \<Rightarrow> kvstate \<Rightarrow> elem list \<times> nat set" where
  "data_at key s = (case kv_data s key of None \<Rightarrow> ([], {}) | Some v \<Rightarrow> v)"

definition topics_of :: "nat \<Rightarrow> kvstate \<Rightarrow> string set" where
  "topics_of a s = (case kv_subscribers s a of None \<Rightarrow> {} | Some ts \<Rightarrow> ts)"

definition set_data :: "string \<Rightarrow> elem list \<times> nat set \<Rightarrow> kvstate \<Rightarrow> kvstate" where
  "set_data key v s = s\<lparr>kv_data := (kv_data s)(key \<mapsto> v)\<rparr>"

definition set_topics :: "nat \<Rightarrow> string set \<Rightarrow> kvstate \<Rightarrow> kvstate" where
  "set_topics a ts s = s\<lparr>kv_subscribers := (kv_subscribers s)(a \<mapsto> ts)\<rparr>"

text \<open>The update message carries \<^verbatim>\<open>vp.second\<close>, the subscribers of the key, as the code has it.\<close>

definition kv_put :: "actor_addr \<Rightarrow> string \<Rightarrow> elem list \<Rightarrow> kvstate \<Rightarrow> kv_out set \<times> kvstate" where
  "kv_put sender key msg s = (let vp = data_at key s in
     if fst vp = msg then ({}, set_data key vp s)
     else ((\<lambda>a. Kv_Update a key (Subscribers (snd vp))) ` {a \<in> snd vp. Some a \<noteq> sender}, set_data key (msg, snd vp) s))"

definition kv_get :: "string \<Rightarrow> kvstate \<Rightarrow> kv_out set \<times> kvstate" where
  "kv_get key s = ({Kv_Reply [Atom ok_atom, Str key, Msg (fst (data_at key s))]}, s)"

definition kv_subscribe :: "actor_addr \<Rightarrow> string \<Rightarrow> kvstate \<Rightarrow> kv_out set \<times> kvstate" where
  "kv_subscribe sender key s = (case sender of None \<Rightarrow> ({}, s)
     | Some a \<Rightarrow> (let s1 = set_data key (fst (data_at key s), insert a (snd (data_at key s))) s in
         case kv_subscribers s a of
           Some ts \<Rightarrow> ({}, set_topics a (insert key ts) s1)
         | None \<Rightarrow> ({Kv_Monitor a}, set_topics a {key} s1)))"

definition kv_unsubscribe :: "actor_addr \<Rightarrow> string \<Rightarrow> kvstate \<Rightarrow> kv_out set \<times> kvstate" where
  "kv_unsubscribe sender key s = (case sender of None \<Rightarrow> ({}, s)
     | Some a \<Rightarrow> (let s1 = set_topics a (topics_of a s - {key}) s
         in ({}, set_data key (fst (data_at key s1), snd (data_at key s1) - {a}) s1)))"

definition kv_down :: "actor_addr \<Rightarrow> kvstate \<Rightarrow> kv_out set \<times> kvstate" where
  "kv_down source s = (case source of None \<Rightarrow> ({}, s)
     | Some a \<Rightarrow> (case kv_subscribers s a of None \<Rightarrow> ({}, s)
         | Some ts \<Rightarrow> ({}, \<lparr>kv_data = (\<lambda>key. if key \<in> ts then Some (fst (data_at key s), snd (data_at key s) - {a}) else kv_data s key),
             kv_subscribers = (kv_subscribers s)(a := None)\<rparr>)))"

definition kv_others :: "kvstate \<Rightarrow> kv_out set \<times> kvstate" where
  "kv_others s = ({Kv_Reply [Atom error_atom, Str ''unsupported operation'']}, s)"

definition kvstore :: "actor_addr \<Rightarrow> elem list \<Rightarrow> kvstate \<Rightarrow> kv_out set \<times> kvstate" where
  "kvstore sender content s = (case content of
     [Atom v, Str key, Msg m] \<Rightarrow> if v = put_atom then kv_put sender key m s else kv_others s
   | [Atom v, Str key] \<Rightarrow>
       if v = get_atom then kv_get key s
       else if v = subscribe_atom then kv_subscribe sender key s
       else if v = unsubscribe_atom then kv_unsubscribe sender key s
       else kv_others s
   | [Down source r] \<Rightarrow> kv_down source s
   | _ \<Rightarrow> kv_others s)"

text \<open>Runs of the store: all messages it sent, and its final state.\<close>

fun kv_run :: "(actor_addr \<times> elem list) list \<Rightarrow> kvstate \<Rightarrow> kv_out set list \<times> kvstate" where
  "kv_run [] s = ([], s)"
| "kv_run ((a, m) # ms) s = (let (out, s1) = kvstore a m s; (outs, s2) = kv_run ms s1 in (out # outs, s2))"

section \<open>Subscriptions\<close>

text \<open>Both directions of the subscription relation agree.\<close>

definition kv_inv :: "kvstate \<Rightarrow> bool" where
  "kv_inv s \<longleftrightarrow> (\<forall>a key. key \<in> topics_of a s \<longleftrightarrow> a \<in> snd (data_at key s))"

lemma kv_set_simps [simp]:
  "data_at k (set_data key v s) = (if k = key then v else data_at k s)"
  "data_at k (set_topics a ts s) = data_at k s"
  "topics_of b (set_topics a ts s) = (if b = a then ts else topics_of b s)"
  "topics_of b (set_data key v s) = topics_of b s"
  by (simp_all add: data_at_def topics_of_def set_data_def set_topics_def)

lemma kv_inv_down: "kv_inv s \<Longrightarrow> kv_inv (snd (kv_down source s))"
  by (auto simp: kv_down_def kv_inv_def topics_of_def data_at_def split: option.splits)

lemma kv_down_removes:
  assumes "kv_inv s"
  shows "a \<notin> snd (data_at key (snd (kv_down (Some a) s)))"
proof (cases "kv_subscribers s a")
  case None
  then have "topics_of a s = {}" by (simp add: topics_of_def)
  then show ?thesis using assms None by (auto simp: kv_down_def kv_inv_def)
next
  case (Some ts)
  then have "topics_of a s = ts" by (simp add: topics_of_def)
  then have "key \<in> ts \<longleftrightarrow> a \<in> snd (data_at key s)" using assms by (auto simp: kv_inv_def)
  then show ?thesis using Some by (auto simp: kv_down_def data_at_def split: option.splits)
qed

lemma kv_subscribe_state:
  "snd (kv_subscribe (Some a) key s) = set_topics a (insert key (topics_of a s))
     (set_data key (fst (data_at key s), insert a (snd (data_at key s))) s)"
  by (simp add: kv_subscribe_def topics_of_def Let_def split: option.splits)

lemma kv_inv_subscribe: "kv_inv s \<Longrightarrow> kv_inv (snd (kv_subscribe sender key s))"
  by (cases sender) (auto simp: kv_subscribe_state kv_inv_def kv_subscribe_def [of None])

lemma kvstore_inv: "kv_inv s \<Longrightarrow> kv_inv (snd (kvstore sender m s))"
proof -
  assume i: "kv_inv s"
  have "kv_inv (snd (kv_put sender key x s))" for key x
    using i by (auto simp: kv_put_def kv_inv_def Let_def)
  moreover have "kv_inv (snd (kv_unsubscribe sender key s))" for key
    using i by (auto simp: kv_unsubscribe_def kv_inv_def Let_def split: option.splits)
  ultimately show ?thesis using i kv_inv_down [OF i] kv_inv_subscribe [OF i]
    by (auto simp: kvstore_def kv_get_def kv_others_def split: list.splits elem.splits)
qed

lemma kv_run_inv: "kv_inv s \<Longrightarrow> kv_inv (snd (kv_run ms s))"
proof (induction ms arbitrary: s)
  case (Cons m ms)
  obtain a c where m: "m = (a, c)" by force
  have "kv_inv (snd (kv_run ms (snd (kvstore a c s))))" using Cons kvstore_inv by blast
  then show ?case
    by (cases "kvstore a c s"; cases "kv_run ms (snd (kvstore a c s))") (simp add: m)
qed simp

lemma kv_atoms_distinct:
  "get_atom \<noteq> subscribe_atom" "get_atom \<noteq> unsubscribe_atom" "subscribe_atom \<noteq> unsubscribe_atom"
  "put_atom \<noteq> get_atom" "subscribe_atom \<noteq> get_atom" "unsubscribe_atom \<noteq> subscribe_atom" "unsubscribe_atom \<noteq> get_atom"
  by code_simp+

text \<open>
  C28: Whatever messages the key-value store received, the subscribers recorded per key and the
  topics recorded per subscriber agree; a get after a put returns the value put; once the down
  message of a subscriber has arrived (the store gets one only for those it monitors) it is not
  recorded under any key any more, and a put then sends it nothing.
\<close>

theorem kvstore_correct:
  "(let s = snd (kv_run ms kv_init) in
     (\<forall>a key. key \<in> topics_of a s \<longleftrightarrow> a \<in> snd (data_at key s))
     \<and> fst (kvstore b [Atom get_atom, Str key] (snd (kvstore c [Atom put_atom, Str key, Msg m] s)))
         = {Kv_Reply [Atom ok_atom, Str key, Msg m]}
     \<and> (let t = snd (kvstore b [Down (Some a) r] s) in
         \<forall>k x v. a \<notin> snd (data_at k t) \<and> Kv_Update a k v \<notin> fst (kvstore c [Atom put_atom, Str k, Msg x] t)))"
proof -
  let ?s = "snd (kv_run ms kv_init)"
  have "kv_inv kv_init" by (simp add: kv_inv_def kv_init_def topics_of_def data_at_def)
  then have i: "kv_inv ?s" by (rule kv_run_inv)
  have g: "fst (kvstore b [Atom get_atom, Str key] (snd (kvstore c [Atom put_atom, Str key, Msg m] ?s)))
         = {Kv_Reply [Atom ok_atom, Str key, Msg m]}"
    by (simp add: kvstore_def kv_get_def kv_put_def Let_def)
  have "a \<notin> snd (data_at k (snd (kv_down (Some a) ?s)))" for k
    using i by (rule kv_down_removes)
  moreover have "Kv_Update a k v \<notin> fst (kv_put c k x t)" if "a \<notin> snd (data_at k t)" for k x v t
    using that by (auto simp: kv_put_def Let_def)
  ultimately show ?thesis using i g unfolding Let_def by (simp add: kvstore_def kv_inv_def)
qed

text \<open>A known subscriber is not monitored again until its down message arrives.\<close>

definition no_down :: "nat \<Rightarrow> (actor_addr \<times> elem list) list \<Rightarrow> bool" where
  "no_down a ms \<longleftrightarrow> list_all (\<lambda>m. \<forall>r. snd m \<noteq> [Down (Some a) r]) ms"

lemma kvstore_known:
  assumes "kv_subscribers s a \<noteq> None" and "\<forall>r. m \<noteq> [Down (Some a) r]"
  shows "kv_subscribers (snd (kvstore b m s)) a \<noteq> None \<and> Kv_Monitor a \<notin> fst (kvstore b m s)"
proof -
  have "kv_subscribers (snd (kv_down c s)) a \<noteq> None \<and> Kv_Monitor a \<notin> fst (kv_down c s)" if "c \<noteq> Some a" for c
    using assms(1) that by (auto simp: kv_down_def split: option.splits)
  then show ?thesis using assms
    by (auto simp: kvstore_def kv_put_def kv_get_def kv_subscribe_def kv_unsubscribe_def kv_others_def set_data_def
        set_topics_def Let_def split: list.splits elem.splits option.splits if_splits)
qed

lemma kv_run_Cons:
  "kv_run ((b, c) # ms) s =
     (fst (kvstore b c s) # fst (kv_run ms (snd (kvstore b c s))), snd (kv_run ms (snd (kvstore b c s))))"
  by (simp add: prod.case_eq_if)

lemma kv_run_known:
  "kv_subscribers s a \<noteq> None \<Longrightarrow> no_down a ms \<Longrightarrow> Kv_Monitor a \<notin> \<Union> (set (fst (kv_run ms s)))"
proof (induction ms arbitrary: s)
  case (Cons m ms)
  obtain b c where m: "m = (b, c)" by force
  have "kv_subscribers (snd (kvstore b c s)) a \<noteq> None \<and> Kv_Monitor a \<notin> fst (kvstore b c s)"
    by (rule kvstore_known) (use Cons.prems m in \<open>simp_all add: no_down_def\<close>)
  moreover from this have "Kv_Monitor a \<notin> \<Union> (set (fst (kv_run ms (snd (kvstore b c s)))))"
    by (intro Cons.IH) (use Cons.prems in \<open>simp_all add: no_down_def\<close>)
  ultimately show ?case by (simp add: m kv_run_Cons del: kv_run.simps(2))
qed simp

lemma kv_run_append:
  "snd (kv_run (xs @ [(b, c)]) s) = snd (kvstore b c (snd (kv_run xs s)))"
  by (induction xs arbitrary: s) (auto simp: kv_run_Cons simp del: kv_run.simps(2))

text \<open>
  C35: Two defects of the key-value store, in any state. When an actor the store does not know yet unsubscribes from a
  key, it is recorded as a known subscriber without being monitored: whatever happens until the store
  receives a down message of that actor (which nobody asked for), the store never monitors it, also when it subscribes
  afterwards and stands in the subscribers of a key. And every update message sent to a subscriber when a
  value changes carries the set of subscribers of the key; no update message carries a value.
\<close>

theorem kvstore_defects:
  assumes "kv_subscribers s a = None" and "no_down a ms"
  shows "(let ms' = (Some a, [Atom unsubscribe_atom, Str k]) # ms @ [(Some a, [Atom subscribe_atom, Str key])];
         (outs, t) = kv_run ms' s
       in a \<in> snd (data_at key t) \<and> Kv_Monitor a \<notin> \<Union> (set outs))
   \<and> (m \<noteq> fst (data_at key s) \<longrightarrow>
        fst (kvstore b [Atom put_atom, Str key, Msg m] s)
          = {Kv_Update c key (Subscribers (snd (data_at key s))) | c. c \<in> snd (data_at key s) \<and> Some c \<noteq> b})
   \<and> Kv_Update c key (Value v) \<notin> fst (kvstore b x s)"
proof -
  let ?s = "snd (kvstore (Some a) [Atom unsubscribe_atom, Str k] s)"
  let ?ms = "ms @ [(Some a, [Atom subscribe_atom, Str key])]"
  have u: "fst (kvstore (Some a) [Atom unsubscribe_atom, Str k] s) = {}" "kv_subscribers ?s a \<noteq> None"
    by (simp_all add: kvstore_def kv_atoms_distinct kv_unsubscribe_def Let_def set_topics_def set_data_def)
  have "Kv_Monitor a \<notin> \<Union> (set (fst (kv_run ?ms ?s)))"
    by (rule kv_run_known [OF u(2)]) (use assms(2) in \<open>simp add: no_down_def\<close>)
  moreover have "a \<in> snd (data_at key (snd (kv_run ?ms ?s)))"
    by (simp add: kv_run_append kvstore_def kv_atoms_distinct kv_subscribe_state)
  moreover have "kv_run ((Some a, [Atom unsubscribe_atom, Str k]) # ?ms) s = ({} # fst (kv_run ?ms ?s), snd (kv_run ?ms ?s))"
    using u(1) by (simp add: kv_run_Cons del: kv_run.simps)
  ultimately have "let ms' = (Some a, [Atom unsubscribe_atom, Str k]) # ?ms; (outs, t) = kv_run ms' s
       in a \<in> snd (data_at key t) \<and> Kv_Monitor a \<notin> \<Union> (set outs)"
    unfolding Let_def by (simp del: kv_run.simps)
  moreover have "m \<noteq> fst (data_at key s) \<longrightarrow> fst (kvstore b [Atom put_atom, Str key, Msg m] s)
          = {Kv_Update c key (Subscribers (snd (data_at key s))) | c. c \<in> snd (data_at key s) \<and> Some c \<noteq> b}"
    by (auto simp: kvstore_def kv_put_def Let_def)
  moreover have "Kv_Update c key (Value v) \<notin> fst (kvstore b x s)"
    by (auto simp: kvstore_def kv_put_def kv_get_def kv_subscribe_def kv_unsubscribe_def kv_down_def kv_others_def Let_def
        split: list.splits elem.splits option.splits)
  ultimately show ?thesis by blast
qed

text \<open>Actor 7 subscribed to a key; actor 8 changes its value; actor 9 unsubscribes before it subscribes.\<close>

theorem kvstore_defects_witness:
  "let s = snd (kvstore (Some 7) [Atom subscribe_atom, Str ''k''] kv_init) in
     fst (kvstore (Some 8) [Atom put_atom, Str ''k'', Msg [U16 1]] s) = {Kv_Update 7 ''k'' (Subscribers {7})}
     \<and> (let (outs, t) = kv_run [(Some 9, [Atom unsubscribe_atom, Str ''k'']), (Some 9, [Atom subscribe_atom, Str ''k''])] s
        in 9 \<in> snd (data_at ''k'' t) \<and> Kv_Monitor 9 \<notin> \<Union> (set outs))"
proof -
  let ?s = "snd (kvstore (Some 7) [Atom subscribe_atom, Str ''k''] kv_init)"
  have s: "kv_subscribers ?s 9 = None" "data_at ''k'' ?s = ([], {7})" "no_down 9 []"
    by (simp_all add: kvstore_def kv_atoms_distinct kv_subscribe_def kv_init_def set_data_def set_topics_def data_at_def
        no_down_def Let_def)
  show ?thesis
    using kvstore_defects [OF s(1,3), of "''k''" "''k''" "[U16 1]" "Some 8" 7 "[]" "[]"] s(2)
    unfolding Let_def by (simp del: kv_run.simps)
qed

end
