(* ===== verification/Ieee_754.thy ===== *)
theory Ieee_754
  imports Complex_Main Actor_Prelude
begin

text \<open>
  The conversion of floating point numbers to their binary form (detail/ieee\_754.hpp). A number is
  an exact rational, an infinity or not a number; the operations round the way the hardware does
  where a result is not representable (overflow to infinity, round to nearest even below the normal
  range). The width of the packed type is the word length, expbits and the number of significand
  bits follow from the trait: 8 of 32 bits for float, 11 of 64 bits for double.
\<close>

datatype fp = Finite rat | Infinity bool | NaN

section \<open>Floating point arithmetic the conversion uses\<close>

definition bias :: "nat \<Rightarrow> nat" where
  "bias eb = 2 ^ (eb - 1) - 1"

definition round_half_even :: "rat \<Rightarrow> int" where
  "round_half_even q = (let f = \<lfloor>q\<rfloor>; d = q - of_int f in
     if d < 1 / 2 then f else if d > 1 / 2 then f + 1 else if even f then f else f + 1)"

fun fp_half :: "nat \<Rightarrow> nat \<Rightarrow> fp \<Rightarrow> fp" where
  "fp_half eb sb (Finite x) =
     (let y = x / 2; ulp = 1 / 2 ^ (bias eb + sb - 1) in
      if \<bar>y\<bar> < 1 / 2 ^ (bias eb - 1) then Finite (of_int (round_half_even (y / ulp)) * ulp) else Finite y)"
| "fp_half eb sb f = f"

fun fp_twice :: "nat \<Rightarrow> fp \<Rightarrow> fp" where
  "fp_twice eb (Finite x) = (if \<bar>2 * x\<bar> \<ge> 2 ^ (bias eb + 1) then Infinity (x < 0) else Finite (2 * x))"
| "fp_twice eb f = f"

fun fp_neg :: "fp \<Rightarrow> fp" where
  "fp_neg (Finite x) = Finite (- x)"
| "fp_neg (Infinity s) = Infinity (\<not> s)"
| "fp_neg NaN = NaN"

text \<open>Comparisons with a number; all are false for NaN.\<close>

fun fp_ge :: "fp \<Rightarrow> rat \<Rightarrow> bool" where
  "fp_ge (Finite x) y = (x \<ge> y)"
| "fp_ge (Infinity s) y = (\<not> s)"
| "fp_ge NaN y = False"

fun fp_lt :: "fp \<Rightarrow> rat \<Rightarrow> bool" where
  "fp_lt (Finite x) y = (x < y)"
| "fp_lt (Infinity s) y = s"
| "fp_lt NaN y = False"

section \<open>Packing\<close>

text \<open>The two normalization loops; None is a loop that does not end.\<close>

partial_function (option) norm_down :: "nat \<Rightarrow> nat \<Rightarrow> fp \<Rightarrow> 'w::len word \<Rightarrow> (fp \<times> 'w word) option" where
  "norm_down eb sb fnorm shift =
     (if fp_ge fnorm 2 then norm_down eb sb (fp_half eb sb fnorm) (shift + 1) else Some (fnorm, shift))"

partial_function (option) norm_up :: "nat \<Rightarrow> fp \<Rightarrow> 'w::len word \<Rightarrow> (fp \<times> 'w word) option" where
  "norm_up eb fnorm shift =
     (if fp_lt fnorm 1 then norm_up eb (fp_twice eb fnorm) (shift - 1) else Some (fnorm, shift))"

declare norm_down.simps [code]

declare norm_up.simps [code]

text \<open>
  Packing; None also stands for the conversion of a NaN to an integer, which is undefined. The
  factor pownum + p5 rounds to pownum: its distance to the next representable number is one.
\<close>

definition pack754 :: "nat \<Rightarrow> fp \<Rightarrow> 'w::len word option" where
  "pack754 eb f =
     (if f = Finite 0 then Some 0
      else let sb = LENGTH('w) - eb - 1;
               neg = fp_lt f 0;
               fnorm = (if neg then fp_neg f else f)
           in Option.bind (norm_down eb sb fnorm 0) (\<lambda>(f1, shift1).
              Option.bind (norm_up eb f1 shift1) (\<lambda>(f2, shift2).
                (case f2 of
                   Finite x \<Rightarrow>
                     (let significand = of_int \<lfloor>(x - 1) * 2 ^ sb\<rfloor>;
                          exponent = shift2 + of_nat (bias eb);
                          sign = (if neg then 1 else 0)
                      in Some (push_bit (LENGTH('w) - 1) sign
                               OR push_bit (LENGTH('w) - eb - 1) exponent OR significand))
                 | _ \<Rightarrow> None))))"

section \<open>Unpacking\<close>

fun scale_up :: "nat \<Rightarrow> nat \<Rightarrow> fp \<Rightarrow> fp" where
  "scale_up eb 0 r = r"
| "scale_up eb (Suc n) r = scale_up eb n (fp_twice eb r)"

fun scale_down :: "nat \<Rightarrow> nat \<Rightarrow> nat \<Rightarrow> fp \<Rightarrow> fp" where
  "scale_down eb sb 0 r = r"
| "scale_down eb sb (Suc n) r = scale_down eb sb n (fp_half eb sb r)"

definition unpack754 :: "nat \<Rightarrow> 'w::len word \<Rightarrow> fp" where
  "unpack754 eb i =
     (if i = 0 then Finite 0
      else let sb = LENGTH('w) - eb - 1;
               r = Finite (of_nat (unat (i AND mask sb)) / 2 ^ sb + 1);
               shift = int (unat (drop_bit sb i AND mask eb)) - int (bias eb);
               r1 = scale_up eb (nat shift) r;
               r2 = scale_down eb sb (nat (- shift)) r1
           in if drop_bit (LENGTH('w) - 1) i AND 1 \<noteq> 0 then fp_neg r2 else r2)"

section \<open>Normal numbers\<close>

lemma norm_down_infinite: "norm_down eb sb (Infinity False) (shift :: 'w::len word) = None"
proof (rule ccontr)
  let ?P = "\<lambda>eb sb f (sh :: 'w word) (r :: fp \<times> 'w word). f \<noteq> Infinity False"
  assume "norm_down eb sb (Infinity False) shift \<noteq> None"
  then obtain r where r: "norm_down eb sb (Infinity False) shift = Some r" by blast
  have "?P eb sb (Infinity False) shift r"
  proof (rule norm_down.raw_induct [where P = ?P, OF _ r])
    fix h eb sb fnorm and shift :: "'w word" and y
    assume IH: "\<And>eb sb f (sh :: 'w word) y. h eb sb f sh = Some y \<Longrightarrow> f \<noteq> Infinity False"
      and eq: "(if fp_ge fnorm 2 then h eb sb (fp_half eb sb fnorm) (shift + 1) else Some (fnorm, shift)) = Some y"
    show "fnorm \<noteq> Infinity False" using eq IH [of eb sb "Infinity False" "shift + 1" y] by auto
  qed
  then show False by simp
qed

lemma pow_le_one: "1 / 2 ^ n \<le> (1 :: rat)"
  by (simp add: field_simps)

lemma half_exact: "2 \<le> x \<Longrightarrow> fp_half eb sb (Finite x) = Finite (x / 2)"
proof -
  assume "2 \<le> x"
  then have "1 \<le> x / 2" by simp
  then have "1 / 2 ^ (bias eb - 1) \<le> \<bar>x / 2\<bar>" using pow_le_one [of "bias eb - 1"] by linarith
  then have "\<not> \<bar>x / 2\<bar> < 1 / 2 ^ (bias eb - 1)" by (simp only: not_less)
  then show ?thesis by (simp only: fp_half.simps Let_def if_False)
qed

lemma norm_down_normal:
  assumes "1 \<le> y" and "y < 2"
  shows "norm_down eb sb (Finite (y * 2 ^ n)) shift = Some (Finite y, shift + of_nat n)"
proof (induction n arbitrary: shift)
  case 0
  then show ?case using assms by (subst norm_down.simps) simp
next
  case (Suc n)
  have "1 * 2 ^ Suc 0 \<le> y * 2 ^ Suc n" using assms(1) by (intro mult_mono power_increasing) auto
  then have "2 \<le> y * 2 ^ Suc n" by simp
  then show ?case using half_exact [of "y * 2 ^ Suc n" eb sb] Suc [of "shift + 1"]
    by (subst norm_down.simps) (simp add: add.assoc)
qed

lemma twice_exact:
  assumes "0 \<le> x" and "x < 1" and "0 < bias eb"
  shows "fp_twice eb (Finite x) = Finite (2 * x)"
proof -
  have "(1 :: rat) \<le> 2 ^ bias eb" by simp
  then have "\<not> 2 ^ bias eb \<le> x" using assms(2) by linarith
  then show ?thesis using assms by simp
qed

lemma norm_up_normal:
  assumes "1 \<le> y" and "y < 2" and "0 < bias eb"
  shows "norm_up eb (Finite (y / 2 ^ n)) shift = Some (Finite y, shift - of_nat n)"
proof (induction n arbitrary: shift)
  case 0
  then show ?case using assms by (subst norm_up.simps) simp
next
  case (Suc n)
  have "y / 2 ^ Suc n < 1"
  proof -
    have "(1 :: rat) \<le> 2 ^ n" by simp
    then have "y < 2 * 2 ^ n" using assms(2) by linarith
    then show ?thesis by (simp add: field_simps)
  qed
  then show ?case using twice_exact [of "y / 2 ^ Suc n" eb] Suc [of "shift - 1"] assms
    by (subst norm_up.simps) (simp add: algebra_simps)
qed

text \<open>The normalization of a positive normal number of any exponent.\<close>

lemma normalize_normal:
  assumes "1 \<le> y" and "y < 2" and "0 < bias eb"
  shows "Option.bind (norm_down eb sb (Finite (y * 2 powi e)) (0 :: 'w::len word)) (\<lambda>(f, sh). norm_up eb f sh)
    = Some (Finite y, of_int e)"
proof (cases "0 \<le> e")
  case True
  then obtain n where n: "e = int n" by (metis nonneg_int_cases)
  show ?thesis using norm_down_normal [OF assms(1,2), of eb sb n "0 :: 'w word"]
      norm_up_normal [OF assms, of 0 "of_nat n :: 'w word"] n by (simp add: power_int_def)
next
  case False
  then obtain n where n: "e = - int n" "0 < n" by (metis neg_int_cases not_le)
  have "y / 2 ^ n < 2"
  proof -
    have "y / 2 ^ n \<le> y / 1" using assms(1) by (intro divide_left_mono) auto
    then show ?thesis using assms(2) by simp
  qed
  then have "norm_down eb sb (Finite (y / 2 ^ n)) (0 :: 'w word) = Some (Finite (y / 2 ^ n), 0)"
    by (subst norm_down.simps) simp
  then show ?thesis using norm_up_normal [OF assms, of n "0 :: 'w word"] n
    by (simp add: power_int_def field_simps)
qed

section \<open>Layout\<close>

lemma layout_fields:
  fixes s x m :: "'w::len word"
  assumes "sb + eb + 1 = LENGTH('w)" and "unat m < 2 ^ sb" and "unat x < 2 ^ eb" and "unat s < 2 ^ 1"
  defines "w \<equiv> push_bit (LENGTH('w) - 1) s OR push_bit sb x OR m"
  shows "w AND mask sb = m" and "drop_bit sb w AND mask eb = x" and "drop_bit (LENGTH('w) - 1) w AND 1 = s"
proof -
  have bm: "bit m k \<Longrightarrow> k < sb" and bx: "bit x k \<Longrightarrow> k < eb" and bs: "bit s k \<Longrightarrow> k < 1" for k
    using unat_less_not_bit assms(2-4) not_le by blast+
  show "w AND mask sb = m"
    unfolding w_def using assms(1) by (intro bit_word_eqI) (auto simp: bit_simps dest: bm bx bs)
  show "drop_bit sb w AND mask eb = x"
    unfolding w_def using assms(1) by (intro bit_word_eqI) (auto simp: bit_simps dest: bm bx bs)
  have "drop_bit (LENGTH('w) - 1) w AND mask 1 = s"
    unfolding w_def using assms(1)
    by (intro bit_word_eqI) (auto simp: bit_simps dest: bm bx bs)
  then show "drop_bit (LENGTH('w) - 1) w AND 1 = s" by simp
qed

section \<open>Scaling\<close>

lemma scale_up_exact:
  "1 \<le> y \<Longrightarrow> y * 2 ^ n < 2 ^ (bias eb + 1) \<Longrightarrow> scale_up eb n (Finite y) = Finite (y * 2 ^ n)"
proof (induction n arbitrary: y)
  case (Suc n)
  have "2 * y * 1 \<le> 2 * y * 2 ^ n" using Suc.prems(1) by (intro mult_left_mono) auto
  then have "2 * y < 2 ^ (bias eb + 1)" using Suc.prems(2) by (simp add: algebra_simps)
  then have "fp_twice eb (Finite y) = Finite (2 * y)" using Suc.prems(1) by simp
  then show ?case using Suc.IH [of "2 * y"] Suc.prems by (simp add: algebra_simps)
qed simp

lemma scale_down_exact:
  "0 < y \<Longrightarrow> 1 / 2 ^ (bias eb - 1) \<le> y / 2 ^ n \<Longrightarrow> scale_down eb sb n (Finite y) = Finite (y / 2 ^ n)"
proof (induction n arbitrary: y)
  case (Suc n)
  have "y / 2 / 2 ^ n \<le> y / 2 / 1" using Suc.prems(1) by (intro divide_left_mono) auto
  then have "1 / 2 ^ (bias eb - 1) \<le> y / 2" using Suc.prems(2) by simp
  then have "\<not> \<bar>y / 2\<bar> < 1 / 2 ^ (bias eb - 1)" using Suc.prems(1) by linarith
  then have "fp_half eb sb (Finite y) = Finite (y / 2)" by (simp only: fp_half.simps Let_def if_False)
  then show ?case using Suc.IH [of "y / 2"] Suc.prems by simp
qed simp

text \<open>A number in normal range is determined by sign, significand and exponent.\<close>

definition normal_value :: "nat \<Rightarrow> bool \<Rightarrow> nat \<Rightarrow> int \<Rightarrow> rat" where
  "normal_value sb s m e = (if s then - 1 else 1) * (1 + of_nat m / 2 ^ sb) * 2 powi e"

lemma scale_normal:
  assumes "1 \<le> y" and "y < 2" and "1 - int (bias eb) \<le> e" and "e \<le> int (bias eb)"
  shows "scale_down eb sb (nat (- e)) (scale_up eb (nat e) (Finite y)) = Finite (y * 2 powi e)"
proof (cases "0 \<le> e")
  case True
  then obtain n where n: "e = int n" by (metis nonneg_int_cases)
  have "y * 2 ^ n < 2 * 2 ^ bias eb"
  proof -
    have "y * 2 ^ n < 2 * 2 ^ n" using assms(2) by simp
    also have "(2 :: rat) * 2 ^ n \<le> 2 * 2 ^ bias eb" using assms(4) n by (intro mult_left_mono power_increasing) auto
    finally show ?thesis .
  qed
  then show ?thesis using scale_up_exact [OF assms(1), of n eb] n by simp
next
  case False
  then obtain n where n: "e = - int n" by (metis int_cases2 of_nat_0_le_iff)
  have "1 / 2 ^ (bias eb - 1) \<le> 1 / (2 :: rat) ^ n"
    using assms(3) n by (intro divide_left_mono power_increasing) auto
  also have "1 / 2 ^ n \<le> y / 2 ^ n" using assms(1) by (intro divide_right_mono) auto
  finally show ?thesis using scale_down_exact [of y eb n sb] assms(1) n by (simp add: power_int_minus field_simps)
qed

text \<open>The binary form of a number: sign bit, biased exponent, significand.\<close>

definition ieee_layout :: "nat \<Rightarrow> bool \<Rightarrow> nat \<Rightarrow> nat \<Rightarrow> 'w::len word" where
  "ieee_layout eb s x m = push_bit (LENGTH('w) - 1) (if s then 1 else 0)
     OR push_bit (LENGTH('w) - eb - 1) (of_nat x) OR of_nat m"

lemma unat_of_nat_small: "n < 2 ^ k \<Longrightarrow> k \<le> LENGTH('w) \<Longrightarrow> unat (of_nat n :: 'w::len word) = n"
proof -
  assume "n < 2 ^ k" "k \<le> LENGTH('w)"
  then have "n < 2 ^ LENGTH('w)" by (meson less_le_trans one_le_numeral power_increasing)
  then show ?thesis by (simp add: unat_of_nat take_bit_nat_eq_self_iff)
qed

lemma layout_unpack:
  assumes w: "sb + eb + 1 = LENGTH('w::len)" and m: "m < 2 ^ sb" and x: "x < 2 ^ eb" "0 < x"
  shows "unat ((ieee_layout eb s x m :: 'w word) AND mask sb) = m"
    and "unat (drop_bit sb (ieee_layout eb s x m :: 'w word) AND mask eb) = x"
    and "drop_bit (LENGTH('w) - 1) (ieee_layout eb s x m :: 'w word) AND 1 \<noteq> 0 \<longleftrightarrow> s"
    and "(ieee_layout eb s x m :: 'w word) \<noteq> 0"
proof -
  have um: "unat (of_nat m :: 'w word) = m" "unat (of_nat x :: 'w word) = x"
    using unat_of_nat_small [OF m, where 'w = 'w] unat_of_nat_small [OF x(1), where 'w = 'w] w by simp_all
  have sb: "LENGTH('w) - eb - 1 = sb" using w by simp
  note l = layout_fields [OF w, of "of_nat m" "of_nat x" "if s then 1 else 0", unfolded um]
  have r: "(ieee_layout eb s x m :: 'w word) AND mask sb = of_nat m"
    "drop_bit sb (ieee_layout eb s x m :: 'w word) AND mask eb = of_nat x"
    "drop_bit (LENGTH('w) - 1) (ieee_layout eb s x m :: 'w word) AND 1 = (if s then 1 else 0)"
    unfolding ieee_layout_def sb using l m x(1) by simp_all
  show "unat ((ieee_layout eb s x m :: 'w word) AND mask sb) = m"
    "unat (drop_bit sb (ieee_layout eb s x m :: 'w word) AND mask eb) = x" using r(1,2) um by simp_all
  show "drop_bit (LENGTH('w) - 1) (ieee_layout eb s x m :: 'w word) AND 1 \<noteq> 0 \<longleftrightarrow> s" using r(3) by simp
  show "(ieee_layout eb s x m :: 'w word) \<noteq> 0" using r(2) um(2) x(2) by (metis and_zero_eq drop_bit_of_0 less_irrefl unsigned_0 and.commute)
qed

lemma pack_normal:
  assumes w: "sb + eb + 1 = LENGTH('w::len)" and eb: "2 \<le> eb" and m: "m < 2 ^ sb"
    and e: "1 - int (bias eb) \<le> e" "e \<le> int (bias eb)"
  shows "pack754 eb (Finite (normal_value sb s m e)) = Some (ieee_layout eb s (nat (e + int (bias eb))) m :: 'w word)"
    and "unpack754 eb (ieee_layout eb s (nat (e + int (bias eb))) m :: 'w word) = Finite (normal_value sb s m e)"
proof -
  let ?y = "1 + of_nat m / 2 ^ sb :: rat"
  let ?x = "nat (e + int (bias eb))"
  have "rat_of_nat m < 2 ^ sb" using m by (metis of_nat_less_iff of_nat_numeral of_nat_power)
  then have y: "1 \<le> ?y" "?y < 2" by (simp_all add: field_simps)
  have "(2 :: nat) ^ 1 \<le> 2 ^ (eb - 1)" using eb by (intro power_increasing) auto
  moreover have "(2 :: nat) ^ eb = 2 * 2 ^ (eb - 1)" using eb by (metis Suc_1 Suc_le_D diff_Suc_1 power_Suc)
  ultimately have b: "0 < bias eb" "2 * bias eb < 2 ^ eb" by (simp_all add: bias_def)
  have x: "?x < 2 ^ eb" "0 < ?x" using e b(2) by linarith+
  have p: "(0 :: rat) < 2 powi e" by simp
  have sb: "LENGTH('w) - eb - 1 = sb" "LENGTH('w) - Suc eb = sb" using w by simp_all
  have fl: "\<lfloor>(?y - 1) * 2 ^ sb\<rfloor> = int m" by simp
  have pos: "0 < ?y * 2 powi e" using y(1) p by (intro mult_pos_pos) linarith+
  have nv: "normal_value sb s m e = (if s then - (?y * 2 powi e) else ?y * 2 powi e)"
    by (simp add: normal_value_def algebra_simps)
  have nz: "normal_value sb s m e \<noteq> 0" using pos unfolding nv by auto
  have sg: "fp_lt (Finite (normal_value sb s m e)) 0 = s"
    "(if s then fp_neg (Finite (normal_value sb s m e)) else Finite (normal_value sb s m e)) = Finite (?y * 2 powi e)"
    using pos unfolding nv by auto
  obtain f sh where n: "norm_down eb sb (Finite (?y * 2 powi e)) (0 :: 'w word) = Some (f, sh)"
    "norm_up eb f sh = Some (Finite ?y, of_int e)"
    using normalize_normal [OF y b(1), of sb e, where 'w = 'w] by (auto simp: bind_eq_Some_conv)
  have ex: "of_int e + of_nat (bias eb) = (of_nat ?x :: 'w word)"
    using x(2) by (simp add: of_nat_nat)
  show "pack754 eb (Finite (normal_value sb s m e)) = Some (ieee_layout eb s ?x m :: 'w word)"
    using nz unfolding pack754_def sg sb(1) Let_def
    by (simp add: n fl ex ieee_layout_def sb)
  note u = layout_unpack [OF w m x, of s]
  have "(if s then fp_neg (Finite (?y * 2 powi e)) else Finite (?y * 2 powi e)) = Finite (normal_value sb s m e)"
    unfolding nv by auto
  moreover have "int ?x - int (bias eb) = e" using x(2) by simp
  ultimately show "unpack754 eb (ieee_layout eb s ?x m :: 'w word) = Finite (normal_value sb s m e)"
    using scale_normal [OF y e, of sb] unfolding unpack754_def sb(1) Let_def u(1,2,3)
    by (simp only: u(4) if_False add.commute)
qed

text \<open>A number below the normal range: the biased exponent is negative.\<close>

lemma smallest_float:
  "pack754 8 (Finite (1 / 2 ^ 149)) = Some (0xF5000000 :: u32) \<and> unpack754 8 (0xF5000000 :: u32) = Finite (- (2 ^ 107))"
proof
  have b: "bias 8 = 127" by (simp add: bias_def)
  have e: "(1 / 2 ^ 149 :: rat) = 1 * 2 powi (- 149)" by (simp add: power_int_def field_simps)
  obtain f and sh :: u32 where n: "norm_down 8 23 (Finite (1 / 2 ^ 149)) (0 :: u32) = Some (f, sh)"
    "norm_up 8 f sh = Some (Finite 1, of_int (- 149))"
    using normalize_normal [of 1 8 23 "- 149", where 'w = 32] b unfolding e [symmetric]
    by (auto simp: bind_eq_Some_conv)
  have "push_bit 23 (of_int (- 149) + of_nat 127 :: u32) = 0xF5000000" by simp
  then show "pack754 8 (Finite (1 / 2 ^ 149)) = Some (0xF5000000 :: u32)"
    using n unfolding pack754_def Let_def by (simp add: b)
  have m: "unat ((0xF5000000 :: u32) AND mask 23) = 0" "unat (drop_bit 23 (0xF5000000 :: u32) AND mask 8) = 234"
    "drop_bit 31 (0xF5000000 :: u32) AND 1 \<noteq> 0"
    by (simp_all add: mask_eq_exp_minus_1)
  have "scale_up 8 107 (Finite 1) = Finite (1 * 2 ^ 107)" by (rule scale_up_exact) (simp_all add: b)
  then show "unpack754 8 (0xF5000000 :: u32) = Finite (- (2 ^ 107))"
    using m unfolding unpack754_def Let_def by (simp add: b)
qed

section \<open>Property\<close>

text \<open>
  C29: For every normal float and double pack754 returns the IEEE 754 bit pattern and unpack754 gives
  the number back; zero is preserved without its sign. For an infinity the normalization loop never
  ends, and the smallest positive float, 2^-149, is packed with an exponent that overflows into the sign
  bit and comes back as -2^107.
\<close>

theorem pack754_correct:
  "(\<forall>s m e. m < 2 ^ 23 \<and> -126 \<le> e \<and> e \<le> 127 \<longrightarrow>
      pack754 8 (Finite (normal_value 23 s m e)) = Some (ieee_layout 8 s (nat (e + 127)) m :: u32)
      \<and> unpack754 8 (ieee_layout 8 s (nat (e + 127)) m :: u32) = Finite (normal_value 23 s m e))
   \<and> (\<forall>s m e. m < 2 ^ 52 \<and> -1022 \<le> e \<and> e \<le> 1023 \<longrightarrow>
      pack754 11 (Finite (normal_value 52 s m e)) = Some (ieee_layout 11 s (nat (e + 1023)) m :: u64)
      \<and> unpack754 11 (ieee_layout 11 s (nat (e + 1023)) m :: u64) = Finite (normal_value 52 s m e))
   \<and> pack754 eb (Finite 0) = Some (0 :: 'w::len word) \<and> unpack754 eb (0 :: 'w word) = Finite 0
   \<and> pack754 eb (Infinity sg) = (None :: 'w word option)
   \<and> (\<exists>w :: u32. pack754 8 (Finite (1 / 2 ^ 149)) = Some w \<and> unpack754 8 w = Finite (- (2 ^ 107)))"
proof -
  have b: "bias 8 = 127" "bias 11 = 1023" by (simp_all add: bias_def)
  have f: "pack754 8 (Finite (normal_value 23 s m e)) = Some (ieee_layout 8 s (nat (e + 127)) m :: u32)"
    "unpack754 8 (ieee_layout 8 s (nat (e + 127)) m :: u32) = Finite (normal_value 23 s m e)"
    if "m < 2 ^ 23" "-126 \<le> e" "e \<le> 127" for s m e
    using pack_normal [of 23 8 m e s, where 'w = 32] that b by simp_all
  have d: "pack754 11 (Finite (normal_value 52 s m e)) = Some (ieee_layout 11 s (nat (e + 1023)) m :: u64)"
    "unpack754 11 (ieee_layout 11 s (nat (e + 1023)) m :: u64) = Finite (normal_value 52 s m e)"
    if "m < 2 ^ 52" "-1022 \<le> e" "e \<le> 1023" for s m e
    using pack_normal [of 52 11 m e s, where 'w = 64] that b by simp_all
  have i: "pack754 eb (Infinity sg) = (None :: 'w word option)"
    by (cases sg) (simp_all add: pack754_def norm_down_infinite)
  have z: "pack754 eb (Finite 0) = Some (0 :: 'w word)" "unpack754 eb (0 :: 'w word) = Finite 0"
    by (simp_all add: pack754_def unpack754_def)
  have "\<exists>w :: u32. pack754 8 (Finite (1 / 2 ^ 149)) = Some w \<and> unpack754 8 w = Finite (- (2 ^ 107))"
    using smallest_float by blast
  then show ?thesis using f d i z by blast
qed

theorem pack754_correct_witness:
  "pack754 8 (Finite (3 / 2)) = Some (0x3FC00000 :: u32) \<and> unpack754 8 (0x3FC00000 :: u32) = Finite (3 / 2)"
proof -
  have v: "normal_value 23 False 4194304 0 = 3 / 2" by (simp add: normal_value_def)
  have l: "(ieee_layout 8 False 127 4194304 :: u32) = 0x3FC00000" by (simp add: ieee_layout_def)
  have "\<forall>s m e. m < 2 ^ 23 \<and> -126 \<le> e \<and> e \<le> 127 \<longrightarrow>
      pack754 8 (Finite (normal_value 23 s m e)) = Some (ieee_layout 8 s (nat (e + 127)) m :: u32)
      \<and> unpack754 8 (ieee_layout 8 s (nat (e + 127)) m :: u32) = Finite (normal_value 23 s m e)"
    using pack754_correct [of 8 True, where 'w = 32] by (rule conjunct1)
  from this [rule_format, of 4194304 0 False] show ?thesis using v l by simp
qed

end
