(* ===== verification/Binary_Serialization.thy ===== *)
theory Binary_Serialization
  imports Ieee_754 Node_Id
begin

text \<open>
  The binary protocol (binary\_serializer.cpp, binary\_deserializer.cpp): primitive values, raw blocks,
  sequences and object headers as bytes. Integers are written as they lie in memory; the model takes
  the byte order of a little-endian host. A deserializer is the list of bytes between its position and
  the end of its buffer. long double, which is printed with the stream formatting of the standard
  library, is left out.
\<close>

section \<open>Integers\<close>

definition int_bytes :: "'w::len word \<Rightarrow> u8 list" where
  "int_bytes w = map (\<lambda>i. ucast (drop_bit (8 * i) w)) [0..<LENGTH('w) div 8]"

fun bytes_int :: "u8 list \<Rightarrow> 'w::len word" where
  "bytes_int [] = 0"
| "bytes_int (b # bs) = ucast b OR push_bit 8 (bytes_int bs)"

lemma length_int_bytes [simp]: "length (int_bytes (w :: 'w::len word)) = LENGTH('w) div 8"
  by (simp add: int_bytes_def)

lemma bit_bytes_int:
  "bit (bytes_int bs :: 'w::len word) n \<longleftrightarrow> n < LENGTH('w) \<and> n div 8 < length bs \<and> bit (bs ! (n div 8)) (n mod 8)"
proof (induction bs arbitrary: n)
  case (Cons b bs)
  show ?case
  proof (cases "n < 8")
    case True
    then show ?thesis by (auto simp: bit_simps)
  next
    case False
    then have "n div 8 = Suc ((n - 8) div 8)" "(n - 8) mod 8 = n mod 8" by (simp_all add: le_div_geq le_mod_geq)
    moreover have "\<not> bit b n" using False by (auto dest: bit_imp_le_length)
    ultimately show ?thesis using False Cons [of "n - 8"] by (auto simp: bit_simps)
  qed
qed simp

lemma bytes_int_bytes:
  assumes "8 dvd LENGTH('w::len)"
  shows "bytes_int (int_bytes w) = (w :: 'w word)"
proof (rule bit_word_eqI)
  fix n assume n: "n < LENGTH('w)"
  then have "n div 8 < LENGTH('w) div 8" using assms by (metis less_mult_imp_div_less mult.commute dvd_mult_div_cancel)
  then show "bit (bytes_int (int_bytes w) :: 'w word) n \<longleftrightarrow> bit w n"
    using n by (simp add: bit_bytes_int int_bytes_def bit_simps)
qed

section \<open>Reading\<close>

datatype read_error = Out_Of_Range | Unknown_Type_Name "u8 list"

type_synonym 'a byte_reader = "u8 list \<Rightarrow> read_error + ('a \<times> u8 list)"

definition bind_reader :: "'a byte_reader \<Rightarrow> ('a \<Rightarrow> 'b byte_reader) \<Rightarrow> 'b byte_reader" where
  "bind_reader m f bs = (case m bs of Inl e \<Rightarrow> Inl e | Inr (x, r) \<Rightarrow> f x r)"

definition read_raw :: "nat \<Rightarrow> u8 list byte_reader" where
  "read_raw n bs = (if length bs < n then Inl Out_Of_Range else Inr (take n bs, drop n bs))"

definition read_int :: "'w::len word byte_reader" where
  "read_int = bind_reader (read_raw (LENGTH('w) div 8)) (\<lambda>b r. Inr (bytes_int b, r))"

definition read_string :: "u8 list byte_reader" where
  "read_string = bind_reader (read_int :: u32 byte_reader) (\<lambda>n. read_raw (unat n))"

fun read_units :: "nat \<Rightarrow> 'w::len word list byte_reader" where
  "read_units 0 bs = Inr ([], bs)"
| "read_units (Suc n) bs = bind_reader read_int (\<lambda>c. bind_reader (read_units n) (\<lambda>cs r. Inr (c # cs, r))) bs"

definition read_unicode_string :: "'w::len word list byte_reader" where
  "read_unicode_string = bind_reader (read_int :: u32 byte_reader) (\<lambda>n. read_units (unat n))"

definition buf_equals :: "u8 list \<Rightarrow> u8 list \<Rightarrow> bool" where
  "buf_equals bs buf = (if length bs < length buf then False
     else strncmp bs buf (length buf) = 0)"

section \<open>Primitive values\<close>

datatype prim =
    Prim_I8 u8 | Prim_I16 u16 | Prim_I32 u32 | Prim_I64 u64
  | Prim_U8 u8 | Prim_U16 u16 | Prim_U32 u32 | Prim_U64 u64
  | Prim_Float fp | Prim_Double fp
  | Prim_String "u8 list" | Prim_U16string "u16 list" | Prim_U32string "u32 list"
  | Prim_Atom u64 | Prim_Bool bool

datatype prim_type = I8_t | I16_t | I32_t | I64_t | U8_t | U16_t | U32_t | U64_t | Float_t | Double_t
  | String_t | U16string_t | U32string_t | Atom_t | Bool_t

fun prim_type_of :: "prim \<Rightarrow> prim_type" where
  "prim_type_of (Prim_I8 _) = I8_t" | "prim_type_of (Prim_I16 _) = I16_t" | "prim_type_of (Prim_I32 _) = I32_t"
| "prim_type_of (Prim_I64 _) = I64_t" | "prim_type_of (Prim_U8 _) = U8_t" | "prim_type_of (Prim_U16 _) = U16_t"
| "prim_type_of (Prim_U32 _) = U32_t" | "prim_type_of (Prim_U64 _) = U64_t" | "prim_type_of (Prim_Float _) = Float_t"
| "prim_type_of (Prim_Double _) = Double_t" | "prim_type_of (Prim_String _) = String_t"
| "prim_type_of (Prim_U16string _) = U16string_t" | "prim_type_of (Prim_U32string _) = U32string_t"
| "prim_type_of (Prim_Atom _) = Atom_t" | "prim_type_of (Prim_Bool _) = Bool_t"

definition write_string :: "u8 list \<Rightarrow> u8 list" where
  "write_string s = int_bytes (of_nat (length s) :: u32) @ s"

definition write_units :: "'w::len word list \<Rightarrow> u8 list" where
  "write_units s = int_bytes (of_nat (length s) :: u32) @ concat (map int_bytes s)"

text \<open>Writing a value; None is the conversion of a floating point number that does not return.\<close>

fun write_value :: "prim \<Rightarrow> u8 list option" where
  "write_value (Prim_I8 w) = Some (int_bytes w)" | "write_value (Prim_I16 w) = Some (int_bytes w)"
| "write_value (Prim_I32 w) = Some (int_bytes w)" | "write_value (Prim_I64 w) = Some (int_bytes w)"
| "write_value (Prim_U8 w) = Some (int_bytes w)" | "write_value (Prim_U16 w) = Some (int_bytes w)"
| "write_value (Prim_U32 w) = Some (int_bytes w)" | "write_value (Prim_U64 w) = Some (int_bytes w)"
| "write_value (Prim_Float f) = map_option int_bytes (pack754 8 f :: u32 option)"
| "write_value (Prim_Double f) = map_option int_bytes (pack754 11 f :: u64 option)"
| "write_value (Prim_String s) = Some (write_string s)"
| "write_value (Prim_U16string s) = Some (write_units s)" | "write_value (Prim_U32string s) = Some (write_units s)"
| "write_value (Prim_Atom w) = Some (int_bytes w)"
| "write_value (Prim_Bool b) = Some (int_bytes (if b then 1 else 0 :: u8))"

definition map_reader :: "('a \<Rightarrow> 'b) \<Rightarrow> 'a byte_reader \<Rightarrow> 'b byte_reader" where
  "map_reader f m = bind_reader m (\<lambda>x r. Inr (f x, r))"

fun read_value :: "prim_type \<Rightarrow> prim byte_reader" where
  "read_value I8_t = map_reader Prim_I8 read_int" | "read_value I16_t = map_reader Prim_I16 read_int"
| "read_value I32_t = map_reader Prim_I32 read_int" | "read_value I64_t = map_reader Prim_I64 read_int"
| "read_value U8_t = map_reader Prim_U8 read_int" | "read_value U16_t = map_reader Prim_U16 read_int"
| "read_value U32_t = map_reader Prim_U32 read_int" | "read_value U64_t = map_reader Prim_U64 read_int"
| "read_value Float_t = map_reader (\<lambda>w :: u32. Prim_Float (unpack754 8 w)) read_int"
| "read_value Double_t = map_reader (\<lambda>w :: u64. Prim_Double (unpack754 11 w)) read_int"
| "read_value String_t = map_reader Prim_String read_string"
| "read_value U16string_t = map_reader Prim_U16string read_unicode_string"
| "read_value U32string_t = map_reader Prim_U32string read_unicode_string"
| "read_value Atom_t = map_reader Prim_Atom read_int"
| "read_value Bool_t = map_reader (\<lambda>w :: u8. Prim_Bool (w \<noteq> 0)) read_int"

section \<open>Sequences and objects\<close>

definition begin_sequence_out :: "nat \<Rightarrow> u8 list" where
  "begin_sequence_out n = int_bytes (of_nat n :: u32)"

definition begin_sequence_in :: "nat byte_reader" where
  "begin_sequence_in = map_reader unat (read_int :: u32 byte_reader)"

text \<open>The type information of an object: its number, or zero and its name.\<close>

record uti =
  uti_nr :: u16
  uti_name :: "u8 list"

definition begin_object_out :: "uti \<Rightarrow> u8 list" where
  "begin_object_out t = int_bytes (uti_nr t) @ (if uti_nr t = 0 then write_string (uti_name t) else [])"

text \<open>The map of all types is a parameter; a number it does not know gives a null pointer (None).\<close>

definition begin_object_in ::
  "(u16 \<Rightarrow> uti option) \<Rightarrow> (u8 list \<Rightarrow> uti option) \<Rightarrow> uti option byte_reader" where
  "begin_object_in by_nr by_name = bind_reader read_int (\<lambda>nr.
     if nr \<noteq> 0 then (\<lambda>r. Inr (by_nr nr, r))
     else bind_reader read_string (\<lambda>n r. case by_name n of None \<Rightarrow> Inl (Unknown_Type_Name n) | Some t \<Rightarrow> Inr (Some t, r)))"

section \<open>Codecs\<close>

text \<open>
  Readers are local: what they read does not depend on what follows, and the only way to fail is to
  run out of input.
\<close>

definition local_reader :: "'a byte_reader \<Rightarrow> bool" where
  "local_reader m \<longleftrightarrow> (\<forall>p v r q. m p = Inr (v, r) \<longrightarrow> m (p @ q) = Inr (v, r @ q))
     \<and> (\<forall>p e. m p = Inl e \<longrightarrow> e = Out_Of_Range)"

lemma local_readerD:
  "local_reader m \<Longrightarrow> m p = Inr (v, r) \<Longrightarrow> m (p @ q) = Inr (v, r @ q)"
  "local_reader m \<Longrightarrow> m p = Inl e \<Longrightarrow> e = Out_Of_Range"
  by (simp_all add: local_reader_def)

lemma local_bind:
  assumes "local_reader m" and "\<And>x. local_reader (f x)"
  shows "local_reader (bind_reader m f)"
proof -
  have "bind_reader m f (p @ q) = Inr (v, r @ q)" if "bind_reader m f p = Inr (v, r)" for p q v r
  proof -
    from that obtain x s where "m p = Inr (x, s)" "f x s = Inr (v, r)"
      by (auto simp: bind_reader_def split: sum.splits)
    then show ?thesis using local_readerD(1) [OF assms(1)] local_readerD(1) [OF assms(2)] by (simp add: bind_reader_def)
  qed
  moreover have "e = Out_Of_Range" if "bind_reader m f p = Inl e" for p e
    using that local_readerD(2) [OF assms(1)] local_readerD(2) [OF assms(2)]
    by (auto simp: bind_reader_def split: sum.splits)
  ultimately show ?thesis by (simp add: local_reader_def)
qed

lemma local_return: "local_reader (\<lambda>r. Inr (x, r))"
  by (simp add: local_reader_def)

lemma local_raw: "local_reader (read_raw n)"
  by (auto simp: local_reader_def read_raw_def split: if_splits)

lemma local_int: "local_reader read_int"
  unfolding read_int_def by (intro local_bind local_raw local_return)

lemma local_map: "local_reader m \<Longrightarrow> local_reader (map_reader f m)"
  unfolding map_reader_def by (intro local_bind local_return)

lemma local_string: "local_reader read_string"
  unfolding read_string_def by (intro local_bind local_int local_raw)

lemma local_units: "local_reader (read_units n :: 'w::len word list byte_reader)"
proof (induction n)
  case (Suc n)
  have "local_reader (bind_reader read_int (\<lambda>c :: 'w word. bind_reader (read_units n) (\<lambda>cs r. Inr (c # cs, r))))"
    by (intro local_bind local_int local_return Suc)
  then show ?case by (simp add: local_reader_def)
qed (simp add: local_reader_def)

lemma local_unicode: "local_reader read_unicode_string"
  unfolding read_unicode_string_def by (intro local_bind local_int local_units)

lemma local_value: "local_reader (read_value t)"
  by (cases t) (auto intro!: local_map local_int local_string local_unicode)

lemma read_raw_append [simp]: "read_raw (length b) (b @ r) = Inr (b, r)"
  by (simp add: read_raw_def)

lemma read_int_bytes [simp]:
  "8 dvd LENGTH('w::len) \<Longrightarrow> read_int (int_bytes (w :: 'w word) @ r) = Inr (w, r)"
  using read_raw_append [of "int_bytes w" r] by (simp add: read_int_def bind_reader_def bytes_int_bytes)

lemma map_reader_Inr: "m bs = Inr (x, r) \<Longrightarrow> map_reader f m bs = Inr (f x, r)"
  by (simp add: map_reader_def bind_reader_def)

lemma unat_length: "length s < 2 ^ 32 \<Longrightarrow> unat (of_nat (length s) :: u32) = length s"
  using unat_of_nat_small [of "length s" 32, where 'w = 32] by simp

lemma read_string_bytes: "length s < 2 ^ 32 \<Longrightarrow> read_string (write_string s @ r) = Inr (s, r)"
  by (simp add: read_string_def write_string_def bind_reader_def unat_length)

lemma read_units_bytes:
  "8 dvd LENGTH('w::len) \<Longrightarrow> read_units (length s) (concat (map int_bytes (s :: 'w word list)) @ r) = Inr (s, r)"
  by (induction s) (simp_all add: bind_reader_def)

lemma read_unicode_bytes:
  "8 dvd LENGTH('w::len) \<Longrightarrow> length s < 2 ^ 32 \<Longrightarrow>
     read_unicode_string (write_units (s :: 'w word list) @ r) = Inr (s, r)"
  by (simp add: read_unicode_string_def write_units_def bind_reader_def unat_length read_units_bytes)

text \<open>Numbers that survive: zero and the normal range; strings whose length fits into 32 bits.\<close>

definition normal_fp :: "nat \<Rightarrow> nat \<Rightarrow> fp \<Rightarrow> bool" where
  "normal_fp eb sb f \<longleftrightarrow> f = Finite 0 \<or>
     (\<exists>s m e. f = Finite (normal_value sb s m e) \<and> m < 2 ^ sb \<and> 1 - int (bias eb) \<le> e \<and> e \<le> int (bias eb))"

fun fits :: "prim \<Rightarrow> bool" where
  "fits (Prim_Float f) = normal_fp 8 23 f"
| "fits (Prim_Double f) = normal_fp 11 52 f"
| "fits (Prim_String s) = (length s < 2 ^ 32)"
| "fits (Prim_U16string s) = (length s < 2 ^ 32)"
| "fits (Prim_U32string s) = (length s < 2 ^ 32)"
| "fits _ = True"

lemma normal_fp_packs:
  assumes "normal_fp eb sb f" and "sb + eb + 1 = LENGTH('w::len)" and "2 \<le> eb"
  shows "\<exists>w :: 'w word. pack754 eb f = Some w \<and> unpack754 eb w = f"
proof (cases "f = Finite 0")
  case True
  then show ?thesis by (simp add: pack754_def unpack754_def)
next
  case False
  with assms(1) obtain s m e where "f = Finite (normal_value sb s m e)" "m < 2 ^ sb" "1 - int (bias eb) \<le> e" "e \<le> int (bias eb)"
    by (auto simp: normal_fp_def)
  then show ?thesis using pack_normal [OF assms(2,3)] by blast
qed

lemma value_roundtrip:
  assumes "fits v"
  shows "\<exists>bs. write_value v = Some bs \<and> (\<forall>r. read_value (prim_type_of v) (bs @ r) = Inr (v, r))"
proof (cases v)
  case (Prim_Float f)
  then obtain w :: u32 where "pack754 8 f = Some w" "unpack754 8 w = f"
    using assms normal_fp_packs [of 8 23 f, where 'w = 32] by auto
  then show ?thesis using Prim_Float by (simp add: map_reader_Inr)
next
  case (Prim_Double f)
  then obtain w :: u64 where "pack754 11 f = Some w" "unpack754 11 w = f"
    using assms normal_fp_packs [of 11 52 f, where 'w = 64] by auto
  then show ?thesis using Prim_Double by (simp add: map_reader_Inr)
qed (use assms in \<open>simp_all add: map_reader_Inr read_string_bytes read_unicode_bytes\<close>)

fun write_list :: "('a \<Rightarrow> u8 list option) \<Rightarrow> 'a list \<Rightarrow> u8 list option" where
  "write_list enc [] = Some []"
| "write_list enc (v # vs) = Option.bind (enc v) (\<lambda>b. map_option (\<lambda>bs. b @ bs) (write_list enc vs))"

fun read_list :: "('k \<Rightarrow> 'a byte_reader) \<Rightarrow> 'k list \<Rightarrow> 'a list byte_reader" where
  "read_list dec [] = (\<lambda>r. Inr ([], r))"
| "read_list dec (k # ks) = bind_reader (dec k) (\<lambda>v. bind_reader (read_list dec ks) (\<lambda>vs r. Inr (v # vs, r)))"

text \<open>
  What a format promises: values of its domain are written, and the reader for the kind of a value
  reads it back and leaves what follows. Sequences of values then survive as well, and a truncated
  sequence is always recognized.
\<close>

locale codec =
  fixes enc :: "'a \<Rightarrow> u8 list option" and kind :: "'a \<Rightarrow> 'k" and dec :: "'k \<Rightarrow> 'a byte_reader" and dom :: "'a \<Rightarrow> bool"
  assumes dec_enc: "dom v \<Longrightarrow> \<exists>bs. enc v = Some bs \<and> (\<forall>r. dec (kind v) (bs @ r) = Inr (v, r))"
    and dec_local: "local_reader (dec k)"
begin

lemma list_roundtrip:
  "list_all dom vs \<Longrightarrow> \<exists>bs. write_list enc vs = Some bs \<and> (\<forall>r. read_list dec (map kind vs) (bs @ r) = Inr (vs, r))"
proof (induction vs)
  case (Cons v vs)
  from dec_enc [of v] obtain b where "enc v = Some b" "\<And>r. dec (kind v) (b @ r) = Inr (v, r)" using Cons.prems by auto
  moreover from Cons obtain bs where "write_list enc vs = Some bs" "\<And>r. read_list dec (map kind vs) (bs @ r) = Inr (vs, r)" by auto
  ultimately show ?case by (simp add: bind_reader_def)
qed simp

lemma list_local: "local_reader (read_list dec ks)"
  by (induction ks) (auto intro!: local_bind local_return dec_local)

lemma list_truncated:
  assumes "list_all dom vs" and "write_list enc vs = Some (p @ q)" and "q \<noteq> []"
  shows "read_list dec (map kind vs) p = Inl Out_Of_Range"
proof (cases "read_list dec (map kind vs) p")
  case (Inl e)
  then show ?thesis using local_readerD(2) [OF list_local] by simp
next
  case (Inr x)
  obtain v r where x: "x = (v, r)" by force
  have "read_list dec (map kind vs) ((p @ q) @ []) = Inr (vs, [])"
    using list_roundtrip [OF assms(1)] assms(2) by (metis option.inject)
  moreover have "read_list dec (map kind vs) (p @ q) = Inr (v, r @ q)"
    using local_readerD(1) [OF list_local] Inr x by blast
  ultimately show ?thesis using assms(3) by simp
qed

end

interpretation prims: codec write_value prim_type_of read_value fits
  by unfold_locales (auto intro: value_roundtrip local_value)

text \<open>Headers of objects and sequences.\<close>

lemma object_roundtrip:
  assumes "if uti_nr t = 0 then by_name (uti_name t) = Some t \<and> length (uti_name t) < 2 ^ 32 else by_nr (uti_nr t) = Some t"
  shows "begin_object_in by_nr by_name (begin_object_out t @ r) = Inr (Some t, r)"
  using assms read_string_bytes [of "uti_name t" r]
  by (auto simp: begin_object_in_def begin_object_out_def bind_reader_def split: if_splits)

lemma sequence_roundtrip: "n < 2 ^ 32 \<Longrightarrow> begin_sequence_in (begin_sequence_out n @ r) = Inr (n, r)"
  using unat_of_nat_small [of n 32, where 'w = 32]
  by (simp add: begin_sequence_in_def begin_sequence_out_def map_reader_Inr)

text \<open>
  C16: The binary protocol is lossless: any sequence of primitive values (integers, atoms, booleans,
  strings shorter than 2^32 units, zero and normal floating point numbers; negative zero, subnormal
  numbers, infinities, NaN and long double are not covered) is written, and reading
  it with the types of the values returns exactly the values and stops exactly behind them; reading
  any truncated version of the bytes throws out_of_range and never returns other values.
\<close>

theorem binary_roundtrip:
  assumes "list_all fits vs"
  shows "\<exists>bs. write_list write_value vs = Some bs
    \<and> (\<forall>rest. read_list read_value (map prim_type_of vs) (bs @ rest) = Inr (vs, rest))
    \<and> (\<forall>p q. bs = p @ q \<and> q \<noteq> [] \<longrightarrow> read_list read_value (map prim_type_of vs) p = Inl Out_Of_Range)"
  using prims.list_roundtrip [OF assms] prims.list_truncated [OF assms] by auto

theorem binary_roundtrip_witness:
  "write_list write_value [Prim_U16 0x1234, Prim_String [72, 105], Prim_Bool True] = Some [0x34, 0x12, 2, 0, 0, 0, 72, 105, 1]
   \<and> read_list read_value [U16_t, String_t, Bool_t] [0x34, 0x12, 2, 0, 0, 0, 72, 105, 1, 9]
       = Inr ([Prim_U16 0x1234, Prim_String [72, 105], Prim_Bool True], [9])
   \<and> read_list read_value [U16_t, String_t, Bool_t] [0x34, 0x12, 2, 0, 0, 0, 72] = Inl Out_Of_Range"
proof -
  let ?vs = "[Prim_U16 0x1234, Prim_String [72, 105], Prim_Bool True]"
  have w: "write_list write_value ?vs = Some [0x34, 0x12, 2, 0, 0, 0, 72, 105, 1]" by code_simp
  obtain bs where bs: "write_list write_value ?vs = Some bs"
    "\<And>rest. read_list read_value (map prim_type_of ?vs) (bs @ rest) = Inr (?vs, rest)"
    "\<And>p q. bs = p @ q \<and> q \<noteq> [] \<Longrightarrow> read_list read_value (map prim_type_of ?vs) p = Inl Out_Of_Range"
    using binary_roundtrip [of ?vs] by auto
  have b: "bs = [0x34, 0x12, 2, 0, 0, 0, 72, 105, 1]" using bs(1) w by simp
  show ?thesis using w bs(2) [of "[9]"] bs(3) [of "[0x34, 0x12, 2, 0, 0, 0, 72]" "[105, 1]"] unfolding b by simp
qed

end
