(* ===== verification/Basp_Header.thy ===== *)
theory Basp_Header
  imports Binary_Serialization
begin

text \<open>
  Datagrams of the binary actor system protocol (io/basp.hpp, io/basp.cpp): the header, its wire
  form, the validity check of each message type, and the functions of basp::instance that write
  headers and payloads into a buffer. What a payload writer appends is given as bytes.
\<close>

section \<open>Headers\<close>

text \<open>The operation of a received header is an arbitrary 32-bit number cast to the enumeration.\<close>

type_synonym message_type = u32

definition server_handshake :: message_type where
  "server_handshake = 0"

definition client_handshake :: message_type where
  "client_handshake = 1"

definition dispatch_message :: message_type where
  "dispatch_message = 2"

definition announce_proxy_instance :: message_type where
  "announce_proxy_instance = 3"

definition kill_proxy_instance :: message_type where
  "kill_proxy_instance = 4"

lemmas message_type_defs = server_handshake_def client_handshake_def dispatch_message_def
  announce_proxy_instance_def kill_proxy_instance_def

record header =
  operation :: message_type
  payload_len :: u32
  operation_data :: u64
  source_node :: node_id
  dest_node :: node_id
  source_actor :: u32
  dest_actor :: u32

definition basp_version :: u64 where
  "basp_version = 1"

definition header_size :: nat where
  "header_size = host_id_size * 2 + 4 * 2 + 4 * 2 + 4 * 2 + 8"

definition message_type_to_string :: "message_type \<Rightarrow> string" where
  "message_type_to_string x =
     (if x = server_handshake then ''server_handshake''
      else if x = client_handshake then ''client_handshake''
      else if x = dispatch_message then ''dispatch_message''
      else if x = announce_proxy_instance then ''announce_proxy_instance''
      else if x = kill_proxy_instance then ''kill_proxy_instance'' else ''???'')"

definition write_node :: "node_id \<Rightarrow> u8 list" where
  "write_node n = fst (serialize_node n) @ int_bytes (snd (serialize_node n))"

definition read_node :: "node_id byte_reader" where
  "read_node = bind_reader (read_raw host_id_size) (\<lambda>h. map_reader (\<lambda>p. deserialize_node (h, p)) read_int)"

definition write_hdr :: "header \<Rightarrow> u8 list" where
  "write_hdr h = write_node (source_node h) @ write_node (dest_node h)
     @ int_bytes (source_actor h) @ int_bytes (dest_actor h)
     @ int_bytes (payload_len h) @ int_bytes (operation h) @ int_bytes (operation_data h)"

definition read_hdr :: "header byte_reader" where
  "read_hdr = bind_reader read_node (\<lambda>sn. bind_reader read_node (\<lambda>dn.
     bind_reader read_int (\<lambda>sa. bind_reader read_int (\<lambda>da.
     bind_reader read_int (\<lambda>pl. bind_reader read_int (\<lambda>op. map_reader (\<lambda>od.
       \<lparr>operation = op, payload_len = pl, operation_data = od, source_node = sn, dest_node = dn,
        source_actor = sa, dest_actor = da\<rparr>) read_int))))))"

text \<open>Nodes are compared with node\_id::compare.\<close>

definition node_eq :: "node_id \<Rightarrow> node_id \<Rightarrow> bool" where
  "node_eq a b \<longleftrightarrow> compare_node a b = 0"

definition header_eq :: "header \<Rightarrow> header \<Rightarrow> bool" where
  "header_eq l r \<longleftrightarrow> operation l = operation r \<and> payload_len l = payload_len r
     \<and> operation_data l = operation_data r
     \<and> node_eq (source_node l) (source_node r) \<and> node_eq (dest_node l) (dest_node r)
     \<and> source_actor l = source_actor r \<and> dest_actor l = dest_actor r"

definition is_handshake :: "header \<Rightarrow> bool" where
  "is_handshake h \<longleftrightarrow> operation h = server_handshake \<or> operation h = client_handshake"

section \<open>Validity\<close>

definition valid_node :: "node_id \<Rightarrow> bool" where
  "valid_node n \<longleftrightarrow> compare_invalid_node n \<noteq> 0"

definition server_handshake_valid :: "header \<Rightarrow> bool" where
  "server_handshake_valid h \<longleftrightarrow> valid_node (source_node h) \<and> \<not> valid_node (dest_node h)
     \<and> dest_actor h = 0 \<and> operation_data h \<noteq> 0
     \<and> ((source_actor h \<noteq> 0 \<and> payload_len h \<noteq> 0) \<or> (source_actor h = 0 \<and> payload_len h = 0))"

definition client_handshake_valid :: "header \<Rightarrow> bool" where
  "client_handshake_valid h \<longleftrightarrow> valid_node (source_node h) \<and> valid_node (dest_node h)
     \<and> \<not> node_eq (source_node h) (dest_node h)
     \<and> source_actor h = 0 \<and> dest_actor h = 0 \<and> payload_len h = 0 \<and> operation_data h = 0"

definition dispatch_message_valid :: "header \<Rightarrow> bool" where
  "dispatch_message_valid h \<longleftrightarrow> valid_node (dest_node h) \<and> dest_actor h \<noteq> 0 \<and> payload_len h \<noteq> 0"

definition announce_proxy_instance_valid :: "header \<Rightarrow> bool" where
  "announce_proxy_instance_valid h \<longleftrightarrow> valid_node (source_node h) \<and> valid_node (dest_node h)
     \<and> \<not> node_eq (source_node h) (dest_node h)
     \<and> source_actor h = 0 \<and> dest_actor h \<noteq> 0 \<and> payload_len h = 0 \<and> operation_data h = 0"

definition kill_proxy_instance_valid :: "header \<Rightarrow> bool" where
  "kill_proxy_instance_valid h \<longleftrightarrow> valid_node (source_node h) \<and> valid_node (dest_node h)
     \<and> \<not> node_eq (source_node h) (dest_node h)
     \<and> source_actor h \<noteq> 0 \<and> dest_actor h = 0 \<and> payload_len h = 0 \<and> operation_data h \<noteq> 0"

definition valid_header :: "header \<Rightarrow> bool" where
  "valid_header h =
     (if operation h = server_handshake then server_handshake_valid h
      else if operation h = client_handshake then client_handshake_valid h
      else if operation h = dispatch_message then dispatch_message_valid h
      else if operation h = announce_proxy_instance then announce_proxy_instance_valid h
      else if operation h = kill_proxy_instance then kill_proxy_instance_valid h
      else False)"

lemmas valid_defs = server_handshake_valid_def client_handshake_valid_def dispatch_message_valid_def
  announce_proxy_instance_valid_def kill_proxy_instance_valid_def

lemma valid_node_iff [simp]: "valid_node n \<longleftrightarrow> n \<noteq> None"
  by (simp add: valid_node_def compare_invalid_node_def)

section \<open>Writing datagrams\<close>

definition overwrite :: "nat \<Rightarrow> u8 list \<Rightarrow> u8 list \<Rightarrow> u8 list" where
  "overwrite pos bs buf = take pos buf @ bs @ drop (pos + length bs) buf"

text \<open>
  The header without payload is appended with length zero. With a payload, space for the header is
  reserved, the payload is appended and the header is written over the reserved space; the
  placeholder is uninitialized in the code. The result is the buffer and the payload length stored
  back into the caller's header.
\<close>

definition basp_write ::
  "u8 list \<Rightarrow> message_type \<Rightarrow> u32 \<Rightarrow> u64 \<Rightarrow> node_id \<Rightarrow> node_id \<Rightarrow> u32 \<Rightarrow> u32 \<Rightarrow> u8 list option \<Rightarrow> u8 list \<times> u32" where
  "basp_write buf op plen od sn dn sa da pw = (case pw of
     None \<Rightarrow> (buf @ write_node sn @ write_node dn @ int_bytes sa @ int_bytes da
       @ int_bytes (0 :: u32) @ int_bytes op @ int_bytes od, plen)
   | Some payload \<Rightarrow>
       let wr_pos = length buf; buf1 = buf @ replicate header_size 0; pl_pos = length buf1;
         buf2 = buf1 @ payload; n = of_nat (length buf2 - pl_pos) :: u32 in
       (overwrite wr_pos (write_node sn @ write_node dn @ int_bytes sa @ int_bytes da
         @ int_bytes n @ int_bytes op @ int_bytes od) buf2, n))"

definition write_datagram :: "u8 list \<Rightarrow> header \<Rightarrow> u8 list option \<Rightarrow> u8 list \<times> header" where
  "write_datagram buf h pw =
     (case basp_write buf (operation h) (payload_len h) (operation_data h) (source_node h) (dest_node h)
        (source_actor h) (dest_actor h) pw of (buf', n) \<Rightarrow> (buf', h\<lparr>payload_len := n\<rparr>))"

text \<open>A set of strings is written by the default policy: its size, then each string in order.\<close>

definition write_string_set :: "u8 list list \<Rightarrow> u8 list" where
  "write_string_set ss = begin_sequence_out (length ss) @ concat (map write_string ss)"

fun read_strings :: "nat \<Rightarrow> u8 list list byte_reader" where
  "read_strings 0 = (\<lambda>r. Inr ([], r))"
| "read_strings (Suc n) = bind_reader read_string (\<lambda>s. map_reader (\<lambda>ss. s # ss) (read_strings n))"

text \<open>A std::set of strings is kept sorted by the bytes of the strings and without repetitions.\<close>

fun str_less :: "u8 list \<Rightarrow> u8 list \<Rightarrow> bool" where
  "str_less [] [] = False"
| "str_less [] (b # bs) = True"
| "str_less (a # as) [] = False"
| "str_less (a # as) (b # bs) = (a < b \<or> (a = b \<and> str_less as bs))"

fun set_insert :: "u8 list \<Rightarrow> u8 list list \<Rightarrow> u8 list list" where
  "set_insert s [] = [s]"
| "set_insert s (t # ts) = (if str_less s t then s # t # ts else if str_less t s then t # set_insert s ts else t # ts)"

definition read_string_set :: "u8 list list byte_reader" where
  "read_string_set = bind_reader begin_sequence_in (\<lambda>n. map_reader (\<lambda>ss. fold set_insert ss []) (read_strings n))"

text \<open>The published actor of a port: its id and the names of its interface.\<close>

definition server_handshake_bytes :: "(u32 \<times> u8 list list) option \<Rightarrow> u8 list" where
  "server_handshake_bytes pa = (case pa of None \<Rightarrow> [] | Some (aid, sigs) \<Rightarrow> int_bytes aid @ write_string_set sigs)"

definition write_server_handshake :: "node_id \<Rightarrow> (u32 \<times> u8 list list) option \<Rightarrow> u8 list \<Rightarrow> u8 list" where
  "write_server_handshake this_node pa buf = fst (write_datagram buf
     \<lparr>operation = server_handshake, payload_len = 0, operation_data = basp_version, source_node = this_node,
      dest_node = None, source_actor = (case pa of None \<Rightarrow> 0 | Some (aid, _) \<Rightarrow> aid), dest_actor = 0\<rparr>
     (Some (server_handshake_bytes pa)))"

definition write_client_handshake :: "node_id \<Rightarrow> node_id \<Rightarrow> u8 list \<Rightarrow> u8 list" where
  "write_client_handshake this_node remote_side buf =
     fst (basp_write buf client_handshake 0 0 this_node remote_side 0 0 None)"

definition no_route_to_destination :: u64 where
  "no_route_to_destination = 1"

definition loop_detected :: u64 where
  "loop_detected = 2"

definition write_dispatch_error ::
  "node_id \<Rightarrow> node_id \<Rightarrow> u64 \<Rightarrow> header \<Rightarrow> u8 list option \<Rightarrow> u8 list \<Rightarrow> u8 list" where
  "write_dispatch_error sn dn code original_hdr payload buf = fst (write_datagram buf
     \<lparr>operation = kill_proxy_instance, payload_len = 0, operation_data = code, source_node = sn,
      dest_node = dn, source_actor = 0, dest_actor = 0\<rparr>
     (Some (write_hdr original_hdr @ (case payload of None \<Rightarrow> [] | Some p \<Rightarrow> p))))"

definition write_kill_proxy_instance :: "node_id \<Rightarrow> node_id \<Rightarrow> u32 \<Rightarrow> u32 \<Rightarrow> u8 list \<Rightarrow> u8 list" where
  "write_kill_proxy_instance this_node dn aid rsn buf = fst (write_datagram buf
     \<lparr>operation = kill_proxy_instance, payload_len = 0, operation_data = ucast rsn, source_node = this_node,
      dest_node = dn, source_actor = aid, dest_actor = 0\<rparr> None)"

definition write_announce_proxy :: "node_id \<Rightarrow> node_id \<Rightarrow> u32 \<Rightarrow> u8 list \<Rightarrow> u8 list" where
  "write_announce_proxy this_node dn aid buf =
     fst (basp_write buf announce_proxy_instance 0 0 this_node dn 0 aid None)"

section \<open>Wire form of integers and nodes\<close>

lemma int_bytes_bytes_int:
  fixes bs :: "u8 list"
  assumes "8 * length bs = LENGTH('w::len)"
  shows "int_bytes (bytes_int bs :: 'w word) = bs"
proof (rule nth_equalityI)
  show l: "length (int_bytes (bytes_int bs :: 'w word)) = length bs" using assms by (simp add: int_bytes_def)
  have k: "LENGTH('w) div 8 = length bs" unfolding assms [symmetric] by simp
  fix i assume "i < length (int_bytes (bytes_int bs :: 'w word))"
  with l have i: "i < length bs" by simp
  have "bit ((ucast (drop_bit (8 * i) (bytes_int bs :: 'w word))) :: u8) n = bit (bs ! i) n" if n: "n < 8" for n
  proof -
    have b: "8 * i + n < LENGTH('w)" using i n assms by linarith
    moreover have "(8 * i + n) div 8 = i" "(8 * i + n) mod 8 = n" using n by simp_all
    ultimately show ?thesis using bit_bytes_int [of bs "8 * i + n", where 'w = 'w] i n by (simp add: bit_simps)
  qed
  then have "ucast (drop_bit (8 * i) (bytes_int bs :: 'w word)) = bs ! i"
    by (intro bit_word_eqI) simp
  then show "int_bytes (bytes_int bs :: 'w word) ! i = bs ! i"
    using i k by (simp add: int_bytes_def)
qed

lemma bytes_of_read_int:
  assumes "read_int bs = Inr (w :: 'w::len word, r)" and "8 dvd LENGTH('w)"
  shows "bs = int_bytes w @ r"
proof -
  have l: "LENGTH('w) div 8 \<le> length bs" and w: "w = bytes_int (take (LENGTH('w) div 8) bs)" "r = drop (LENGTH('w) div 8) bs"
    using assms(1) by (auto simp: read_int_def bind_reader_def read_raw_def split: if_splits)
  have "8 * length (take (LENGTH('w) div 8) bs) = LENGTH('w)" using l assms(2) by simp
  then show ?thesis using w int_bytes_bytes_int by (metis append_take_drop_id)
qed

lemma length_write_node: "wf_node n \<Longrightarrow> length (write_node n) = 24"
  by (simp add: write_node_def serialize_node_def wf_node_def host_id_size_def)

text \<open>The one valid node id that cannot be told from the invalid one on the wire.\<close>

definition wire_node :: "node_id \<Rightarrow> bool" where
  "wire_node n \<longleftrightarrow> wf_node n \<and> n \<noteq> Some (Node_Data 0 invalid_host_id)"

lemma read_write_node:
  assumes "wire_node n"
  shows "read_node (write_node n @ r) = Inr (n, r)"
proof -
  have "deserialize_node (host_id n, process_id n) = n"
  proof (cases n)
    case (Some d)
    have "list_all (\<lambda>b. b = 0) (host d) \<longrightarrow> host d = invalid_host_id"
      using assms Some by (auto simp: wire_node_def wf_node_def host_id_def invalid_host_id_def list_all_iff intro: replicate_eqI)
    then show ?thesis using assms Some
      by (cases d) (auto simp: deserialize_node_def host_id_def process_id_def wire_node_def)
  qed (simp add: deserialize_node_def host_id_def process_id_def invalid_host_id_def list_all_iff)
  moreover have "length (host_id n) = host_id_size" using assms by (simp add: wire_node_def wf_node_def)
  then have "read_raw host_id_size (host_id n @ int_bytes (process_id n) @ r) = Inr (host_id n, int_bytes (process_id n) @ r)"
    by (metis read_raw_append)
  ultimately show ?thesis
    by (simp add: read_node_def write_node_def serialize_node_def bind_reader_def map_reader_Inr)
qed

lemma bytes_of_read_node:
  assumes "read_node bs = Inr (n, r)"
  shows "bs = write_node n @ r \<and> wire_node n"
proof -
  have l: "host_id_size \<le> length bs" using assms by (auto simp: read_node_def bind_reader_def read_raw_def split: if_splits)
  obtain p where p: "read_int (drop host_id_size bs) = Inr (p, r)" "n = deserialize_node (take host_id_size bs, p)"
    using assms l by (auto simp: read_node_def bind_reader_def map_reader_def read_raw_def split: sum.splits)
  have b: "drop host_id_size bs = int_bytes p @ r" using bytes_of_read_int [OF p(1)] by simp
  have h: "host_id n = take host_id_size bs \<and> process_id n = p"
    using p(2) l by (auto simp: deserialize_node_def host_id_def process_id_def invalid_host_id_def list_all_iff
        intro!: replicate_eqI [symmetric])
  then have "bs = write_node n @ r" using b
    by (metis append_take_drop_id append.assoc fst_conv snd_conv serialize_node_def write_node_def)
  moreover have "wire_node n" using h l p(2)
    by (auto simp: wire_node_def wf_node_def host_id_def deserialize_node_def invalid_host_id_def list_all_iff split: if_splits)
  ultimately show ?thesis by simp
qed

lemma local_node: "local_reader read_node"
  unfolding read_node_def by (intro local_bind local_raw local_map local_int)

section \<open>Wire form of headers\<close>

definition wire_header :: "header \<Rightarrow> bool" where
  "wire_header h \<longleftrightarrow> wire_node (source_node h) \<and> wire_node (dest_node h)"

lemma header_size_eq: "header_size = 72"
  by (simp add: header_size_def host_id_size_def)

lemma length_write_hdr: "wf_node (source_node h) \<Longrightarrow> wf_node (dest_node h) \<Longrightarrow> length (write_hdr h) = header_size"
  by (simp add: write_hdr_def length_write_node header_size_eq)

lemma read_write_hdr: "wire_header h \<Longrightarrow> read_hdr (write_hdr h @ r) = Inr (h, r)"
  by (simp add: read_hdr_def write_hdr_def bind_reader_def read_write_node map_reader_Inr wire_header_def)

lemma local_hdr: "local_reader read_hdr"
  unfolding read_hdr_def by (intro local_bind local_map local_node local_int)

lemma bytes_of_read_hdr:
  assumes "read_hdr bs = Inr (h, r)"
  shows "bs = write_hdr h @ r \<and> wire_header h"
proof -
  from assms obtain sn b1 where 1: "read_node bs = Inr (sn, b1)" by (auto simp: read_hdr_def bind_reader_def split: sum.splits)
  from assms 1 obtain dn b2 where 2: "read_node b1 = Inr (dn, b2)" by (auto simp: read_hdr_def bind_reader_def split: sum.splits)
  from assms 1 2 obtain sa b3 where 3: "read_int b2 = Inr (sa :: u32, b3)" by (auto simp: read_hdr_def bind_reader_def split: sum.splits)
  from assms 1 2 3 obtain da b4 where 4: "read_int b3 = Inr (da :: u32, b4)" by (auto simp: read_hdr_def bind_reader_def split: sum.splits)
  from assms 1 2 3 4 obtain pl b5 where 5: "read_int b4 = Inr (pl :: u32, b5)" by (auto simp: read_hdr_def bind_reader_def split: sum.splits)
  from assms 1 2 3 4 5 obtain op b6 where 6: "read_int b5 = Inr (op :: u32, b6)" by (auto simp: read_hdr_def bind_reader_def split: sum.splits)
  from assms 1 2 3 4 5 6 obtain od where 7: "read_int b6 = Inr (od :: u64, r)"
    "h = \<lparr>operation = op, payload_len = pl, operation_data = od, source_node = sn, dest_node = dn, source_actor = sa, dest_actor = da\<rparr>"
    by (auto simp: read_hdr_def bind_reader_def map_reader_def split: sum.splits)
  show ?thesis
    using bytes_of_read_node [OF 1] bytes_of_read_node [OF 2] bytes_of_read_int [OF 3] bytes_of_read_int [OF 4]
      bytes_of_read_int [OF 5] bytes_of_read_int [OF 6] bytes_of_read_int [OF 7(1)] 7(2)
    by (simp add: write_hdr_def wire_header_def)
qed

lemma read_hdr_total: "header_size \<le> length bs \<longleftrightarrow> (\<exists>h. read_hdr bs = Inr (h, drop header_size bs))"
proof
  assume l: "header_size \<le> length bs"
  have "read_hdr bs \<noteq> Inl Out_Of_Range"
    using l by (auto simp: read_hdr_def read_node_def bind_reader_def map_reader_def read_int_def read_raw_def
        header_size_eq host_id_size_def split: sum.splits if_splits)
  then obtain h r where h: "read_hdr bs = Inr (h, r)"
    using local_readerD(2) [OF local_hdr] by (cases "read_hdr bs") auto
  have "length (write_hdr h) = header_size"
    using bytes_of_read_hdr [OF h] length_write_hdr by (auto simp: wire_header_def wire_node_def)
  then show "\<exists>h. read_hdr bs = Inr (h, drop header_size bs)" using h bytes_of_read_hdr [OF h] by (metis append_eq_conv_conj)
next
  assume "\<exists>h. read_hdr bs = Inr (h, drop header_size bs)"
  then obtain h where "read_hdr bs = Inr (h, drop header_size bs)" ..
  with bytes_of_read_hdr [OF this] length_write_hdr [of h] show "header_size \<le> length bs"
    by (metis le_add1 length_append wire_header_def wire_node_def)
qed

lemma write_datagram_result:
  assumes "wf_node (source_node h)" and "wf_node (dest_node h)"
  shows "write_datagram buf h pw =
    (buf @ write_hdr (h\<lparr>payload_len := (case pw of None \<Rightarrow> 0 | Some p \<Rightarrow> of_nat (length p))\<rparr>)
       @ (case pw of None \<Rightarrow> [] | Some p \<Rightarrow> p),
     h\<lparr>payload_len := (case pw of None \<Rightarrow> payload_len h | Some p \<Rightarrow> of_nat (length p))\<rparr>)"
proof (cases pw)
  case None
  then show ?thesis by (simp add: write_datagram_def basp_write_def write_hdr_def)
next
  case (Some p)
  have l: "length (write_hdr (h\<lparr>payload_len := of_nat (length p)\<rparr>)) = header_size"
    using assms by (intro length_write_hdr) simp_all
  have "overwrite (length buf) b (buf @ replicate header_size 0 @ p) = buf @ b @ p" if "length b = header_size" for b
    using that by (simp add: overwrite_def)
  from this [OF l] show ?thesis using Some by (simp add: write_datagram_def basp_write_def write_hdr_def Let_def)
qed

lemma basp_write_datagram:
  "fst (basp_write buf op n od sn dn sa da pw) = fst (write_datagram buf
     \<lparr>operation = op, payload_len = n, operation_data = od, source_node = sn, dest_node = dn,
      source_actor = sa, dest_actor = da\<rparr> pw)"
  by (simp add: write_datagram_def split: prod.splits)

lemma wire_node_wf: "wire_node n \<Longrightarrow> wf_node n"
  by (simp add: wire_node_def)

lemma wire_node_None [simp]: "wire_node None" "wf_node None"
  by (simp_all add: wire_node_def wf_node_def host_id_def invalid_host_id_def)

section \<open>Sets of strings\<close>

lemma str_less_irrefl [simp]: "\<not> str_less s s"
  by (induction s) auto

lemma str_less_asym: "str_less s t \<Longrightarrow> \<not> str_less t s"
  by (induction s t rule: str_less.induct) auto

lemma set_insert_last: "list_all (\<lambda>t. str_less t s) ts \<Longrightarrow> set_insert s ts = ts @ [s]"
  by (induction ts) (auto dest: str_less_asym)

lemma fold_set_insert: "sorted_wrt str_less (acc @ ss) \<Longrightarrow> fold set_insert ss acc = acc @ ss"
proof (induction ss arbitrary: acc)
  case (Cons s ss)
  then have "set_insert s acc = acc @ [s]"
    by (intro set_insert_last) (auto simp: sorted_wrt_append list_all_iff)
  then show ?case using Cons.IH [of "acc @ [s]"] Cons.prems by simp
qed simp

definition string_set :: "u8 list list \<Rightarrow> bool" where
  "string_set ss \<longleftrightarrow> sorted_wrt str_less ss \<and> length ss < 2 ^ 32 \<and> list_all (\<lambda>s. length s < 2 ^ 32) ss"

lemma read_strings_bytes:
  "list_all (\<lambda>s. length s < 2 ^ 32) ss \<Longrightarrow> read_strings (length ss) (concat (map write_string ss) @ r) = Inr (ss, r)"
  by (induction ss) (simp_all add: bind_reader_def map_reader_def read_string_bytes)

lemma read_string_set_bytes: "string_set ss \<Longrightarrow> read_string_set (write_string_set ss @ r) = Inr (ss, r)"
  by (simp add: read_string_set_def write_string_set_def bind_reader_def sequence_roundtrip map_reader_def
      read_strings_bytes string_set_def fold_set_insert)

section \<open>Correctness of the wire format\<close>

text \<open>
  C14: Headers and strings of header_size bytes correspond one to one: every header whose nodes are
  well-formed (and not the all-zero node) takes exactly header_size bytes and is read back from
  them, every string of at least that length is the wire form of the header read from it, so that a
  header can be passed on unchanged, and shorter strings are rejected with out_of_range.
\<close>

theorem header_wire_format:
  "(wire_header h \<longrightarrow> length (write_hdr h) = header_size \<and> read_hdr (write_hdr h @ r) = Inr (h, r))
   \<and> (header_size \<le> length bs \<longrightarrow> (\<exists>g. read_hdr bs = Inr (g, drop header_size bs)
        \<and> wire_header g \<and> write_hdr g = take header_size bs))
   \<and> (length bs < header_size \<longrightarrow> read_hdr bs = Inl Out_Of_Range)"
proof (intro conjI impI)
  assume "wire_header h"
  then show "length (write_hdr h) = header_size" "read_hdr (write_hdr h @ r) = Inr (h, r)"
    using length_write_hdr read_write_hdr by (auto simp: wire_header_def wire_node_def)
next
  assume "header_size \<le> length bs"
  with read_hdr_total obtain g where g: "read_hdr bs = Inr (g, drop header_size bs)" by blast
  with bytes_of_read_hdr [OF g] show "\<exists>g. read_hdr bs = Inr (g, drop header_size bs) \<and> wire_header g \<and> write_hdr g = take header_size bs"
    by (metis append_same_eq append_take_drop_id)
next
  assume s: "length bs < header_size"
  show "read_hdr bs = Inl Out_Of_Range"
  proof (cases "read_hdr bs")
    case (Inl e)
    then show ?thesis using local_readerD(2) [OF local_hdr] by simp
  next
    case (Inr x)
    then obtain h r where "read_hdr bs = Inr (h, r)" by (cases x) simp
    with bytes_of_read_hdr length_write_hdr [of h] have "header_size \<le> length bs"
      by (metis le_add1 length_append wire_header_def wire_node_def)
    then show ?thesis using s by simp
  qed
qed

theorem header_wire_format_witness:
  "length (write_hdr \<lparr>operation = 2, payload_len = 5, operation_data = 9, source_node = Some (Node_Data 7 (replicate 20 1)),
       dest_node = None, source_actor = 3, dest_actor = 4\<rparr>) = 72
   \<and> read_hdr [1, 2, 3] = Inl Out_Of_Range
   \<and> (\<exists>g. read_hdr (replicate 72 1) = Inr (g, []) \<and> write_hdr g = replicate 72 1)"
proof -
  let ?h = "\<lparr>operation = 2, payload_len = 5, operation_data = 9, source_node = Some (Node_Data 7 (replicate 20 1)),
       dest_node = None, source_actor = 3, dest_actor = 4\<rparr>"
  have w: "wire_header ?h"
    by (simp add: wire_header_def wire_node_def wf_node_def host_id_def host_id_size_def invalid_host_id_def)
  show ?thesis
    using header_wire_format [of ?h "[]" "[1, 2, 3]"] header_wire_format [of ?h "[]" "replicate 72 1"] w
    by (auto simp: header_size_eq)
qed

text \<open>
  What a node writes is accepted by the header check of its peer: client handshakes always,
  announcements for every actor id except the invalid one, kill messages for a valid id and a
  reason other than not_exited, and server handshakes of a published actor unless the length of the
  payload is a multiple of 2^32; the receiver of a server handshake reads back the
  published actor and its interface. A dispatch error is never accepted, because it is a kill
  message with payload and without actor.
\<close>

lemma datagrams_accepted:
  assumes "wire_node this" "wire_node remote" "this \<noteq> None" "remote \<noteq> None" "\<not> node_eq this remote"
    and "string_set sigs" and "wire_header orig"
  shows
    "(\<exists>h. read_hdr (write_client_handshake this remote []) = Inr (h, []) \<and> operation h = client_handshake \<and> valid_header h)
     \<and> (\<exists>h. read_hdr (write_announce_proxy this remote aid []) = Inr (h, []) \<and> operation h = announce_proxy_instance
          \<and> (valid_header h \<longleftrightarrow> aid \<noteq> 0))
     \<and> (\<exists>h. read_hdr (write_kill_proxy_instance this remote aid rsn []) = Inr (h, []) \<and> operation h = kill_proxy_instance
          \<and> (valid_header h \<longleftrightarrow> aid \<noteq> 0 \<and> rsn \<noteq> 0))
     \<and> (\<exists>h. read_hdr (write_server_handshake this None []) = Inr (h, []) \<and> operation h = server_handshake \<and> valid_header h)
     \<and> (\<exists>h p. read_hdr (write_server_handshake this (Some (aid, sigs)) []) = Inr (h, p) \<and> operation h = server_handshake
          \<and> (valid_header h \<longleftrightarrow> (aid = 0) = (of_nat (length p) = (0 :: u32)))
          \<and> read_int p = Inr (aid, write_string_set sigs) \<and> read_string_set (write_string_set sigs) = Inr (sigs, []))
     \<and> (\<exists>h p. read_hdr (write_dispatch_error this remote code orig payload []) = Inr (h, p) \<and> operation h = kill_proxy_instance
          \<and> \<not> valid_header h)"
proof -
  note wf = assms(1,2) [THEN wire_node_wf]
  have r: "read_hdr (fst (write_datagram [] h pw)) =
      Inr (h\<lparr>payload_len := (case pw of None \<Rightarrow> 0 | Some p \<Rightarrow> of_nat (length p))\<rparr>, case pw of None \<Rightarrow> [] | Some p \<Rightarrow> p)"
    if "wire_header h" for h pw
    using that write_datagram_result [of h "[]" pw] by (simp add: wire_header_def wire_node_wf read_write_hdr)
  have zc: "LENGTH(32) \<le> LENGTH(64)" by simp
  have z: "(ucast rsn :: u64) = 0 \<longleftrightarrow> rsn = 0"
    using unat_ucast_up [of rsn, where 'b = 64] by (metis unat_eq_zero zc)
  have client: "\<exists>h. read_hdr (write_client_handshake this remote []) = Inr (h, []) \<and> operation h = client_handshake \<and> valid_header h"
    using assms(1-5) by (simp add: write_client_handshake_def basp_write_datagram r wire_header_def valid_header_def valid_defs message_type_defs)
  have announce: "\<exists>h. read_hdr (write_announce_proxy this remote aid []) = Inr (h, []) \<and> operation h = announce_proxy_instance
      \<and> (valid_header h \<longleftrightarrow> aid \<noteq> 0)"
    using assms(1-5) by (simp add: write_announce_proxy_def basp_write_datagram r wire_header_def valid_header_def valid_defs message_type_defs)
  have kill: "\<exists>h. read_hdr (write_kill_proxy_instance this remote aid rsn []) = Inr (h, []) \<and> operation h = kill_proxy_instance
      \<and> (valid_header h \<longleftrightarrow> aid \<noteq> 0 \<and> rsn \<noteq> 0)"
    using assms(1-5) z by (auto simp: write_kill_proxy_instance_def r wire_header_def valid_header_def valid_defs message_type_defs)
  have default: "\<exists>h. read_hdr (write_server_handshake this None []) = Inr (h, []) \<and> operation h = server_handshake \<and> valid_header h"
    using assms(1,3) by (simp add: write_server_handshake_def server_handshake_bytes_def r wire_header_def valid_header_def valid_defs
        message_type_defs basp_version_def)
  have server: "\<exists>h p. read_hdr (write_server_handshake this (Some (aid, sigs)) []) = Inr (h, p) \<and> operation h = server_handshake
      \<and> (valid_header h \<longleftrightarrow> (aid = 0) = (of_nat (length p) = (0 :: u32))) \<and> read_int p = Inr (aid, write_string_set sigs)"
    using assms(1,3) by (auto simp: write_server_handshake_def server_handshake_bytes_def r wire_header_def valid_header_def valid_defs
        message_type_defs basp_version_def)
  have sigs: "read_string_set (write_string_set sigs) = Inr (sigs, [])"
    using read_string_set_bytes [OF assms(6), of "[]"] by simp
  have err: "\<exists>h p. read_hdr (write_dispatch_error this remote code orig payload []) = Inr (h, p) \<and> operation h = kill_proxy_instance
      \<and> \<not> valid_header h"
    using assms(1,2) by (auto simp: write_dispatch_error_def r wire_header_def valid_header_def valid_defs message_type_defs)
  show ?thesis using client announce kill default server sigs err by blast
qed

lemma datagrams_accepted_witness:
  "\<exists>h p. read_hdr (write_server_handshake (Some (Node_Data 7 (replicate 20 1))) (Some (5, [[65], [66]])) []) = Inr (h, p)
     \<and> valid_header h \<and> read_int p = Inr (5 :: u32, write_string_set [[65], [66]])"
proof -
  let ?n = "Some (Node_Data 7 (replicate 20 1))" and ?m = "Some (Node_Data 8 (replicate 20 1))"
  have n: "wire_node ?n" "wire_node ?m"
    by (simp_all add: wire_node_def wf_node_def host_id_def host_id_size_def invalid_host_id_def)
  have e: "\<not> node_eq ?n ?m"
    by (simp add: node_eq_def compare_node_def process_id_def Let_def)
  have s: "string_set [[65], [66]]" by (simp add: string_set_def)
  let ?o = "\<lparr>operation = 2, payload_len = 5, operation_data = 9, source_node = None, dest_node = None,
    source_actor = 3, dest_actor = 4 :: u32\<rparr>"
  have o: "wire_header ?o" by (simp add: wire_header_def)
  obtain h p where hp: "read_hdr (write_server_handshake ?n (Some (5, [[65], [66]])) []) = Inr (h, p)"
    "valid_header h \<longleftrightarrow> of_nat (length p) \<noteq> (0 :: u32)" "read_int p = Inr (5 :: u32, write_string_set [[65], [66]])"
    using datagrams_accepted [OF n _ _ e s o, of 5 1 1 None] by auto
  have "p = int_bytes (5 :: u32) @ write_string_set [[65], [66]]" using bytes_of_read_int [OF hp(3)] by simp
  then have "length p = 18" by (simp add: write_string_set_def write_string_def begin_sequence_out_def)
  then show ?thesis using hp by auto
qed

end
