(* ===== verification/Basp_Routing.thy ===== *)
theory Basp_Routing
  imports Basp_Header Atoms
begin

text \<open>
  The routing table of a BASP node (class routing\_table of io/basp.hpp and io/basp.cpp): direct
  connections in both directions, indirect routes as sets of hops, and blacklisted hops. A hop set is
  an unordered\_set, whose iteration order may change with every insertion; it is a list without
  repetitions here that an insertion reorders by a parameter. The maps and sets compare keys for
  equality: std::unordered\_map requires that keys that compare equal have the same hash, which
  std::hash of node\_id guarantees for equal nodes only.
\<close>

section \<open>State\<close>

type_synonym connection_handle = u64

definition invalid_connection_handle :: connection_handle where
  "invalid_connection_handle = - 1"

datatype hook_event =
    Message_Received node_id actor_addr actor_addr message_id "elem list"
  | Message_Sent actor_addr node_id actor_addr message_id "elem list"
  | Message_Forwarded header "u8 list option"
  | Message_Sending_Failed actor_addr actor_addr message_id "elem list"
  | Message_Forwarding_Failed header "u8 list option"
  | Actor_Published actor_addr "u8 list list" u16
  | New_Remote_Actor actor_addr
  | New_Connection_Established node_id
  | New_Route_Added node_id node_id
  | Connection_Lost node_id
  | Route_Lost node_id node_id
  | Invalid_Message_Received node_id actor_addr u32 message_id "elem list"

text \<open>
  The keys of the maps are compared with the equality of the logic. The unordered maps of the code
  compare node ids with \<^verbatim>\<open>node_id::compare\<close>, which uses strncmp, and hash their first eight bytes: host
  ids that differ only behind a zero byte may be identified there. The table is modelled for host ids
  that differ before their first zero byte.
\<close>

record routing_table =
  direct_by_hdl :: "connection_handle \<rightharpoonup> node_id"
  direct_by_nid :: "node_id \<rightharpoonup> connection_handle"
  indirect :: "node_id \<rightharpoonup> node_id list"
  blacklisted :: "node_id \<rightharpoonup> node_id set"
  has_hook :: bool
  hook_log :: "hook_event list"

definition notify_hook :: "hook_event \<Rightarrow> 'a routing_table_scheme \<Rightarrow> 'a routing_table_scheme" where
  "notify_hook e s = (if has_hook s then s\<lparr>hook_log := hook_log s @ [e]\<rparr> else s)"

definition empty_table :: "bool \<Rightarrow> routing_table" where
  "empty_table hk = \<lparr>direct_by_hdl = Map.empty, direct_by_nid = Map.empty, indirect = Map.empty,
     blacklisted = Map.empty, has_hook = hk, hook_log = []\<rparr>"

section \<open>Operations\<close>

definition lookup_node :: "connection_handle \<Rightarrow> 'a routing_table_scheme \<Rightarrow> node_id" where
  "lookup_node hdl s = (case direct_by_hdl s hdl of Some n \<Rightarrow> n | None \<Rightarrow> None)"

definition lookup_direct :: "node_id \<Rightarrow> 'a routing_table_scheme \<Rightarrow> connection_handle" where
  "lookup_direct n s = (case direct_by_nid s n of Some h \<Rightarrow> h | None \<Rightarrow> invalid_connection_handle)"

definition lookup_indirect :: "node_id \<Rightarrow> 'a routing_table_scheme \<Rightarrow> node_id" where
  "lookup_indirect n s = (case indirect s n of None \<Rightarrow> None | Some [] \<Rightarrow> None | Some (h # _) \<Rightarrow> h)"

text \<open>Hops without connection are erased until one with a connection is found.\<close>

fun lookup_hops :: "(node_id \<Rightarrow> connection_handle) \<Rightarrow> node_id list \<Rightarrow> (connection_handle \<times> node_id) option \<times> node_id list" where
  "lookup_hops d [] = (None, [])"
| "lookup_hops d (hop # hops) = (if d hop \<noteq> invalid_connection_handle then (Some (d hop, hop), hop # hops)
     else lookup_hops d hops)"

text \<open>A route is the handle of the connection and the next hop.\<close>

definition lookup_route ::
  "node_id \<Rightarrow> 'a routing_table_scheme \<Rightarrow> (connection_handle \<times> node_id) option \<times> 'a routing_table_scheme" where
  "lookup_route target s = (let hdl = lookup_direct target s in
     if hdl \<noteq> invalid_connection_handle then (Some (hdl, target), s)
     else case indirect s target of None \<Rightarrow> (None, s)
       | Some hops \<Rightarrow> case lookup_hops (\<lambda>n. lookup_direct n s) hops of
           (r, hops') \<Rightarrow> (r, s\<lparr>indirect := (indirect s)(target \<mapsto> hops')\<rparr>))"

definition blacklist :: "node_id \<Rightarrow> node_id \<Rightarrow> 'a routing_table_scheme \<Rightarrow> 'a routing_table_scheme" where
  "blacklist hop dest s = (let s1 = s\<lparr>blacklisted := (blacklisted s)(dest \<mapsto>
       insert hop (case blacklisted s dest of None \<Rightarrow> {} | Some b \<Rightarrow> b))\<rparr> in
     case indirect s1 dest of None \<Rightarrow> s1
     | Some hops \<Rightarrow> let hops' = remove1 hop hops in
         if hops' = [] then s1\<lparr>indirect := (indirect s1)(dest := None)\<rparr>
         else s1\<lparr>indirect := (indirect s1)(dest \<mapsto> hops')\<rparr>)"

definition erase_direct ::
  "(node_id \<Rightarrow> 'a routing_table_scheme \<Rightarrow> 'a routing_table_scheme) \<Rightarrow> connection_handle
     \<Rightarrow> 'a routing_table_scheme \<Rightarrow> 'a routing_table_scheme" where
  "erase_direct cb hdl s = (case direct_by_hdl s hdl of None \<Rightarrow> s
     | Some n \<Rightarrow> let s1 = notify_hook (Connection_Lost n) (cb n s) in
         s1\<lparr>direct_by_nid := (direct_by_nid s1)(n := None), direct_by_hdl := (direct_by_hdl s1)(hdl := None)\<rparr>)"

definition erase_indirect :: "node_id \<Rightarrow> 'a routing_table_scheme \<Rightarrow> bool \<times> 'a routing_table_scheme" where
  "erase_indirect dest s = (case indirect s dest of None \<Rightarrow> (False, s)
     | Some hops \<Rightarrow> let s1 = (if has_hook s then fold (\<lambda>n. notify_hook (Route_Lost n dest)) hops s else s) in
         (True, s1\<lparr>indirect := (indirect s1)(dest := None)\<rparr>))"

text \<open>The assertions of add\_direct vanish in release builds; emplace keeps an existing entry.\<close>

definition add_direct :: "connection_handle \<Rightarrow> node_id \<Rightarrow> 'a routing_table_scheme \<Rightarrow> 'a routing_table_scheme" where
  "add_direct hdl n s = notify_hook (New_Connection_Established n)
     (s\<lparr>direct_by_hdl := (if direct_by_hdl s hdl = None then (direct_by_hdl s)(hdl \<mapsto> n) else direct_by_hdl s),
        direct_by_nid := (if direct_by_nid s n = None then (direct_by_nid s)(n \<mapsto> hdl) else direct_by_nid s)\<rparr>)"

definition emplace_hop :: "(node_id list \<Rightarrow> node_id list) \<Rightarrow> node_id \<Rightarrow> node_id list \<Rightarrow> node_id list" where
  "emplace_hop order hop hops = (if hop \<in> set hops then hops else order (hop # hops))"

definition add_indirect ::
  "(node_id list \<Rightarrow> node_id list) \<Rightarrow> node_id \<Rightarrow> node_id \<Rightarrow> 'a routing_table_scheme \<Rightarrow> bool \<times> 'a routing_table_scheme" where
  "add_indirect order hop dest s =
     (if (case blacklisted s dest of None \<Rightarrow> True | Some b \<Rightarrow> hop \<notin> b)
      then let hops = (case indirect s dest of None \<Rightarrow> [] | Some hs \<Rightarrow> hs) in
        (hops = [], notify_hook (New_Route_Added hop dest)
          (s\<lparr>indirect := (indirect s)(dest \<mapsto> emplace_hop order hop hops)\<rparr>))
      else (False, s))"

definition reachable :: "node_id \<Rightarrow> 'a routing_table_scheme \<Rightarrow> bool" where
  "reachable dest s \<longleftrightarrow> direct_by_nid s dest \<noteq> None \<or> indirect s dest \<noteq> None"

definition erase_node ::
  "(node_id \<Rightarrow> 'a routing_table_scheme \<Rightarrow> 'a routing_table_scheme) \<Rightarrow> node_id
     \<Rightarrow> 'a routing_table_scheme \<Rightarrow> nat \<times> 'a routing_table_scheme" where
  "erase_node cb dest s = (let s0 = cb dest s;
     (res, s1) = (case indirect s0 dest of None \<Rightarrow> (0, s0)
       | Some hops \<Rightarrow> let s' = fold (\<lambda>n t. notify_hook (Route_Lost n dest) (cb n t)) hops s0 in
           (length hops, s'\<lparr>indirect := (indirect s')(dest := None)\<rparr>));
     hdl = lookup_direct dest s1 in
     if hdl \<noteq> invalid_connection_handle
     then (res + 1, notify_hook (Connection_Lost dest)
       (s1\<lparr>direct_by_hdl := (direct_by_hdl s1)(hdl := None), direct_by_nid := (direct_by_nid s1)(dest := None)\<rparr>))
     else (res, s1))"

section \<open>Invariant\<close>

text \<open>
  Both direct maps describe the same connections, no route is stored under an invalid handle or
  node, hops of a destination do not repeat and are not blacklisted for it.
\<close>

definition table_inv :: "'a routing_table_scheme \<Rightarrow> bool" where
  "table_inv s \<longleftrightarrow> (\<forall>h n. direct_by_hdl s h = Some n \<longleftrightarrow> direct_by_nid s n = Some h)
     \<and> direct_by_hdl s invalid_connection_handle = None
     \<and> (\<forall>d hops. indirect s d = Some hops \<longrightarrow> distinct hops
          \<and> (\<forall>b. blacklisted s d = Some b \<longrightarrow> set hops \<inter> b = {}))"

text \<open>What the table knows: the connected nodes and the usable hops of a destination.\<close>

definition usable_hops :: "node_id \<Rightarrow> 'a routing_table_scheme \<Rightarrow> node_id set" where
  "usable_hops d s = (case indirect s d of None \<Rightarrow> {} | Some hops \<Rightarrow> {h \<in> set hops. direct_by_nid s h \<noteq> None})"

lemma table_invD:
  assumes "table_inv s"
  shows "direct_by_hdl s h = Some n \<longleftrightarrow> direct_by_nid s n = Some h"
    and "direct_by_nid s n \<noteq> Some invalid_connection_handle"
    and "indirect s d = Some hops \<Longrightarrow> distinct hops"
    and "indirect s d = Some hops \<Longrightarrow> blacklisted s d = Some b \<Longrightarrow> set hops \<inter> b = {}"
proof -
  show "direct_by_hdl s h = Some n \<longleftrightarrow> direct_by_nid s n = Some h" using assms by (simp add: table_inv_def)
  show "direct_by_nid s n \<noteq> Some invalid_connection_handle" using assms unfolding table_inv_def by (metis option.distinct(1))
qed (use assms in \<open>auto simp: table_inv_def\<close>)

lemma lookup_direct_invalid:
  "table_inv s \<Longrightarrow> lookup_direct n s = invalid_connection_handle \<longleftrightarrow> direct_by_nid s n = None"
  using table_invD(2) [of s n] by (auto simp: lookup_direct_def split: option.splits)

lemma notify_hook_table [simp]:
  "direct_by_hdl (notify_hook e s) = direct_by_hdl s" "direct_by_nid (notify_hook e s) = direct_by_nid s"
  "indirect (notify_hook e s) = indirect s" "blacklisted (notify_hook e s) = blacklisted s"
  "has_hook (notify_hook e s) = has_hook s"
  by (simp_all add: notify_hook_def)

lemma fold_notify_table [simp]:
  "direct_by_hdl (fold (\<lambda>n. notify_hook (f n)) ns s) = direct_by_hdl s"
  "direct_by_nid (fold (\<lambda>n. notify_hook (f n)) ns s) = direct_by_nid s"
  "indirect (fold (\<lambda>n. notify_hook (f n)) ns s) = indirect s"
  "blacklisted (fold (\<lambda>n. notify_hook (f n)) ns s) = blacklisted s"
  by (induction ns arbitrary: s) simp_all

lemma lookup_hops_result:
  "lookup_hops d hops = (r, hops') \<Longrightarrow>
     hops' = dropWhile (\<lambda>h. d h = invalid_connection_handle) hops
     \<and> r = (case hops' of [] \<Rightarrow> None | h # _ \<Rightarrow> Some (d h, h))"
  by (induction hops) (auto split: if_splits)

section \<open>Lookups\<close>

lemma lookup_route_frame [simp]:
  "direct_by_hdl (snd (lookup_route t s)) = direct_by_hdl s" "direct_by_nid (snd (lookup_route t s)) = direct_by_nid s"
  "blacklisted (snd (lookup_route t s)) = blacklisted s" "lookup_direct n (snd (lookup_route t s)) = lookup_direct n s"
  "has_hook (snd (lookup_route t s)) = has_hook s" "hook_log (snd (lookup_route t s)) = hook_log s"
  by (simp_all add: lookup_route_def Let_def lookup_direct_def split: option.splits prod.splits)

lemma lookup_route_indirect:
  "indirect (snd (lookup_route t s)) d =
     (if d = t \<and> lookup_direct t s = invalid_connection_handle
      then map_option (dropWhile (\<lambda>h. lookup_direct h s = invalid_connection_handle)) (indirect s d) else indirect s d)"
  by (auto simp: lookup_route_def Let_def split: option.splits prod.splits dest!: lookup_hops_result)

lemma table_inv_lookup:
  assumes "table_inv s"
  shows "table_inv (snd (lookup_route t s))"
proof -
  have "set (dropWhile P hops) \<subseteq> set hops \<and> (distinct hops \<longrightarrow> distinct (dropWhile P hops))" for P and hops :: "node_id list"
    by (auto dest: set_dropWhileD)
  then show ?thesis using assms
    unfolding table_inv_def lookup_route_indirect lookup_route_frame by (auto split: if_splits; blast)
qed

lemma usable_hops_lookup [simp]:
  assumes "table_inv s"
  shows "usable_hops d (snd (lookup_route t s)) = usable_hops d s"
proof -
  have "{h \<in> set (dropWhile (\<lambda>h. lookup_direct h s = invalid_connection_handle) hops). direct_by_nid s h \<noteq> None}
      = {h \<in> set hops. direct_by_nid s h \<noteq> None}" for hops
    using lookup_direct_invalid [OF assms] by (induction hops) auto
  then show ?thesis by (auto simp: usable_hops_def lookup_route_indirect split: option.splits)
qed

lemma lookup_route_some:
  assumes "table_inv s" and "fst (lookup_route t s) = Some (hdl, hop)"
  shows "direct_by_nid s hop = Some hdl \<and> (hop = t \<or> direct_by_nid s t = None \<and> hop \<in> usable_hops t s)"
proof (cases "direct_by_nid s t")
  case None
  then have n: "lookup_direct t s = invalid_connection_handle" using lookup_direct_invalid [OF assms(1)] by simp
  with assms(2) obtain hops hops' where h: "indirect s t = Some hops" "lookup_hops (\<lambda>n. lookup_direct n s) hops = (Some (hdl, hop), hops')"
    by (auto simp: lookup_route_def split: option.splits prod.splits)
  from lookup_hops_result [OF h(2)] have d: "lookup_direct hop s = hdl" "hops' = dropWhile (\<lambda>h. lookup_direct h s = invalid_connection_handle) hops"
    "hop \<in> set hops'" "hop = hd hops'" by (auto split: list.splits)
  have "lookup_direct hop s \<noteq> invalid_connection_handle" using d hd_dropWhile [of "\<lambda>h. lookup_direct h s = invalid_connection_handle" hops]
    by (metis list.set_cases list.simps(3))
  then obtain x where x: "direct_by_nid s hop = Some x" using lookup_direct_invalid [OF assms(1)] by blast
  then show ?thesis using h(1) d None by (auto simp: lookup_direct_def usable_hops_def dest: set_dropWhileD)
next
  case (Some x)
  then have "lookup_direct t s \<noteq> invalid_connection_handle" using lookup_direct_invalid [OF assms(1)] by simp
  then show ?thesis using assms(2) Some by (auto simp: lookup_route_def lookup_direct_def)
qed

lemma lookup_route_none:
  assumes "table_inv s"
  shows "fst (lookup_route t s) = None \<longleftrightarrow> direct_by_nid s t = None \<and> usable_hops t s = {}"
proof (cases "direct_by_nid s t")
  case None
  then have n: "lookup_direct t s = invalid_connection_handle" using lookup_direct_invalid [OF assms] by simp
  have "fst (lookup_hops (\<lambda>n. lookup_direct n s) hops) = None \<longleftrightarrow> {h \<in> set hops. direct_by_nid s h \<noteq> None} = {}" for hops
    using lookup_direct_invalid [OF assms] by (induction hops) auto
  then show ?thesis using n None
    by (simp add: lookup_route_def usable_hops_def split: option.splits prod.splits) (metis fst_conv)
next
  case (Some x)
  then have "lookup_direct t s \<noteq> invalid_connection_handle" using lookup_direct_invalid [OF assms] by simp
  then show ?thesis using Some by (simp add: lookup_route_def)
qed

section \<open>Changes\<close>

lemma table_inv_cong:
  "direct_by_hdl s = direct_by_hdl t \<Longrightarrow> direct_by_nid s = direct_by_nid t \<Longrightarrow> indirect s = indirect t
     \<Longrightarrow> blacklisted s = blacklisted t \<Longrightarrow> table_inv s = table_inv t"
  by (simp add: table_inv_def)

lemma direct_by_nid_inj:
  assumes "table_inv s" and "direct_by_nid s n = Some h" and "direct_by_nid s m = Some h"
  shows "n = m"
  using table_invD(1) [OF assms(1)] assms(2,3) by (metis option.inject)

lemma table_inv_remove_direct:
  assumes "table_inv s" and "direct_by_hdl s hdl = Some n"
    and "direct_by_hdl t = (direct_by_hdl s)(hdl := None)" and "direct_by_nid t = (direct_by_nid s)(n := None)"
    and "indirect t = indirect s" and "blacklisted t = blacklisted s"
  shows "table_inv t"
  using assms table_invD(1,2) [OF assms(1)] direct_by_nid_inj [OF assms(1)]
  by (auto simp: table_inv_def split: if_splits)

lemma table_inv_remove_indirect:
  assumes "table_inv s" and "direct_by_hdl t = direct_by_hdl s" and "direct_by_nid t = direct_by_nid s"
    and "indirect t = (indirect s)(d := None)" and "blacklisted t = blacklisted s"
  shows "table_inv t"
  using assms unfolding table_inv_def by auto

lemma erase_indirect_result:
  "fst (erase_indirect d s) = (indirect s d \<noteq> None)"
  "direct_by_hdl (snd (erase_indirect d s)) = direct_by_hdl s" "direct_by_nid (snd (erase_indirect d s)) = direct_by_nid s"
  "indirect (snd (erase_indirect d s)) = (indirect s)(d := None)" "blacklisted (snd (erase_indirect d s)) = blacklisted s"
  by (auto simp: erase_indirect_def Let_def split: option.splits)

lemma table_inv_erase_indirect: "table_inv s \<Longrightarrow> table_inv (snd (erase_indirect d s))"
  by (rule table_inv_remove_indirect [where s = s and d = d]) (simp_all add: erase_indirect_result)

lemma add_direct_result:
  assumes "direct_by_hdl s h = None" and "direct_by_nid s n = None"
  shows "direct_by_hdl (add_direct h n s) = (direct_by_hdl s)(h \<mapsto> n)"
    "direct_by_nid (add_direct h n s) = (direct_by_nid s)(n \<mapsto> h)"
    "indirect (add_direct h n s) = indirect s" "blacklisted (add_direct h n s) = blacklisted s"
  using assms by (simp_all add: add_direct_def)

lemma table_inv_add_direct:
  assumes "table_inv s" and "direct_by_hdl s h = None" and "direct_by_nid s n = None" and "h \<noteq> invalid_connection_handle"
  shows "table_inv (add_direct h n s)"
  using assms table_invD(1) [OF assms(1), of h] unfolding table_inv_def add_direct_result [OF assms(2,3)]
  by (auto split: if_splits)

lemma blacklist_result:
  "direct_by_hdl (blacklist hop d s) = direct_by_hdl s" "direct_by_nid (blacklist hop d s) = direct_by_nid s"
  "blacklisted (blacklist hop d s) = (blacklisted s)(d \<mapsto> insert hop (case blacklisted s d of None \<Rightarrow> {} | Some b \<Rightarrow> b))"
  "indirect (blacklist hop d s) = (indirect s)(d :=
     (case indirect s d of None \<Rightarrow> None | Some hops \<Rightarrow> if remove1 hop hops = [] then None else Some (remove1 hop hops)))"
  by (auto simp: blacklist_def Let_def fun_eq_iff split: option.splits)

lemma table_inv_blacklist:
  assumes "table_inv s"
  shows "table_inv (blacklist hop d s)"
proof -
  have "distinct hops' \<and> (\<forall>b. blacklisted (blacklist hop d s) e = Some b \<longrightarrow> set hops' \<inter> b = {})"
    if "indirect (blacklist hop d s) e = Some hops'" for e hops'
  proof (cases "e = d")
    case False
    then show ?thesis using that assms by (auto simp: blacklist_result table_inv_def)
  next
    case True
    with that obtain hops where h: "indirect s d = Some hops" "hops' = remove1 hop hops"
      by (auto simp: blacklist_result split: option.splits if_splits)
    then have "distinct hops" "\<And>b. blacklisted s d = Some b \<Longrightarrow> set hops \<inter> b = {}" using assms table_invD by blast+
    then show ?thesis using True h by (auto simp: blacklist_result set_remove1_eq split: option.splits)
  qed
  then show ?thesis using assms unfolding table_inv_def by (simp add: blacklist_result(1,2))
qed

lemma emplace_hop_set: "(\<And>xs. mset (order xs) = mset xs) \<Longrightarrow> set (emplace_hop order hop hops) = insert hop (set hops)"
  using mset_eq_setD [of "order (hop # hops)" "hop # hops"] by (auto simp: emplace_hop_def)

lemma emplace_hop_distinct: "(\<And>xs. mset (order xs) = mset xs) \<Longrightarrow> distinct hops \<Longrightarrow> distinct (emplace_hop order hop hops)"
  by (metis distinct.simps(2) emplace_hop_def mset_eq_imp_distinct_iff)

lemma add_indirect_frame:
  "direct_by_hdl (snd (add_indirect order hop d s)) = direct_by_hdl s" "direct_by_nid (snd (add_indirect order hop d s)) = direct_by_nid s"
  "blacklisted (snd (add_indirect order hop d s)) = blacklisted s"
  by (simp_all add: add_indirect_def Let_def)

lemma table_inv_add_indirect:
  assumes "table_inv s" and o: "\<And>xs. mset (order xs) = mset xs"
  shows "table_inv (snd (add_indirect order hop d s))"
proof (cases "case blacklisted s d of None \<Rightarrow> True | Some b \<Rightarrow> hop \<notin> b")
  case True
  let ?hops = "case indirect s d of None \<Rightarrow> [] | Some hs \<Rightarrow> hs"
  have i: "indirect (snd (add_indirect order hop d s)) = (indirect s)(d \<mapsto> emplace_hop order hop ?hops)"
    using True by (simp add: add_indirect_def Let_def)
  have "distinct ?hops" using assms(1) by (auto simp: table_inv_def split: option.splits)
  then have "distinct (emplace_hop order hop ?hops)" using emplace_hop_distinct o by blast
  moreover have "set (emplace_hop order hop ?hops) \<inter> b = {}" if "blacklisted s d = Some b" for b
    using that True assms(1) emplace_hop_set [OF o, of hop ?hops] by (auto simp: table_inv_def split: option.splits)
  ultimately show ?thesis using assms(1) unfolding table_inv_def by (auto simp: i add_indirect_frame)
qed (use assms in \<open>simp add: add_indirect_def\<close>)

section \<open>Erasing with a callback\<close>

text \<open>The callback of an erase operation must not modify the routing table.\<close>

definition keeps_table :: "('a routing_table_scheme \<Rightarrow> 'a routing_table_scheme) \<Rightarrow> bool" where
  "keeps_table f \<longleftrightarrow> (\<forall>s. direct_by_hdl (f s) = direct_by_hdl s \<and> direct_by_nid (f s) = direct_by_nid s
     \<and> indirect (f s) = indirect s \<and> blacklisted (f s) = blacklisted s)"

lemma keeps_tableD [simp]:
  assumes "keeps_table f"
  shows "direct_by_hdl (f s) = direct_by_hdl s" "direct_by_nid (f s) = direct_by_nid s"
    "indirect (f s) = indirect s" "blacklisted (f s) = blacklisted s"
  using assms by (simp_all add: keeps_table_def)

locale erase_callback =
  fixes cb :: "node_id \<Rightarrow> 'a routing_table_scheme \<Rightarrow> 'a routing_table_scheme"
  assumes cb_keeps: "keeps_table (cb n)"
begin

lemma erase_direct_table:
  "direct_by_hdl (erase_direct cb hdl s) = (direct_by_hdl s)(hdl := None)"
  "direct_by_nid (erase_direct cb hdl s) = (case direct_by_hdl s hdl of None \<Rightarrow> direct_by_nid s | Some n \<Rightarrow> (direct_by_nid s)(n := None))"
  "indirect (erase_direct cb hdl s) = indirect s" "blacklisted (erase_direct cb hdl s) = blacklisted s"
  using cb_keeps by (auto simp: erase_direct_def Let_def split: option.splits)

lemma table_inv_erase_direct:
  assumes "table_inv s"
  shows "table_inv (erase_direct cb hdl s)"
proof (cases "direct_by_hdl s hdl")
  case None
  then show ?thesis using assms by (simp add: erase_direct_def)
next
  case (Some n)
  then show ?thesis by (intro table_inv_remove_direct [OF assms Some]) (simp_all add: erase_direct_table)
qed

lemma fold_cb_table:
  "direct_by_hdl (fold (\<lambda>n t. notify_hook (e n) (cb n t)) ns s) = direct_by_hdl s"
  "direct_by_nid (fold (\<lambda>n t. notify_hook (e n) (cb n t)) ns s) = direct_by_nid s"
  "indirect (fold (\<lambda>n t. notify_hook (e n) (cb n t)) ns s) = indirect s"
  "blacklisted (fold (\<lambda>n t. notify_hook (e n) (cb n t)) ns s) = blacklisted s"
  using cb_keeps by (induction ns arbitrary: s) simp_all

lemma erase_node_table:
  assumes "table_inv s"
  shows "direct_by_hdl (snd (erase_node cb d s)) = (case direct_by_nid s d of None \<Rightarrow> direct_by_hdl s | Some h \<Rightarrow> (direct_by_hdl s)(h := None))"
    "direct_by_nid (snd (erase_node cb d s)) = (direct_by_nid s)(d := None)"
    "indirect (snd (erase_node cb d s)) = (indirect s)(d := None)"
    "blacklisted (snd (erase_node cb d s)) = blacklisted s"
    "fst (erase_node cb d s) = (case indirect s d of None \<Rightarrow> 0 | Some hops \<Rightarrow> length hops) + (if direct_by_nid s d = None then 0 else 1)"
  using cb_keeps table_invD(2) [OF assms, of d]
  by (auto simp: erase_node_def Let_def lookup_direct_def fold_cb_table split: option.splits)

lemma table_inv_erase_node:
  assumes "table_inv s"
  shows "table_inv (snd (erase_node cb d s))"
proof -
  have i: "table_inv (s\<lparr>indirect := (indirect s)(d := None)\<rparr>)"
    by (rule table_inv_remove_indirect [OF assms]) simp_all
  show ?thesis
  proof (cases "direct_by_nid s d")
    case None
    then have "direct_by_nid s = (direct_by_nid s)(d := None)" by auto
    then show ?thesis using None i erase_node_table [OF assms, of d] by (subst table_inv_cong [OF _ _ _ _]) auto
  next
    case (Some h)
    then have "direct_by_hdl (s\<lparr>indirect := (indirect s)(d := None)\<rparr>) h = Some d" using table_invD(1) [OF assms] by simp
    then show ?thesis by (rule table_inv_remove_direct [OF i]) (simp_all add: erase_node_table [OF assms] Some)
  qed
qed

end

section \<open>Reachable tables\<close>

text \<open>
  The operations of the table as steps. Connections are added for a fresh handle and a node without
  connection, as add\_direct asserts; callbacks keep the table; hop sets may be reordered in any way.
\<close>

inductive table_step :: "'a routing_table_scheme \<Rightarrow> 'a routing_table_scheme \<Rightarrow> bool" where
  ts_lookup: "table_step s (snd (lookup_route t s))"
| ts_blacklist: "table_step s (blacklist hop d s)"
| ts_erase_indirect: "table_step s (snd (erase_indirect d s))"
| ts_add_direct: "direct_by_hdl s h = None \<Longrightarrow> direct_by_nid s n = None \<Longrightarrow> h \<noteq> invalid_connection_handle
    \<Longrightarrow> table_step s (add_direct h n s)"
| ts_add_indirect: "(\<And>xs. mset (order xs) = mset xs) \<Longrightarrow> table_step s (snd (add_indirect order hop d s))"
| ts_erase_direct: "(\<And>n. keeps_table (cb n)) \<Longrightarrow> table_step s (erase_direct cb h s)"
| ts_erase_node: "(\<And>n. keeps_table (cb n)) \<Longrightarrow> table_step s (snd (erase_node cb d s))"

lemma table_inv_step: "table_step s t \<Longrightarrow> table_inv s \<Longrightarrow> table_inv t"
proof (induction rule: table_step.induct)
  case (ts_erase_direct cb s h)
  then show ?case by (intro erase_callback.table_inv_erase_direct erase_callback.intro)
next
  case (ts_erase_node cb s d)
  then show ?case by (intro erase_callback.table_inv_erase_node erase_callback.intro)
qed (auto intro: table_inv_lookup table_inv_blacklist table_inv_erase_indirect table_inv_add_direct table_inv_add_indirect)

lemma table_inv_steps: "table_step\<^sup>*\<^sup>* s t \<Longrightarrow> table_inv s \<Longrightarrow> table_inv t"
  by (induction rule: rtranclp_induct) (auto intro: table_inv_step)

text \<open>A blacklisted hop stays blacklisted.\<close>

definition is_blacklisted :: "node_id \<Rightarrow> node_id \<Rightarrow> 'a routing_table_scheme \<Rightarrow> bool" where
  "is_blacklisted hop d s \<longleftrightarrow> (\<exists>b. blacklisted s d = Some b \<and> hop \<in> b)"

lemma is_blacklisted_step: "table_step s t \<Longrightarrow> is_blacklisted hop d s \<Longrightarrow> is_blacklisted hop d t"
proof (induction rule: table_step.induct)
  case (ts_erase_direct cb s h)
  then show ?case by (simp add: is_blacklisted_def erase_callback.erase_direct_table [OF erase_callback.intro])
next
  case (ts_erase_node cb s d)
  then have k: "\<And>n. keeps_table (cb n)" by simp
  have "blacklisted (fold (\<lambda>n t. notify_hook (Route_Lost n d) (cb n t)) hops s') = blacklisted s'" for hops s'
    by (rule erase_callback.fold_cb_table(4) [OF erase_callback.intro [OF k]])
  then have "blacklisted (snd (erase_node cb d s)) = blacklisted s"
    using k by (simp add: erase_node_def Let_def split: option.splits)
  then show ?case using ts_erase_node by (simp add: is_blacklisted_def)
qed (auto simp: is_blacklisted_def blacklist_result erase_indirect_result add_direct_def add_indirect_frame)

lemma is_blacklisted_steps: "table_step\<^sup>*\<^sup>* s t \<Longrightarrow> is_blacklisted hop d s \<Longrightarrow> is_blacklisted hop d t"
  by (induction rule: rtranclp_induct) (auto intro: is_blacklisted_step)

lemma table_inv_empty [simp]: "table_inv (empty_table hk)"
  by (simp add: table_inv_def empty_table_def)

text \<open>
  C13: In every reachable routing table the two direct maps describe the same connections, and
  lookup is sound and complete: it returns a connected hop, which is the target itself whenever that
  is connected and otherwise a hop stored for it, and it fails only if neither exists; it may forget
  unusable hops but changes no other answer. A hop that was blacklisted for a destination at any
  time is never chosen for it again, unless it is the destination itself.
\<close>

theorem routing_table_correct:
  assumes "table_step\<^sup>*\<^sup>* (empty_table hk) s" and "table_step\<^sup>*\<^sup>* (blacklist bad dest s) t"
  shows "(direct_by_hdl t h = Some n \<longleftrightarrow> direct_by_nid t n = Some h)
    \<and> (case fst (lookup_route target t) of
         None \<Rightarrow> direct_by_nid t target = None \<and> usable_hops target t = {}
       | Some (hdl, hop) \<Rightarrow> direct_by_nid t hop = Some hdl
           \<and> (if direct_by_nid t target \<noteq> None then hop = target else hop \<in> usable_hops target t))
    \<and> usable_hops d (snd (lookup_route target t)) = usable_hops d t
    \<and> (case fst (lookup_route dest t) of None \<Rightarrow> True | Some (hdl, hop) \<Rightarrow> hop \<noteq> bad \<or> hop = dest)"
proof -
  have s: "table_inv s" using table_inv_steps [OF assms(1)] by simp
  have t: "table_inv t" using table_inv_steps [OF assms(2)] table_inv_blacklist [OF s] by blast
  have "is_blacklisted bad dest (blacklist bad dest s)" by (simp add: is_blacklisted_def blacklist_result)
  then have b: "is_blacklisted bad dest t" using is_blacklisted_steps [OF assms(2)] by blast
  have n: "bad \<notin> usable_hops dest t"
    using b table_invD(4) [OF t, of dest] by (auto simp: usable_hops_def is_blacklisted_def split: option.splits)
  have 1: "case fst (lookup_route target t) of
         None \<Rightarrow> direct_by_nid t target = None \<and> usable_hops target t = {}
       | Some (hdl, hop) \<Rightarrow> direct_by_nid t hop = Some hdl
           \<and> (if direct_by_nid t target \<noteq> None then hop = target else hop \<in> usable_hops target t)" for target
  proof (cases "fst (lookup_route target t)")
    case None
    then show ?thesis using lookup_route_none [OF t, of target] by simp
  next
    case (Some x)
    then obtain hdl hop where x: "fst (lookup_route target t) = Some (hdl, hop)" by (cases x) simp
    show ?thesis using x lookup_route_some [OF t x] by auto
  qed
  have 2: "case fst (lookup_route dest t) of None \<Rightarrow> True | Some (hdl, hop) \<Rightarrow> hop \<noteq> bad \<or> hop = dest"
    using 1 [of dest] n by (auto split: option.splits prod.splits if_splits)
  show ?thesis using table_invD(1) [OF t] usable_hops_lookup [OF t] 1 2 by blast
qed

text \<open>A table with a connection to node 1, which is a hop to node 2; node 3 is blacklisted as a hop.\<close>

definition sample_node :: "u32 \<Rightarrow> node_id" where
  "sample_node p = Some (Node_Data p (replicate 20 1))"

definition sample_table :: routing_table where
  "sample_table = snd (add_indirect id (sample_node 1) (sample_node 2)
     (add_direct 5 (sample_node 1) (blacklist (sample_node 3) (sample_node 2) (empty_table True))))"

lemma sample_table_eq:
  "sample_table = \<lparr>direct_by_hdl = [5 \<mapsto> sample_node 1], direct_by_nid = [sample_node 1 \<mapsto> 5],
     indirect = [sample_node 2 \<mapsto> [sample_node 1]], blacklisted = [sample_node 2 \<mapsto> {sample_node 3}],
     has_hook = True, hook_log = [New_Connection_Established (sample_node 1), New_Route_Added (sample_node 1) (sample_node 2)]\<rparr>"
  by (simp add: sample_table_def add_indirect_def add_direct_def blacklist_def empty_table_def notify_hook_def
      emplace_hop_def sample_node_def)

theorem routing_table_correct_witness:
  "fst (lookup_route (sample_node 2) sample_table) = Some (5, sample_node 1)
   \<and> usable_hops (sample_node 2) (snd (lookup_route (sample_node 2) sample_table)) = {sample_node 1}"
proof -
  let ?b = "blacklist (sample_node 3) (sample_node 2) (empty_table True)"
  have "direct_by_hdl ?b 5 = None" "direct_by_nid ?b (sample_node 1) = None"
    by (simp_all add: blacklist_result empty_table_def)
  then have 1: "table_step ?b (add_direct 5 (sample_node 1) ?b)"
    by (intro ts_add_direct) (simp_all add: invalid_connection_handle_def)
  have 2: "table_step (add_direct 5 (sample_node 1) ?b) sample_table"
    unfolding sample_table_def by (rule ts_add_indirect) simp
  have t: "table_step\<^sup>*\<^sup>* ?b sample_table" using 1 2 by (rule rtranclp.rtrancl_into_rtrancl [OF r_into_rtranclp])
  have "usable_hops (sample_node 2) (snd (lookup_route (sample_node 2) sample_table)) = usable_hops (sample_node 2) sample_table"
    by (rule conjunct1 [OF conjunct2 [OF conjunct2 [OF routing_table_correct [OF rtranclp.rtrancl_refl t]]]])
  then show ?thesis
    by (simp add: sample_table_eq usable_hops_def lookup_route_def lookup_direct_def sample_node_def invalid_connection_handle_def)
qed

text \<open>A callback that records the nodes it is called for.\<close>

definition report :: "node_id \<Rightarrow> node_id list routing_table_scheme \<Rightarrow> node_id list routing_table_scheme" where
  "report n s = routing_table.more_update (\<lambda>l. l @ [n]) s"

lemma report_fields:
  "direct_by_hdl (report n s) = direct_by_hdl s" "direct_by_nid (report n s) = direct_by_nid s"
  "indirect (report n s) = indirect s" "blacklisted (report n s) = blacklisted s"
  by (cases s; simp add: report_def)+

lemma keeps_report: "keeps_table (report n)"
  unfolding keeps_table_def report_fields by blast

interpretation rp: erase_callback report
  by unfold_locales (rule keeps_report)

lemma more_report [simp]:
  "routing_table.more (report n s) = routing_table.more s @ [n]"
  "routing_table.more (notify_hook e t) = routing_table.more t"
  by (simp_all add: report_def notify_hook_def)

text \<open>
  C36: Two operations do not report what their comments promise, namely every node that became
  unreachable. Losing the last connected hop of a destination reports the hop only: the destination
  is still counted as reachable although no route is left. Removing a destination reports its hops
  too, although they may still be connected.
\<close>

theorem erase_reports_wrong_nodes:
  assumes "table_inv s" and "indirect s d = Some [n]" and "direct_by_nid s d = None" and "direct_by_hdl s h = Some n"
  shows "routing_table.more (erase_direct report h s) = routing_table.more s @ [n]
    \<and> reachable d (erase_direct report h s)
    \<and> fst (lookup_route d (erase_direct report h s)) = None
    \<and> routing_table.more (snd (erase_node report d s)) = routing_table.more s @ [d, n]
    \<and> fst (lookup_route n (snd (erase_node report d s))) = Some (h, n)"
proof -
  have dn: "direct_by_nid s n = Some h" using assms(4) table_invD(1) [OF assms(1)] by simp
  have nd: "n \<noteq> d" using dn assms(3) by auto
  have "routing_table.more (erase_direct report h s) = routing_table.more s @ [n]"
    using assms(4) by (simp add: erase_direct_def Let_def)
  moreover have "reachable d (erase_direct report h s)"
    using assms(2) by (simp add: reachable_def rp.erase_direct_table)
  moreover have "fst (lookup_route d (erase_direct report h s)) = None"
    using assms(2,3,4) lookup_route_none [OF rp.table_inv_erase_direct [OF assms(1)], of d]
    by (simp add: usable_hops_def rp.erase_direct_table)
  moreover have "routing_table.more (snd (erase_node report d s)) = routing_table.more s @ [d, n]"
    using assms(2,3) keeps_report by (simp add: erase_node_def Let_def lookup_direct_def)
  moreover have "fst (lookup_route n (snd (erase_node report d s))) = Some (h, n)"
    using rp.erase_node_table(2) [OF assms(1), of d] nd dn table_invD(2) [OF assms(1), of n]
    by (simp add: lookup_route_def lookup_direct_def)
  ultimately show ?thesis by blast
qed

theorem erase_reports_wrong_nodes_witness:
  "\<exists>s :: node_id list routing_table_scheme. fst (lookup_route (sample_node 2) s) \<noteq> None
     \<and> routing_table.more (erase_direct report 5 s) = [sample_node 1]
     \<and> fst (lookup_route (sample_node 2) (erase_direct report 5 s)) = None"
proof -
  let ?s = "\<lparr>direct_by_hdl = [5 \<mapsto> sample_node 1], direct_by_nid = [sample_node 1 \<mapsto> 5],
     indirect = [sample_node 2 \<mapsto> [sample_node 1]], blacklisted = Map.empty, has_hook = True, hook_log = [], \<dots> = []\<rparr>"
  have "table_inv ?s" by (auto simp: table_inv_def invalid_connection_handle_def split: if_splits)
  from erase_reports_wrong_nodes [OF this, of "sample_node 2" "sample_node 1" 5]
  have "routing_table.more (erase_direct report 5 ?s) = [sample_node 1]" "fst (lookup_route (sample_node 2) (erase_direct report 5 ?s)) = None"
    by (simp_all add: sample_node_def)
  moreover have "fst (lookup_route (sample_node 2) ?s) \<noteq> None"
    by (simp add: lookup_route_def lookup_direct_def sample_node_def invalid_connection_handle_def)
  ultimately show ?thesis by blast
qed

end
