(* ===== verification/Actor_Registry.thy ===== *)
theory Actor_Registry
  imports Atoms
begin

text \<open>
  The registry of actors (actor\_registry.cpp): entries by actor id that learn about the exit of their
  actor through a functor attached to it, named actors, the count of running actors, and the
  key-value store the registry runs as the actor ConfigServ. The registry works on the world of
  actors; functors are numbers there, and the registry knows what its own functors do.
\<close>

section \<open>State\<close>

datatype reg_functor = Erase_Entry u32 | Unname u64

record registry =
  wld :: world
  entries :: "u32 \<rightharpoonup> actor_addr \<times> u32"
  named_entries :: "u64 \<rightharpoonup> actor_addr"
  functors :: "nat \<rightharpoonup> reg_functor"
  next_functor :: nat

definition new_registry :: "world \<Rightarrow> registry" where
  "new_registry w = \<lparr>wld = w\<lparr>running := 0\<rparr>, entries = Map.empty, named_entries = Map.empty,
     functors = Map.empty, next_functor = 0\<rparr>"

section \<open>Entries\<close>

definition get_entry :: "u32 \<Rightarrow> registry \<Rightarrow> actor_addr \<times> u32" where
  "get_entry key s = (case entries s key of Some e \<Rightarrow> e | None \<Rightarrow> (None, exit_unknown))"

definition get_actor :: "u32 \<Rightarrow> registry \<Rightarrow> actor_addr" where
  "get_actor key s = fst (get_entry key s)"

definition erase :: "u32 \<Rightarrow> u32 \<Rightarrow> registry \<Rightarrow> registry" where
  "erase key reason s = (case entries s key of None \<Rightarrow> s
     | Some _ \<Rightarrow> s\<lparr>entries := (entries s)(key \<mapsto> (None, reason))\<rparr>)"

text \<open>The name stays with the first actor that was stored under it: emplace does not replace.\<close>

definition emplace_named :: "u64 \<Rightarrow> actor_addr \<Rightarrow> registry \<Rightarrow> registry" where
  "emplace_named key v s = (if named_entries s key = None
     then s\<lparr>named_entries := (named_entries s)(key \<mapsto> v)\<rparr> else s)"

text \<open>Functors of the registry run while an actor exits, or at once when it has exited already.\<close>

definition run_functor :: "nat \<Rightarrow> u32 \<Rightarrow> registry \<Rightarrow> registry" where
  "run_functor k reason s = (case functors s k of
     None \<Rightarrow> s
   | Some (Erase_Entry key) \<Rightarrow> erase key reason s
   | Some (Unname key) \<Rightarrow> emplace_named key None s)"

definition run_event :: "event \<Rightarrow> registry \<Rightarrow> registry" where
  "run_event e s = (case e of Run_Functor k a reason \<Rightarrow> run_functor k reason s | _ \<Rightarrow> s)"

definition with_world :: "(world \<Rightarrow> world) \<Rightarrow> registry \<Rightarrow> registry" where
  "with_world f s = (let w = f (wld s) in
     fold run_event (drop (length (log (wld s))) (log w)) (s\<lparr>wld := w\<rparr>))"

definition attach_functor :: "reg_functor \<Rightarrow> nat \<Rightarrow> registry \<Rightarrow> registry" where
  "attach_functor f a s = (let k = next_functor s in
     with_world (attach std_atoms a (Some (Functor k)))
       (s\<lparr>functors := (functors s)(k \<mapsto> f), next_functor := Suc k\<rparr>))"

definition put :: "u32 \<Rightarrow> actor_addr \<Rightarrow> registry \<Rightarrow> registry" where
  "put key val s = (case val of None \<Rightarrow> s
     | Some a \<Rightarrow> if entries s key \<noteq> None then s
         else attach_functor (Erase_Entry key) a (s\<lparr>entries := (entries s)(key \<mapsto> (Some a, not_exited))\<rparr>))"

section \<open>Names and the count of running actors\<close>

definition get_named :: "u64 \<Rightarrow> registry \<Rightarrow> actor_addr" where
  "get_named key s = (case named_entries s key of Some a \<Rightarrow> a | None \<Rightarrow> None)"

definition put_named :: "u64 \<Rightarrow> actor_addr \<Rightarrow> registry \<Rightarrow> registry" where
  "put_named key val s = emplace_named key val
     (case val of None \<Rightarrow> s | Some a \<Rightarrow> attach_functor (Unname key) a s)"

definition inc_running :: "registry \<Rightarrow> registry" where
  "inc_running s = s\<lparr>wld := (wld s)\<lparr>running := running (wld s) + 1\<rparr>\<rparr>"

text \<open>Decreasing the count; the first component says whether waiting threads are notified.\<close>

definition dec_running :: "registry \<Rightarrow> bool \<times> registry" where
  "dec_running s = (let new_val = running (wld s) - 1 in
     (new_val \<le> 1, s\<lparr>wld := (wld s)\<lparr>running := new_val\<rparr>\<rparr>))"

text \<open>Termination of an actor as the registry sees it.\<close>

definition exit_actor :: "nat \<Rightarrow> u32 \<Rightarrow> registry \<Rightarrow> registry" where
  "exit_actor a reason s = with_world (cleanup std_atoms a reason) s"

section \<open>Running functors\<close>

definition run_attachable :: "u32 \<Rightarrow> attachable \<Rightarrow> registry \<Rightarrow> registry" where
  "run_attachable reason x s = (case x of Functor k \<Rightarrow> run_functor k reason s | _ \<Rightarrow> s)"

lemma run_event_notify:
  "fold run_event (notify at K a reason x) s = run_attachable reason x s"
  by (auto simp: notify_def run_event_def run_attachable_def Let_def
      split: attachable.splits option.splits actor_kind.splits)

lemma run_events_notify:
  "fold run_event (concat (map (notify at K a reason) xs)) s = fold (run_attachable reason) xs s"
  by (induction xs arbitrary: s) (simp_all add: run_event_notify)

lemma with_world_log: "log (f (wld s)) = log (wld s) @ es \<Longrightarrow> with_world f s = fold run_event es (s\<lparr>wld := f (wld s)\<rparr>)"
  by (simp add: with_world_def Let_def)

lemma exit_actor_result:
  "exit_actor a reason s = (if exited (wld s) a then s
     else fold (run_attachable reason) (attachables (actor_at (wld s) a)) (s\<lparr>wld := cleanup std_atoms a reason (wld s)\<rparr>))"
proof (cases "exited (wld s) a")
  case True
  then have "cleanup std_atoms a reason (wld s) = wld s" by (simp add: cleanup_def exited_def)
  then show ?thesis using True by (simp add: exit_actor_def with_world_def)
next
  case False
  then show ?thesis unfolding exit_actor_def
    using with_world_log [of "cleanup std_atoms a reason" s, OF log_cleanup] by (simp add: run_events_notify)
qed

lemma attach_functor_result:
  "attach_functor f a s = (let k = next_functor s; s1 = s\<lparr>functors := (functors s)(k \<mapsto> f), next_functor := Suc k\<rparr> in
     if exited (wld s) a
     then run_functor k (exit_rsn (actor_at (wld s) a))
       (s1\<lparr>wld := emit (Run_Functor k a (exit_rsn (actor_at (wld s) a))) (wld s)\<rparr>)
     else s1\<lparr>wld := attach_impl a (Functor k) (wld s)\<rparr>)"
  by (simp add: attach_functor_def with_world_def attach_def attach_impl_def exited_def run_event_def address_def Let_def)

lemma run_functor_frame [simp]:
  "wld (run_functor k r s) = wld s" "functors (run_functor k r s) = functors s"
  "next_functor (run_functor k r s) = next_functor s"
  by (simp_all add: run_functor_def erase_def emplace_named_def split: option.splits reg_functor.splits)

lemma run_attachable_frame [simp]:
  "wld (run_attachable r x s) = wld s" "functors (run_attachable r x s) = functors s"
  "next_functor (run_attachable r x s) = next_functor s"
  by (simp_all add: run_attachable_def split: attachable.splits)

lemma run_attachables_frame [simp]:
  "wld (fold (run_attachable r) xs s) = wld s" "functors (fold (run_attachable r) xs s) = functors s"
  "next_functor (fold (run_attachable r) xs s) = next_functor s"
  by (induction xs arbitrary: s) simp_all

text \<open>The keys the functors on an actor erase.\<close>

definition erased_by :: "(nat \<rightharpoonup> reg_functor) \<Rightarrow> attachable list \<Rightarrow> u32 \<Rightarrow> bool" where
  "erased_by F xs key \<longleftrightarrow> (\<exists>k. Functor k \<in> set xs \<and> F k = Some (Erase_Entry key))"

lemma erased_by_Cons:
  "erased_by F (Functor k # xs) key \<longleftrightarrow> F k = Some (Erase_Entry key) \<or> erased_by F xs key"
  by (auto simp: erased_by_def)

lemma entries_run_functor:
  "entries (run_functor k r s) key = (if functors s k = Some (Erase_Entry key) \<and> entries s key \<noteq> None
     then Some (None, r) else entries s key)"
  by (auto simp: run_functor_def erase_def emplace_named_def split: option.splits reg_functor.splits)

lemma entries_run_attachables:
  "entries (fold (run_attachable r) xs s) key = (if erased_by (functors s) xs key \<and> entries s key \<noteq> None
     then Some (None, r) else entries s key)"
proof (induction xs arbitrary: s)
  case (Cons x xs)
  show ?case using Cons [of "run_attachable r x s"]
    by (cases x) (auto simp: run_attachable_def entries_run_functor erased_by_def)
qed (simp add: erased_by_def)

section \<open>Entries and the life of actors\<close>

text \<open>
  Operations on the registry and on the actors around it; user code attaches observers but no
  functors of the registry.
\<close>

inductive reg_step :: "registry \<Rightarrow> registry \<Rightarrow> bool" where
  step_put: "reg_step s (put key val s)"
| step_put_named: "reg_step s (put_named name val s)"
| step_exit: "reason \<noteq> not_exited \<Longrightarrow> reg_step s (exit_actor a reason s)"
| step_attach: "(\<And>k. x \<noteq> Functor k) \<Longrightarrow> reg_step s (with_world (attach std_atoms a (Some x)) s)"
| step_inc: "reg_step s (inc_running s)"
| step_dec: "reg_step s (snd (dec_running s))"

inductive_cases reg_stepE: "reg_step s t"

text \<open>
  An entry with an actor belongs to a living actor that carries the functor for it, the functors for
  entries sit on the actors of their entries only, and entries without actor have an exit reason.
\<close>

definition reg_inv :: "registry \<Rightarrow> bool" where
  "reg_inv s \<longleftrightarrow>
     (\<forall>key a r. entries s key = Some (Some a, r) \<longrightarrow> r = not_exited \<and> \<not> exited (wld s) a
        \<and> erased_by (functors s) (attachables (actor_at (wld s) a)) key)
     \<and> (\<forall>key r. entries s key = Some (None, r) \<longrightarrow> r \<noteq> not_exited)
     \<and> (\<forall>key a. erased_by (functors s) (attachables (actor_at (wld s) a)) key \<longrightarrow> entries s key = Some (Some a, not_exited))
     \<and> (\<forall>k a. Functor k \<in> set (attachables (actor_at (wld s) a)) \<longrightarrow> k < next_functor s)
     \<and> (\<forall>k. functors s k \<noteq> None \<longrightarrow> k < next_functor s)"

lemma reg_invD:
  assumes "reg_inv s"
  shows "entries s key = Some (Some a, r) \<Longrightarrow> r = not_exited \<and> \<not> exited (wld s) a
      \<and> erased_by (functors s) (attachables (actor_at (wld s) a)) key"
    and "entries s key = Some (None, r) \<Longrightarrow> r \<noteq> not_exited"
    and "erased_by (functors s) (attachables (actor_at (wld s) a)) key \<Longrightarrow> entries s key = Some (Some a, not_exited)"
    and "Functor k \<in> set (attachables (actor_at (wld s) a)) \<Longrightarrow> k < next_functor s"
    and "functors s k \<noteq> None \<Longrightarrow> k < next_functor s"
  using assms unfolding reg_inv_def by blast+

text \<open>Changes of the world that keep life and functors of all actors keep the invariant.\<close>

lemma reg_inv_frame:
  assumes "reg_inv s" and "entries t = entries s" and "functors t = functors s" and "next_functor t = next_functor s"
    and "\<And>a. exited (wld t) a = exited (wld s) a"
    and "\<And>a k. Functor k \<in> set (attachables (actor_at (wld t) a)) \<longleftrightarrow> Functor k \<in> set (attachables (actor_at (wld s) a))"
  shows "reg_inv t"
  using assms(1) unfolding reg_inv_def erased_by_def assms(2-6) .

lemma erased_by_upd:
  assumes "reg_inv s"
  shows "erased_by ((functors s)(next_functor s \<mapsto> f)) (attachables (actor_at (wld s) a)) key
     = erased_by (functors s) (attachables (actor_at (wld s) a)) key"
proof -
  have "Functor k \<in> set (attachables (actor_at (wld s) a)) \<Longrightarrow> k \<noteq> next_functor s" for k
    using reg_invD(4) [OF assms] by blast
  then show ?thesis unfolding erased_by_def by (metis fun_upd_other)
qed

lemma reg_inv_attach_unname:
  assumes i: "reg_inv s"
  shows "reg_inv (attach_functor (Unname name) a s)"
proof -
  let ?k = "next_functor s"
  let ?F = "(functors s)(?k \<mapsto> Unname name)"
  have e: "erased_by ?F (Functor ?k # xs) key = erased_by ?F xs key" for xs key by (simp add: erased_by_Cons)
  have lt: "Functor j \<in> set (attachables (actor_at (wld s) b)) \<Longrightarrow> j < Suc ?k"
    "functors s j \<noteq> None \<Longrightarrow> j < Suc ?k" for j b
    using reg_invD(4,5) [OF i] less_SucI by blast+
  show ?thesis
  proof (cases "exited (wld s) a")
    case True
    let ?t = "attach_functor (Unname name) a s"
    have t: "entries ?t = entries s" "functors ?t = ?F" "next_functor ?t = Suc ?k" "actor_at (wld ?t) = actor_at (wld s)"
      using True by (auto simp: attach_functor_result Let_def entries_run_functor)
    show ?thesis using i lt erased_by_upd [OF i]
      unfolding reg_inv_def t exited_def by (simp add: fun_upd_def)
  next
    case False
    let ?t = "attach_functor (Unname name) a s"
    have t: "entries ?t = entries s" "functors ?t = ?F" "next_functor ?t = Suc ?k"
      "wld ?t = attach_impl a (Functor ?k) (wld s)"
      using False by (auto simp: attach_functor_result Let_def)
    have x: "exited (attach_impl a (Functor ?k) (wld s)) b = exited (wld s) b"
      "attachables (actor_at (attach_impl a (Functor ?k) (wld s)) b) =
        (if b = a then Functor ?k # attachables (actor_at (wld s) a) else attachables (actor_at (wld s) b))" for b
      by (simp_all add: exited_def attach_impl_def)
    have eb: "erased_by ?F (attachables (actor_at (attach_impl a (Functor ?k) (wld s)) b)) key
        = erased_by (functors s) (attachables (actor_at (wld s) b)) key" for b key
      using erased_by_upd [OF i] e by (simp add: x)
    show ?thesis using i lt unfolding reg_inv_def t x(1) eb by (auto simp: x(2))
  qed
qed

lemma reg_inv_emplace: "reg_inv s \<Longrightarrow> reg_inv (emplace_named name v s)"
  by (erule reg_inv_frame) (auto simp: emplace_named_def)

lemma reg_inv_put_named: "reg_inv s \<Longrightarrow> reg_inv (put_named name v s)"
  by (auto simp: put_named_def reg_inv_emplace reg_inv_attach_unname split: option.splits)

lemma put_result:
  assumes "entries s key = None"
  shows "let t = put key (Some a) s; k = next_functor s in
    functors t = (functors s)(k \<mapsto> Erase_Entry key) \<and> next_functor t = Suc k
    \<and> (if exited (wld s) a then entries t = (entries s)(key \<mapsto> (None, exit_rsn (actor_at (wld s) a))) \<and> actor_at (wld t) = actor_at (wld s)
       else entries t = (entries s)(key \<mapsto> (Some a, not_exited)) \<and> wld t = attach_impl a (Functor k) (wld s))"
  using assms by (auto simp: put_def attach_functor_result Let_def run_functor_def erase_def)

lemma reg_inv_put:
  assumes i: "reg_inv s"
  shows "reg_inv (put key val s)"
proof (cases "val = None \<or> entries s key \<noteq> None")
  case True
  then show ?thesis using i by (auto simp: put_def split: option.splits)
next
  case False
  then obtain a where a: "val = Some a" and n: "entries s key = None" by (cases val; cases "entries s key") auto
  let ?t = "put key (Some a) s" and ?k = "next_functor s"
  note t = put_result [OF n, of a, unfolded Let_def]
  have lt: "Functor j \<in> set (attachables (actor_at (wld s) b)) \<Longrightarrow> j < Suc ?k"
    "functors s j \<noteq> None \<Longrightarrow> j < Suc ?k" for j b
    using reg_invD(4,5) [OF i] less_SucI by blast+
  have nk: "\<not> erased_by (functors s) (attachables (actor_at (wld s) b)) key" for b using reg_invD(3) [OF i] n by fastforce
  have "reg_inv ?t"
  proof (cases "exited (wld s) a")
    case True
    then have e: "entries ?t = (entries s)(key \<mapsto> (None, exit_rsn (actor_at (wld s) a)))" "actor_at (wld ?t) = actor_at (wld s)"
      and f: "functors ?t = (functors s)(?k \<mapsto> Erase_Entry key)" "next_functor ?t = Suc ?k" using t by simp_all
    have x: "exited (wld ?t) b = exited (wld s) b" for b by (simp add: exited_def e(2))
    have en: "exit_rsn (actor_at (wld s) a) \<noteq> not_exited" using True by (simp add: exited_def)
    show ?thesis using i lt nk en unfolding reg_inv_def x e f erased_by_upd [OF i] by auto
  next
    case False
    then have e: "entries ?t = (entries s)(key \<mapsto> (Some a, not_exited))" "wld ?t = attach_impl a (Functor ?k) (wld s)"
      and f: "functors ?t = (functors s)(?k \<mapsto> Erase_Entry key)" "next_functor ?t = Suc ?k" using t by simp_all
    have x: "exited (wld ?t) b = exited (wld s) b"
      "attachables (actor_at (wld ?t) b) =
        (if b = a then Functor ?k # attachables (actor_at (wld s) a) else attachables (actor_at (wld s) b))" for b
      by (simp_all add: exited_def attach_impl_def e(2))
    show ?thesis using i lt nk False unfolding reg_inv_def x(1) e(1) f
      by (auto simp: x(2) erased_by_Cons erased_by_upd [OF i])
  qed
  then show ?thesis using a by simp
qed

lemma reg_inv_exit:
  assumes i: "reg_inv s" and r: "reason \<noteq> not_exited"
  shows "reg_inv (exit_actor a reason s)"
proof (cases "exited (wld s) a")
  case True
  then show ?thesis using i by (simp add: exit_actor_result)
next
  case False
  let ?t = "exit_actor a reason s" and ?xs = "attachables (actor_at (wld s) a)"
  have t: "functors ?t = functors s" "next_functor ?t = next_functor s" "wld ?t = cleanup std_atoms a reason (wld s)"
    using False by (simp_all add: exit_actor_result)
  have e: "entries ?t key = (if erased_by (functors s) ?xs key then Some (None, reason) else entries s key)" for key
    using False reg_invD(3) [OF i, of a key] by (auto simp: exit_actor_result entries_run_attachables)
  have x: "exited (wld ?t) b \<longleftrightarrow> b = a \<or> exited (wld s) b"
    "attachables (actor_at (wld ?t) b) = (if b = a then [] else attachables (actor_at (wld s) b))" for b
    using False r by (simp_all add: t(3) exited_def cleanup_actor_at)
  have n: "\<not> erased_by F [] key" for F key by (simp add: erased_by_def)
  have u: "erased_by (functors s) ?xs key \<Longrightarrow> erased_by (functors s) (attachables (actor_at (wld s) b)) key \<Longrightarrow> b = a" for key b
    using reg_invD(3) [OF i, of a key] reg_invD(3) [OF i, of b key] by simp
  show ?thesis unfolding reg_inv_def t(1,2) e x
    using i r n u reg_invD [OF i] by (auto split: if_splits)
qed

lemma reg_step_inv: "reg_step s t \<Longrightarrow> reg_inv s \<Longrightarrow> reg_inv t"
proof (induction rule: reg_step.induct)
  case (step_attach x s a)
  show ?case
  proof (cases "exited (wld s) a")
    case True
    have l: "log (attach std_atoms a (Some x) (wld s)) = log (wld s) @ notify std_atoms (kinds (wld s)) a (exit_rsn (actor_at (wld s) a)) x"
      using True by (simp add: attach_def exited_def log_actor_exited)
    have "with_world (attach std_atoms a (Some x)) s = s\<lparr>wld := attach std_atoms a (Some x) (wld s)\<rparr>"
      using with_world_log [of "attach std_atoms a (Some x)" s, OF l] step_attach.hyps
      by (simp add: run_event_notify run_attachable_def split: attachable.splits)
    then show ?thesis using step_attach.prems True
      by (elim reg_inv_frame) (simp_all add: exited_def attach_def)
  next
    case False
    then have "with_world (attach std_atoms a (Some x)) s = s\<lparr>wld := attach_impl a x (wld s)\<rparr>"
      by (simp add: with_world_def attach_def exited_def attach_impl_def)
    then show ?thesis using step_attach by (elim reg_inv_frame) (auto simp: exited_def attach_impl_def)
  qed
qed (auto simp: reg_inv_put reg_inv_put_named reg_inv_exit inc_running_def dec_running_def exited_def Let_def elim!: reg_inv_frame)

lemma reg_steps_inv: "reg_step\<^sup>*\<^sup>* s t \<Longrightarrow> reg_inv s \<Longrightarrow> reg_inv t"
  by (induction rule: rtranclp_induct) (auto intro: reg_step_inv)

text \<open>
  C12: The registry never hands out a terminated actor by id. In every state reachable by registering
  actors under ids and names, attaching observers and terminating actors, an entry with an actor
  belongs to a living actor and an entry without one holds an exit reason. Registering a living
  actor under a new id makes it available, registering a terminated one yields its exit reason at
  once, a known id keeps its first actor, and when an actor terminates exactly its entries turn into
  its exit reason.
\<close>

theorem registry_tracks_actors:
  assumes "reg_step\<^sup>*\<^sup>* (new_registry w) s" and "\<forall>a. attachables (actor_at w a) = []" and "reason \<noteq> not_exited"
  shows "(\<forall>key a r. get_entry key s = (Some a, r) \<longrightarrow> r = not_exited \<and> \<not> exited (wld s) a)
    \<and> (\<forall>key. snd (get_entry key s) = not_exited \<longrightarrow> get_actor key s \<noteq> None)
    \<and> (\<forall>key a. get_entry key (put key (Some a) s) =
         (if entries s key \<noteq> None then get_entry key s
          else if exited (wld s) a then (None, exit_rsn (actor_at (wld s) a)) else (Some a, not_exited)))
    \<and> (\<forall>key a. \<not> exited (wld s) a \<longrightarrow> get_entry key (exit_actor a reason s) =
         (if get_actor key s = Some a then (None, reason) else get_entry key s))"
proof -
  have "reg_inv (new_registry w)" using assms(2) by (simp add: reg_inv_def new_registry_def erased_by_def)
  then have i: "reg_inv s" using reg_steps_inv [OF assms(1)] by simp
  have 1: "r = not_exited \<and> \<not> exited (wld s) a" if "get_entry key s = (Some a, r)" for key a r
    using that reg_invD(1) [OF i] by (auto simp: get_entry_def split: option.splits)
  have 2: "get_actor key s \<noteq> None" if "snd (get_entry key s) = not_exited" for key
  proof (cases "entries s key")
    case None
    then show ?thesis using that by (simp add: get_entry_def exit_reason_defs)
  next
    case (Some e)
    then show ?thesis using that reg_invD(2) [OF i, of key not_exited] by (cases e) (auto simp: get_entry_def get_actor_def)
  qed
  have 3: "get_entry key (put key (Some a) s) =
         (if entries s key \<noteq> None then get_entry key s
          else if exited (wld s) a then (None, exit_rsn (actor_at (wld s) a)) else (Some a, not_exited))" for key a
  proof (cases "entries s key")
    case None
    then show ?thesis using put_result [OF None, of a] by (auto simp: get_entry_def Let_def split: if_splits)
  qed (simp add: put_def)
  have 4: "get_entry key (exit_actor a reason s) =
         (if get_actor key s = Some a then (None, reason) else get_entry key s)" if a: "\<not> exited (wld s) a" for key a
  proof -
    have "erased_by (functors s) (attachables (actor_at (wld s) a)) key \<longleftrightarrow> get_actor key s = Some a"
      using reg_invD(1) [OF i, of key a] reg_invD(3) [OF i, of a key]
      by (cases "entries s key") (auto simp: get_actor_def get_entry_def prod_eq_iff)
    then show ?thesis using a
      by (auto simp: exit_actor_result entries_run_attachables get_entry_def get_actor_def split: option.splits)
  qed
  show ?thesis using 1 2 3 4 by blast
qed

theorem registry_tracks_actors_witness:
  "get_entry 7 (put 7 (Some 1) (new_registry sample_world)) = (Some 1, not_exited)
   \<and> get_entry 7 (exit_actor 1 user_shutdown (put 7 (Some 1) (new_registry sample_world))) = (None, user_shutdown)"
proof -
  have w: "\<forall>a. attachables (actor_at sample_world a) = []" by (simp add: sample_world_def new_actor_def)
  have u: "user_shutdown \<noteq> not_exited" by (simp add: exit_reason_defs)
  have x: "\<not> exited (wld (new_registry sample_world)) 1" using sample_not_exited(1) [of 1] by (simp add: new_registry_def exited_def)
  have e: "entries (new_registry sample_world) 7 = None" by (simp add: new_registry_def)
  have "(\<forall>key a. get_entry key (put key (Some a) (new_registry sample_world)) =
         (if entries (new_registry sample_world) key \<noteq> None then get_entry key (new_registry sample_world)
          else if exited (wld (new_registry sample_world)) a then (None, exit_rsn (actor_at (wld (new_registry sample_world)) a)) else (Some a, not_exited)))"
    using registry_tracks_actors [OF rtranclp.rtrancl_refl w u] by blast
  then have p: "get_entry 7 (put 7 (Some 1) (new_registry sample_world)) = (Some 1, not_exited)" using x e by simp
  let ?s = "put 7 (Some 1) (new_registry sample_world)"
  have "reg_step\<^sup>*\<^sup>* (new_registry sample_world) ?s" using step_put by blast
  from registry_tracks_actors [OF this w u]
  have "(\<forall>key a r. get_entry key ?s = (Some a, r) \<longrightarrow> r = not_exited \<and> \<not> exited (wld ?s) a)
    \<and> (\<forall>key a. \<not> exited (wld ?s) a \<longrightarrow> get_entry key (exit_actor a user_shutdown ?s) =
         (if get_actor key ?s = Some a then (None, user_shutdown) else get_entry key ?s))" by blast
  then show ?thesis using p by (simp add: get_actor_def)
qed

text \<open>
  Names are not released: put_named stores with emplace, so that the functor which should
  remove the name of a terminated actor has no effect. After the exit of a named actor the name
  still yields the terminated actor, and no later actor can take it over.
\<close>

lemma named_entries_stale:
  assumes "named_entries s name = None" and "\<not> exited (wld s) a" and "reason \<noteq> not_exited"
  shows "get_named name (exit_actor a reason (put_named name (Some a) s)) = Some a
    \<and> exited (wld (exit_actor a reason (put_named name (Some a) s))) a
    \<and> get_named name (put_named name v (exit_actor a reason (put_named name (Some a) s))) = Some a"
proof -
  have keep: "named_entries (run_functor k r t) n = Some x" if "named_entries t n = Some x" for k r t n x
    using that by (auto simp: run_functor_def erase_def emplace_named_def split: option.splits reg_functor.splits)
  then have fk: "named_entries (fold (run_attachable r) xs t) n = Some x" if "named_entries t n = Some x" for r xs t n x
    using that by (induction xs arbitrary: t) (auto simp: run_attachable_def split: attachable.splits)
  have att: "named_entries (attach_functor f b t) n = named_entries t n" if "\<not> exited (wld t) b" for f b t n
    using that by (simp add: attach_functor_result Let_def)
  have att': "named_entries (attach_functor f b t) n = Some x" if "named_entries t n = Some x" for f b t n x
    using that keep by (simp add: attach_functor_result Let_def)
  let ?p = "put_named name (Some a) s"
  let ?t = "exit_actor a reason ?p"
  have p: "named_entries ?p name = Some (Some a)" "\<not> exited (wld ?p) a"
    using assms(1,2) att [OF assms(2)] by (simp_all add: put_named_def emplace_named_def attach_functor_result Let_def exited_def attach_impl_def)
  have t: "named_entries ?t name = Some (Some a)" using fk p by (simp add: exit_actor_result)
  have x: "exited (wld ?t) a" using p(2) assms(3) by (simp add: exit_actor_result exited_def cleanup_actor_at)
  have "named_entries (put_named name v ?t) name = Some (Some a)"
    using t att' by (auto simp: put_named_def emplace_named_def split: option.splits)
  then show ?thesis using t x by (simp add: get_named_def)
qed

lemma named_entries_stale_witness:
  "get_named 5 (exit_actor 1 exit_normal (put_named 5 (Some 1) (new_registry sample_world))) = Some 1"
proof -
  have "named_entries (new_registry sample_world) 5 = None" "\<not> exited (wld (new_registry sample_world)) 1" "exit_normal \<noteq> not_exited"
    using sample_not_exited(1) [of 1] by (simp_all add: new_registry_def exited_def exit_reason_defs)
  from named_entries_stale [OF this] show ?thesis by blast
qed

end
