(* ===== verification/Actor_Namespace.thy ===== *)
theory Actor_Namespace
  imports Basp_Routing Actor_Registry
begin

text \<open>
  Addresses of actors on the wire (actor\_namespace.cpp): proxies for remote actors by node and actor
  id, writing and reading of addresses. The record of a node extends the routing table, because the
  backend that creates proxies, the BASP broker, uses the table. Proxies are actors of the world; the
  namespace holds anchors, which are weak pointers: an anchor whose proxy was deleted is in gone.
  Actors are numbered by next\_actor in the order of their creation. The backend is a parameter with its laws in a locale; it is interpreted in Basp\_Broker.
\<close>

section \<open>State\<close>

text \<open>
  Inner maps are std::map and thus sorted by the actor id; an anchor may be null (None). The order of
  the outer list, an unordered\_map, is seen by clear and get\_all only.
\<close>

text \<open>
  The announced types (the singleton uniform\_type\_info\_map) are part of the state as well: builtin
  types, types of the user, and tuples with their element types, where None is the null pointer.
\<close>

datatype uti_ref = Builtin type_id | User_Type nat | Meta_Message "uti_ref option list"

record nspace = routing_table +
  ns_reg :: registry
  ns_node :: node_id
  actor_node :: "nat \<Rightarrow> node_id"
  proxies :: "(node_id \<times> (u32 \<times> actor_addr) list) list"
  gone :: "nat set"
  next_actor :: nat
  user_types :: "(string \<times> uti_ref) list"

datatype io_error = Read_Failed read_error | Null_Pointer | Runtime_Error string | Type_Confusion | Out_Of_Bounds | Out_Of_Fuel

abbreviation ns_wld :: "'a nspace_scheme \<Rightarrow> world" where
  "ns_wld s \<equiv> wld (ns_reg s)"

definition actor_id_of :: "'a nspace_scheme \<Rightarrow> nat \<Rightarrow> u32" where
  "actor_id_of s a = id_no (actor_at (ns_wld s) a)"

definition is_remote :: "'a nspace_scheme \<Rightarrow> actor_addr \<Rightarrow> bool" where
  "is_remote s addr = (case addr of None \<Rightarrow> False | Some a \<Rightarrow> \<not> node_eq (actor_node s a) (ns_node s))"

section \<open>Anchors and entries\<close>

definition expired :: "'a nspace_scheme \<Rightarrow> nat \<Rightarrow> bool" where
  "expired s p \<longleftrightarrow> p \<in> gone s"

definition anchor_get :: "'a nspace_scheme \<Rightarrow> nat \<Rightarrow> actor_addr" where
  "anchor_get s p = (if expired s p then None else Some p)"

definition entry_reset :: "u32 \<Rightarrow> actor_addr \<Rightarrow> 'a nspace_scheme \<Rightarrow> 'a nspace_scheme" where
  "entry_reset rsn anchor s = (case anchor of None \<Rightarrow> s
     | Some p \<Rightarrow> case anchor_get s p of None \<Rightarrow> s
       | Some q \<Rightarrow> s\<lparr>ns_reg := with_world (kill_proxy std_atoms q rsn) (ns_reg s)\<rparr>)"

text \<open>Sorted association lists.\<close>

fun insert_key :: "u32 \<Rightarrow> 'v \<Rightarrow> (u32 \<times> 'v) list \<Rightarrow> (u32 \<times> 'v) list" where
  "insert_key k v [] = [(k, v)]"
| "insert_key k v ((j, w) # m) = (if k < j then (k, v) # (j, w) # m
     else if k = j then (k, v) # m else (j, w) # insert_key k v m)"

definition delete_key :: "'k \<Rightarrow> ('k \<times> 'v) list \<Rightarrow> ('k \<times> 'v) list" where
  "delete_key k m = filter (\<lambda>e. fst e \<noteq> k) m"

definition submap :: "node_id \<Rightarrow> 'a nspace_scheme \<Rightarrow> (u32 \<times> actor_addr) list" where
  "submap n s = (case map_of (proxies s) n of None \<Rightarrow> [] | Some m \<Rightarrow> m)"

text \<open>Storing a submap; an absent one is created at the front.\<close>

definition set_submap :: "node_id \<Rightarrow> (u32 \<times> actor_addr) list \<Rightarrow> 'a nspace_scheme \<Rightarrow> 'a nspace_scheme" where
  "set_submap n m s = s\<lparr>proxies := (if n \<in> fst ` set (proxies s)
     then map (\<lambda>(k, v). (k, if k = n then m else v)) (proxies s) else (n, m) # proxies s)\<rparr>"

section \<open>Proxies\<close>

definition count_proxies :: "node_id \<Rightarrow> 'a nspace_scheme \<Rightarrow> nat" where
  "count_proxies n s = (case map_of (proxies s) n of None \<Rightarrow> 0 | Some m \<Rightarrow> length m)"

definition live_proxies :: "'a nspace_scheme \<Rightarrow> (u32 \<times> actor_addr) list \<Rightarrow> nat list" where
  "live_proxies s m = List.map_filter (\<lambda>e. Option.bind (snd e) (anchor_get s)) m"

definition get_all :: "'a nspace_scheme \<Rightarrow> nat list" where
  "get_all s = concat (map (\<lambda>e. live_proxies s (snd e)) (proxies s))"

definition get_all_of :: "node_id \<Rightarrow> 'a nspace_scheme \<Rightarrow> nat list" where
  "get_all_of n s = (case map_of (proxies s) n of None \<Rightarrow> [] | Some m \<Rightarrow> live_proxies s m)"

text \<open>Looking up a proxy creates the submap and dereferences the anchor without a check.\<close>

definition get_proxy :: "node_id \<Rightarrow> u32 \<Rightarrow> 'a nspace_scheme \<Rightarrow> io_error + (actor_addr \<times> 'a nspace_scheme)" where
  "get_proxy n aid s = (let m = submap n s; s1 = set_submap n m s in
     case map_of m aid of None \<Rightarrow> Inr (None, s1)
     | Some None \<Rightarrow> Inl Null_Pointer
     | Some (Some p) \<Rightarrow> (case anchor_get s1 p of
         None \<Rightarrow> Inr (None, set_submap n (delete_key aid m) s1)
       | Some q \<Rightarrow> Inr (Some q, s1)))"

definition get_or_put ::
  "(node_id \<Rightarrow> u32 \<Rightarrow> 'a nspace_scheme \<Rightarrow> actor_addr \<times> 'a nspace_scheme) \<Rightarrow> node_id \<Rightarrow> u32
     \<Rightarrow> 'a nspace_scheme \<Rightarrow> actor_addr \<times> 'a nspace_scheme" where
  "get_or_put make_proxy n aid s = (let m = submap n s;
     m1 = (if aid \<in> fst ` set m then m else insert_key aid None m);
     s1 = set_submap n m1 s in
     case Option.bind (Option.bind (map_of m1 aid) id) (anchor_get s1) of
       Some p \<Rightarrow> (Some p, s1)
     | None \<Rightarrow> (case make_proxy n aid s1 of
         (None, s2) \<Rightarrow> (None, s2)
       | (Some p, s2) \<Rightarrow> (Some p, set_submap n (insert_key aid (Some p) (submap n s2)) s2)))"

definition ns_empty :: "'a nspace_scheme \<Rightarrow> bool" where
  "ns_empty s \<longleftrightarrow> proxies s = []"

text \<open>The destructor of an entry resets it.\<close>

definition destroy_submap :: "(u32 \<times> actor_addr) list \<Rightarrow> 'a nspace_scheme \<Rightarrow> 'a nspace_scheme" where
  "destroy_submap m s = fold (\<lambda>e. entry_reset remote_link_unreachable (snd e)) m s"

definition erase_proxies :: "node_id \<Rightarrow> 'a nspace_scheme \<Rightarrow> 'a nspace_scheme" where
  "erase_proxies n s = destroy_submap (submap n s) (s\<lparr>proxies := delete_key n (proxies s)\<rparr>)"

definition erase_proxy :: "node_id \<Rightarrow> u32 \<Rightarrow> u32 \<Rightarrow> 'a nspace_scheme \<Rightarrow> 'a nspace_scheme" where
  "erase_proxy n aid rsn s = (case map_of (proxies s) n of None \<Rightarrow> s
     | Some m \<Rightarrow> (case map_of m aid of None \<Rightarrow> s
       | Some anchor \<Rightarrow> let s1 = entry_reset rsn anchor s; m1 = delete_key aid m in
           if m1 = [] then s1\<lparr>proxies := delete_key n (proxies s1)\<rparr> else set_submap n m1 s1))"

definition clear_proxies :: "'a nspace_scheme \<Rightarrow> 'a nspace_scheme" where
  "clear_proxies s = fold (\<lambda>e. destroy_submap (snd e)) (proxies s) (s\<lparr>proxies := []\<rparr>)"

section \<open>Addresses on the wire\<close>

definition ns_write :: "actor_addr \<Rightarrow> 'a nspace_scheme \<Rightarrow> u8 list \<times> 'a nspace_scheme" where
  "ns_write addr s = (case addr of
     None \<Rightarrow> (int_bytes (0 :: u32) @ replicate host_id_size 0 @ int_bytes (0 :: u32), s)
   | Some a \<Rightarrow> (int_bytes (actor_id_of s a) @ host_id (actor_node s a) @ int_bytes (process_id (actor_node s a)),
       if is_remote s addr then s else s\<lparr>ns_reg := put (actor_id_of s a) addr (ns_reg s)\<rparr>))"

definition read_addr_fields :: "(u32 \<times> u8 list \<times> u32) byte_reader" where
  "read_addr_fields = bind_reader read_int (\<lambda>aid. bind_reader (read_raw host_id_size) (\<lambda>hid.
     map_reader (\<lambda>p. (aid, hid, p)) read_int))"

definition ns_read ::
  "(node_id \<Rightarrow> u32 \<Rightarrow> 'a nspace_scheme \<Rightarrow> actor_addr \<times> 'a nspace_scheme) \<Rightarrow> u8 list
     \<Rightarrow> 'a nspace_scheme \<Rightarrow> io_error + (actor_addr \<times> u8 list \<times> 'a nspace_scheme)" where
  "ns_read make_proxy bs s = (case read_addr_fields bs of
     Inl e \<Rightarrow> Inl (Read_Failed e)
   | Inr ((aid, hid, p), r) \<Rightarrow>
       if aid = 0 \<and> p = 0 then Inr (None, r, s)
       else if p = process_id (ns_node s) \<and> hid = host_id (ns_node s) then Inr (get_actor aid (ns_reg s), r, s)
       else (case get_or_put make_proxy (Some (Node_Data p hid)) aid s of
           (None, s1) \<Rightarrow> Inl Null_Pointer
         | (Some a, s1) \<Rightarrow> Inr (Some a, r, s1)))"

section \<open>Association lists\<close>

lemma set_insert_key: "e \<in> set (insert_key k v m) \<Longrightarrow> e = (k, v) \<or> e \<in> set m"
  by (induction k v m rule: insert_key.induct) (auto split: if_splits)

lemma insert_key_sorted:
  "sorted_wrt (<) (map fst m) \<Longrightarrow> sorted_wrt (<) (map fst (insert_key k v m))"
proof (induction k v m rule: insert_key.induct)
  case (2 k v j w m)
  have "\<forall>e\<in>set (insert_key k v m). j < fst e" if "j < k"
    using that 2(2) by (auto dest!: set_insert_key)
  moreover have "\<forall>e\<in>set m. k < fst e" if "k < j" using that 2(2) by (auto dest: order.strict_trans)
  ultimately show ?case using 2 by (cases k j rule: linorder_cases) simp_all
qed simp

lemma map_of_insert_key:
  "sorted_wrt (<) (map fst m) \<Longrightarrow> map_of (insert_key k v m) j = (if j = k then Some v else map_of m j)"
proof (induction k v m rule: insert_key.induct)
  case (2 k v i w m)
  have "map_of m k = None" if "k < i"
    using 2(2) that by (auto simp: map_of_eq_None_iff dest: order.strict_trans)
  then show ?case using 2 by auto
qed simp

lemma delete_key_sorted: "sorted_wrt R (map fst m) \<Longrightarrow> sorted_wrt R (map fst (delete_key k m))"
  by (induction m) (auto simp: delete_key_def)

lemma map_of_delete_key: "map_of (delete_key k m) j = (if j = k then None else map_of m j)"
  by (induction m) (auto simp: delete_key_def)

lemma distinct_delete_key: "distinct (map fst m) \<Longrightarrow> distinct (map fst (delete_key k m))"
  by (induction m) (auto simp: delete_key_def)

text \<open>The anchor stored for an actor of a node.\<close>

definition anchor_of :: "'a nspace_scheme \<Rightarrow> node_id \<Rightarrow> u32 \<Rightarrow> actor_addr option" where
  "anchor_of s n i = Option.bind (map_of (proxies s) n) (\<lambda>m. map_of m i)"

lemma anchor_of_submap: "anchor_of s n i = map_of (submap n s) i"
  by (simp add: anchor_of_def submap_def split: option.splits)

lemma map_of_replace:
  "map_of (map (\<lambda>(j, v). (j, if j = n then m else v)) ps) k = (if k = n \<and> n \<in> fst ` set ps then Some m else map_of ps k)"
proof (induction ps)
  case (Cons e ps)
  then show ?case by (cases e; cases "k = n"; cases "fst e = k") simp_all
qed simp

lemma map_of_set_submap: "map_of (proxies (set_submap n m s)) k = (if k = n then Some m else map_of (proxies s) k)"
proof (cases "n \<in> fst ` set (proxies s)")
  case True
  then have "proxies (set_submap n m s) = map (\<lambda>(j, v). (j, if j = n then m else v)) (proxies s)" by (simp add: set_submap_def)
  then show ?thesis using True by (simp only: map_of_replace) simp
next
  case False
  then show ?thesis by (simp add: set_submap_def)
qed

lemma submap_set_submap [simp]: "submap k (set_submap n m s) = (if k = n then m else submap k s)"
  by (simp add: submap_def map_of_set_submap)

lemma anchor_of_set_submap: "anchor_of (set_submap n m s) k i = (if k = n then map_of m i else anchor_of s k i)"
  by (simp add: anchor_of_def map_of_set_submap)

lemma distinct_set_submap:
  "distinct (map fst (proxies (set_submap n m s))) = distinct (map fst (proxies s))"
proof -
  have "fst \<circ> (\<lambda>(k, v). (k, if k = n then m else v)) = fst" by auto
  then show ?thesis by (simp add: set_submap_def)
qed

lemma set_submap_frame [simp]:
  "ns_reg (set_submap n m s) = ns_reg s" "ns_node (set_submap n m s) = ns_node s"
  "actor_node (set_submap n m s) = actor_node s" "gone (set_submap n m s) = gone s"
  "next_actor (set_submap n m s) = next_actor s" "anchor_get (set_submap n m s) = anchor_get s"
  "actor_id_of (set_submap n m s) = actor_id_of s"
  by (simp_all add: set_submap_def anchor_get_def expired_def actor_id_of_def fun_eq_iff)

lemma set_submap_same: "map_of (proxies s) n = Some m \<Longrightarrow> distinct (map fst (proxies s)) \<Longrightarrow> set_submap n m s = s"
proof -
  assume m: "map_of (proxies s) n = Some m" and d: "distinct (map fst (proxies s))"
  then have "n \<in> fst ` set (proxies s)" by (metis map_of_eq_None_iff option.distinct(1))
  moreover have "x = m" if "(n, x) \<in> set (proxies s)" for x using map_of_is_SomeI [OF d that] m by simp
  then have "map (\<lambda>(k, v). (k, if k = n then m else v)) (proxies s) = proxies s" by (intro map_idI) auto
  ultimately show ?thesis by (simp add: set_submap_def)
qed

section \<open>Identities of actors\<close>

lemma wld_with_world [simp]: "wld (with_world f s) = f (wld s)"
proof -
  have "wld (fold run_event es t) = wld t" for es t
    by (induction es arbitrary: t) (simp_all add: run_event_def split: event.splits)
  then show ?thesis by (simp add: with_world_def Let_def)
qed

lemma actor_at_emit [simp]: "actor_at (emit e w) = actor_at w"
  by (simp add: emit_def)

lemma id_no_set_actor: "(\<And>x. id_no (f x) = id_no x) \<Longrightarrow> id_no (actor_at (set_actor a f w) b) = id_no (actor_at w b)"
  by (simp add: set_actor_def)

lemma id_no_kill_proxy [simp]: "id_no (actor_at (kill_proxy pa a r w) b) = id_no (actor_at w b)"
  by (auto simp: kill_proxy_def cleanup_actor_at set_manager_def set_actor_def)

lemma id_no_put [simp]: "id_no (actor_at (wld (put key v s)) b) = id_no (actor_at (wld s) b)"
  by (auto simp: put_def attach_functor_def attach_def attach_impl_def set_actor_def Let_def split: option.splits)

section \<open>Invariant\<close>

text \<open>Every anchor belongs to a proxy for exactly its node and actor id, created before.\<close>

definition ns_inv :: "'a nspace_scheme \<Rightarrow> bool" where
  "ns_inv s \<longleftrightarrow> distinct (map fst (proxies s))
     \<and> (\<forall>n. sorted_wrt (<) (map fst (submap n s)))
     \<and> (\<forall>n i p. anchor_of s n i = Some (Some p) \<longrightarrow> actor_node s p = n \<and> actor_id_of s p = i \<and> p < next_actor s)
     \<and> (\<forall>p\<in>gone s. p < next_actor s)"

lemma ns_invD:
  assumes "ns_inv s"
  shows "distinct (map fst (proxies s))" "sorted_wrt (<) (map fst (submap n s))"
    and "anchor_of s n i = Some (Some p) \<Longrightarrow> actor_node s p = n \<and> actor_id_of s p = i \<and> p < next_actor s"
    and "p \<in> gone s \<Longrightarrow> p < next_actor s"
  using assms unfolding ns_inv_def by blast+

text \<open>Changes that keep identities and store no new proxies keep the invariant.\<close>

lemma ns_inv_shrink:
  assumes "ns_inv s" and "distinct (map fst (proxies t))" and "\<And>n. sorted_wrt (<) (map fst (submap n t))"
    and "\<And>n i p. anchor_of t n i = Some (Some p) \<Longrightarrow> anchor_of s n i = Some (Some p)"
    and "actor_node t = actor_node s" and "\<And>a. actor_id_of t a = actor_id_of s a"
    and "gone t = gone s" and "next_actor t = next_actor s"
  shows "ns_inv t"
  using assms(2-) ns_invD [OF assms(1)] unfolding ns_inv_def by metis

lemma entry_reset_frame [simp]:
  "proxies (entry_reset r x s) = proxies s" "ns_node (entry_reset r x s) = ns_node s"
  "actor_node (entry_reset r x s) = actor_node s" "gone (entry_reset r x s) = gone s"
  "next_actor (entry_reset r x s) = next_actor s" "actor_id_of (entry_reset r x s) a = actor_id_of s a"
  "anchor_get (entry_reset r x s) p = anchor_get s p"
  "direct_by_hdl (entry_reset r x s) = direct_by_hdl s" "direct_by_nid (entry_reset r x s) = direct_by_nid s"
  "indirect (entry_reset r x s) = indirect s" "blacklisted (entry_reset r x s) = blacklisted s"
  by (auto simp: entry_reset_def actor_id_of_def anchor_get_def expired_def split: option.splits)

lemma destroy_submap_frame [simp]:
  "proxies (destroy_submap m s) = proxies s" "ns_node (destroy_submap m s) = ns_node s"
  "actor_node (destroy_submap m s) = actor_node s" "gone (destroy_submap m s) = gone s"
  "next_actor (destroy_submap m s) = next_actor s" "actor_id_of (destroy_submap m s) a = actor_id_of s a"
  "direct_by_hdl (destroy_submap m s) = direct_by_hdl s" "direct_by_nid (destroy_submap m s) = direct_by_nid s"
  "indirect (destroy_submap m s) = indirect s" "blacklisted (destroy_submap m s) = blacklisted s"
  unfolding destroy_submap_def by (induction m arbitrary: s) simp_all

lemma anchor_of_cong: "proxies s = proxies t \<Longrightarrow> anchor_of s n i = anchor_of t n i"
  by (simp add: anchor_of_def)

lemma submap_cong: "proxies s = proxies t \<Longrightarrow> submap n s = submap n t"
  by (simp add: submap_def)

lemma erase_proxies_result:
  "proxies (erase_proxies n s) = delete_key n (proxies s)"
  "anchor_of (erase_proxies n s) k i = (if k = n then None else anchor_of s k i)"
  by (simp_all add: erase_proxies_def anchor_of_def map_of_delete_key)

lemma ns_inv_erase_proxies:
  assumes "ns_inv s"
  shows "ns_inv (erase_proxies n s)"
proof (rule ns_inv_shrink [OF assms])
  fix k
  have "submap k (erase_proxies n s) = (if k = n then [] else submap k s)"
    by (simp add: submap_def erase_proxies_result map_of_delete_key)
  then show "sorted_wrt (<) (map fst (submap k (erase_proxies n s)))" using ns_invD(2) [OF assms] by simp
qed (use ns_invD(1) [OF assms] in \<open>auto simp: erase_proxies_result distinct_delete_key split: if_splits\<close>,
     auto simp: erase_proxies_def actor_id_of_def [of "s\<lparr>proxies := _\<rparr>"] actor_id_of_def [of s])

lemma erase_proxy_anchor:
  "anchor_of (erase_proxy n i r s) k j = (if k = n \<and> j = i then None else anchor_of s k j)"
proof (cases "map_of (proxies s) n")
  case None
  then show ?thesis by (auto simp: erase_proxy_def anchor_of_def)
next
  case (Some m)
  show ?thesis
  proof (cases "map_of m i")
    case None
    then show ?thesis using Some by (auto simp: erase_proxy_def anchor_of_def)
  next
    case a: (Some x)
    have "anchor_of s n j = map_of m j" using Some by (simp add: anchor_of_def)
    moreover have "map_of m j = None" if "delete_key i m = []" "j \<noteq> i" using that map_of_delete_key [of i m j] by simp
    moreover have "anchor_of (s\<lparr>ns_reg := q\<rparr>) = anchor_of s" for q by (simp add: anchor_of_def fun_eq_iff)
    moreover have "anchor_of (entry_reset r x s) k j = anchor_of s k j" by (rule anchor_of_cong) simp
    ultimately show ?thesis using Some a
      by (auto simp: erase_proxy_def Let_def anchor_of_set_submap map_of_delete_key)
         (auto simp: anchor_of_def map_of_delete_key)
  qed
qed

lemma proxies_update_frame [simp]:
  "actor_id_of (s\<lparr>proxies := x\<rparr>) = actor_id_of s" "anchor_get (s\<lparr>proxies := x\<rparr>) = anchor_get s"
  by (simp_all add: actor_id_of_def anchor_get_def expired_def fun_eq_iff)

lemma erase_proxy_frame:
  "actor_node (erase_proxy n i r s) = actor_node s" "actor_id_of (erase_proxy n i r s) a = actor_id_of s a"
  "gone (erase_proxy n i r s) = gone s" "next_actor (erase_proxy n i r s) = next_actor s"
  "ns_node (erase_proxy n i r s) = ns_node s"
  by (simp_all add: erase_proxy_def Let_def split: option.splits)

lemma ns_inv_erase_proxy:
  assumes "ns_inv s"
  shows "ns_inv (erase_proxy n i r s)"
proof (rule ns_inv_shrink [OF assms])
  show "distinct (map fst (proxies (erase_proxy n i r s)))"
    using ns_invD(1) [OF assms]
    by (simp add: erase_proxy_def Let_def distinct_delete_key distinct_set_submap split: option.splits)
  fix k
  have s: "sorted_wrt (<) (map fst m)" if "map_of (proxies s) n = Some m" for m
    using ns_invD(2) [OF assms, of n] that by (simp add: submap_def)
  have u: "submap k (s'\<lparr>proxies := delete_key n (proxies s)\<rparr>) = (if k = n then [] else submap k s)" for s' :: "'a nspace_scheme"
    by (simp add: submap_def map_of_delete_key)
  have "submap k (entry_reset r x s) = submap k s" for x by (rule submap_cong) simp
  then show "sorted_wrt (<) (map fst (submap k (erase_proxy n i r s)))"
    using ns_invD(2) [OF assms, of k] s delete_key_sorted
    by (auto simp: erase_proxy_def Let_def u split: option.splits)
qed (simp_all add: erase_proxy_anchor erase_proxy_frame split: if_splits)

section \<open>Addresses on the wire\<close>

lemma read_addr_fields_bytes:
  "length h = host_id_size \<Longrightarrow> read_addr_fields (int_bytes (i :: u32) @ h @ int_bytes (p :: u32) @ r) = Inr ((i, h, p), r)"
  using read_raw_append [of h "int_bytes p @ r"] by (simp add: read_addr_fields_def bind_reader_def map_reader_def)

text \<open>A local actor as its node writes it, and what its node gets when it reads the bytes again.\<close>

lemma ns_write_local:
  assumes "actor_node s a = ns_node s"
  shows "ns_write (Some a) s = (int_bytes (actor_id_of s a) @ host_id (ns_node s) @ int_bytes (process_id (ns_node s)),
     s\<lparr>ns_reg := put (actor_id_of s a) (Some a) (ns_reg s)\<rparr>)"
proof -
  have "compare_node (ns_node s) (ns_node s) = 0"
    using compare_node_antisym [of "ns_node s" "ns_node s"] by simp
  then show ?thesis using assms by (simp add: ns_write_def is_remote_def node_eq_def)
qed

lemma ns_read_local:
  assumes "wf_node (ns_node s)" and "ns_node s \<noteq> None" and "i \<noteq> 0"
  shows "ns_read mk (int_bytes i @ host_id (ns_node s) @ int_bytes (process_id (ns_node s)) @ r) s
    = Inr (get_actor i (ns_reg s), r, s)"
  using assms by (simp add: ns_read_def read_addr_fields_bytes wf_node_def)

lemma get_actor_put:
  assumes "\<not> exited (wld s) a" and "entries s i = None \<or> entries s i = Some (Some a, not_exited)"
  shows "get_actor i (put i (Some a) s) = Some a"
proof (cases "entries s i")
  case None
  then show ?thesis using put_result [OF None, of a] assms(1) by (simp add: get_actor_def get_entry_def Let_def)
next
  case (Some e)
  then show ?thesis using assms(2) by (simp add: put_def get_actor_def get_entry_def)
qed

section \<open>The backend\<close>

text \<open>
  A backend may create actors and a proxy for the requested actor of the requested node; it leaves
  the anchors and the identities of existing actors alone.
\<close>

locale proxy_backend =
  fixes make_proxy :: "node_id \<Rightarrow> u32 \<Rightarrow> 'a nspace_scheme \<Rightarrow> actor_addr \<times> 'a nspace_scheme"
  assumes mk_frame: "make_proxy n i s = (r, t) \<Longrightarrow> proxies t = proxies s \<and> ns_node t = ns_node s \<and> gone t = gone s
      \<and> next_actor s \<le> next_actor t"
    and mk_old: "make_proxy n i s = (r, t) \<Longrightarrow> a < next_actor s \<Longrightarrow> actor_node t a = actor_node s a \<and> actor_id_of t a = actor_id_of s a"
    and mk_new: "make_proxy n i s = (Some p, t) \<Longrightarrow> actor_node t p = n \<and> actor_id_of t p = i \<and> next_actor s \<le> p \<and> p < next_actor t"
begin

lemma get_or_put_cases:
  assumes "ns_inv s"
  obtains (known) p t where "get_or_put make_proxy n i s = (Some p, t)" "anchor_of s n i = Some (Some p)"
      "anchor_get s p = Some p" "proxies t = proxies s" "actor_node t = actor_node s" "actor_id_of t = actor_id_of s"
      "gone t = gone s" "next_actor t = next_actor s" "ns_node t = ns_node s"
    | (failed) t s1 where "get_or_put make_proxy n i s = (None, t)" "make_proxy n i s1 = (None, t)"
    | (created) p t s1 t1 where "get_or_put make_proxy n i s = (Some p, t)" "make_proxy n i s1 = (Some p, t1)"
      "t = set_submap n (insert_key i (Some p) (submap n t1)) t1"
      "actor_node s1 = actor_node s" "actor_id_of s1 = actor_id_of s" "gone s1 = gone s" "next_actor s1 = next_actor s"
      "ns_node s1 = ns_node s" "distinct (map fst (proxies s1))" "\<And>k. sorted_wrt (<) (map fst (submap k s1))"
      "\<And>k j q. anchor_of s1 k j = Some (Some q) \<Longrightarrow> anchor_of s k j = Some (Some q)"
proof -
  let ?m = "submap n s"
  let ?m1 = "if i \<in> fst ` set ?m then ?m else insert_key i None ?m"
  let ?s1 = "set_submap n ?m1 s"
  note inv = ns_invD [OF assms]
  have so: "sorted_wrt (<) (map fst ?m1)" using inv(2) insert_key_sorted [OF inv(2), of i None] by simp
  have a: "map_of ?m1 j = (if j = i \<and> i \<notin> fst ` set ?m then Some None else map_of ?m j)" for j
    using map_of_insert_key [OF inv(2)] by auto
  have an: "anchor_of ?s1 k j = Some (Some q) \<Longrightarrow> anchor_of s k j = Some (Some q)" for k j q
    using a by (auto simp: anchor_of_set_submap anchor_of_submap split: if_splits)
  have srt: "sorted_wrt (<) (map fst (submap k ?s1))" for k using so inv(2) by simp
  show thesis
  proof (cases "Option.bind (Option.bind (map_of ?m1 i) id) (anchor_get s)")
    case (Some p)
    then have "map_of ?m1 i = Some (Some p)" "anchor_get s p = Some p" by (auto simp: anchor_get_def bind_eq_Some_conv split: if_splits)
    then have p: "anchor_of s n i = Some (Some p)" using a by (auto simp: anchor_of_submap split: if_splits)
    then have i: "i \<in> fst ` set ?m" by (metis anchor_of_submap map_of_eq_None_iff option.distinct(1))
    have n: "map_of (proxies s) n = Some ?m" using p by (auto simp: anchor_of_def submap_def bind_eq_Some_conv)
    have "?s1 = s" using i set_submap_same [OF n inv(1)] by simp
    then have "get_or_put make_proxy n i s = (Some p, s)" using Some by (simp add: get_or_put_def Let_def)
    then show thesis using known p \<open>anchor_get s p = Some p\<close> by blast
  next
    case None
    show thesis
    proof (cases "make_proxy n i ?s1")
      case (Pair r t1)
      show thesis
      proof (cases r)
        case r: None
        then have "get_or_put make_proxy n i s = (None, t1)" using None Pair by (simp add: get_or_put_def Let_def)
        then show thesis using failed Pair r by blast
      next
        case r: (Some p)
        then have "get_or_put make_proxy n i s = (Some p, set_submap n (insert_key i (Some p) (submap n t1)) t1)"
          using None Pair by (simp add: get_or_put_def Let_def)
        then show thesis using created [of p _ ?s1 t1] Pair r an srt inv(1) by (simp add: distinct_set_submap)
      qed
    qed
  qed
qed

text \<open>A proxy that get\_or\_put returns is for the requested actor, and asking again returns the same one.\<close>

lemma get_or_put_correct:
  assumes inv: "ns_inv s" and g: "get_or_put make_proxy n i s = (Some p, t)"
  shows "ns_inv t \<and> actor_node t p = n \<and> actor_id_of t p = i \<and> anchor_of t n i = Some (Some p)
    \<and> anchor_get t p = Some p \<and> ns_node t = ns_node s"
  using inv
proof (cases rule: get_or_put_cases [of s n i])
  case (known q u)
  then have "q = p" "u = t" using g by simp_all
  then have k: "anchor_of s n i = Some (Some p)" "anchor_get s p = Some p" "proxies t = proxies s" "actor_node t = actor_node s"
    "actor_id_of t = actor_id_of s" "gone t = gone s" "next_actor t = next_actor s" "ns_node t = ns_node s" using known by auto
  have an: "anchor_of t k j = anchor_of s k j" "submap k t = submap k s" for k j using k(3) anchor_of_cong submap_cong by blast+
  have "ns_inv t" by (rule ns_inv_shrink [OF inv]) (use k an ns_invD [OF inv] in simp_all)
  then show ?thesis using k an ns_invD(3) [OF inv k(1)] by (simp add: anchor_get_def expired_def)
next
  case (failed u s1)
  then show ?thesis using g by simp
next
  case (created q u s1 t1)
  then have q: "make_proxy n i s1 = (Some p, t1)" "t = set_submap n (insert_key i (Some p) (submap n t1)) t1" using g by simp_all
  note fr = mk_frame [OF q(1)] and new = mk_new [OF q(1)] and old = mk_old [OF q(1)]
  have sm: "submap k t1 = submap k s1" "anchor_of t1 k j = anchor_of s1 k j" for k j
    using fr submap_cong anchor_of_cong by blast+
  note srt = created(10) [of n, folded sm(1)]
  have anc: "anchor_of t k j = (if k = n \<and> j = i then Some (Some p) else anchor_of s1 k j)" for k j
    using map_of_insert_key [OF created(10) [of n], of i "Some p"]
    by (simp add: q(2) anchor_of_set_submap sm) (simp add: anchor_of_submap)
  have idn: "actor_node t = actor_node t1" "actor_id_of t = actor_id_of t1" "gone t = gone s" "next_actor t = next_actor t1"
    "ns_node t = ns_node s" using fr created(6,8) by (simp_all add: q(2))
  have "ns_inv t" unfolding ns_inv_def
  proof (intro conjI allI impI ballI)
    show "distinct (map fst (proxies t))" using created(9) fr by (simp add: q(2) distinct_set_submap)
    show "sorted_wrt (<) (map fst (submap k t))" for k
      using insert_key_sorted [OF srt, of i "Some p"] created(10) by (simp add: q(2) sm)
  next
    fix k j r assume a: "anchor_of t k j = Some (Some r)"
    show "actor_node t r = k" "actor_id_of t r = j" "r < next_actor t"
    proof -
      have o: "actor_node s r = k \<and> actor_id_of s r = j \<and> r < next_actor s" if "\<not> (k = n \<and> j = i)"
      proof -
        have "anchor_of s1 k j = Some (Some r)" using that a anc [of k j] by auto
        then show ?thesis using created(11) ns_invD(3) [OF inv] by blast
      qed
      show "actor_node t r = k" "actor_id_of t r = j" "r < next_actor t"
        using o old [of r] new a fr created(4,5,7) by (auto simp: idn anc split: if_splits)
    qed
  next
    fix r assume "r \<in> gone t"
    then show "r < next_actor t" using ns_invD(4) [OF inv] fr created(7) by (fastforce simp: idn)
  qed
  moreover have "anchor_get t p = Some p"
    using ns_invD(4) [OF inv, of p] new created(7) by (auto simp: anchor_get_def expired_def idn)
  ultimately show ?thesis using new anc idn by simp
qed

lemma get_or_put_again:
  assumes "ns_inv s" and "get_or_put make_proxy n i s = (Some p, t)"
  shows "get_or_put make_proxy n i t = (Some p, t)"
proof -
  note c = get_or_put_correct [OF assms]
  then have m: "map_of (submap n t) i = Some (Some p)" by (simp add: anchor_of_submap)
  then have i: "i \<in> fst ` set (submap n t)" by (metis map_of_eq_None_iff option.distinct(1))
  have "map_of (proxies t) n = Some (submap n t)" using c by (auto simp: anchor_of_def submap_def bind_eq_Some_conv)
  then have "set_submap n (submap n t) t = t" using set_submap_same ns_invD(1) c by blast
  then show ?thesis using m i c by (simp add: get_or_put_def Let_def)
qed

text \<open>Another node reads the address of a remote actor as a proxy, which it writes in the same form.\<close>

lemma ns_read_remote:
  assumes inv: "ns_inv s" and n: "n = Some (Node_Data p h)" "length h = host_id_size" "i \<noteq> 0"
    and other: "n \<noteq> ns_node s" "ns_node s \<noteq> None"
  shows "case ns_read make_proxy (int_bytes i @ h @ int_bytes p @ r) s of
      Inl e \<Rightarrow> e = Null_Pointer \<and> fst (get_or_put make_proxy n i s) = None
    | Inr (x, r', t) \<Rightarrow> r' = r \<and> ns_inv t \<and> (\<exists>q. x = Some q \<and> actor_node t q = n \<and> actor_id_of t q = i
        \<and> fst (ns_write (Some q) t) = int_bytes i @ h @ int_bytes p
        \<and> ns_read make_proxy (int_bytes i @ h @ int_bytes p @ r) t = Inr (Some q, r, t))"
proof -
  have d: "\<not> (p = process_id (ns_node s) \<and> h = host_id (ns_node s))"
    using other n(1) by (cases "ns_node s") (auto simp: process_id_def host_id_def node_data.expand)
  have rd: "ns_read make_proxy (int_bytes i @ h @ int_bytes p @ r) u =
      (case get_or_put make_proxy n i u of (None, s1) \<Rightarrow> Inl Null_Pointer | (Some a, s1) \<Rightarrow> Inr (Some a, r, s1))"
    if "ns_node u = ns_node s" for u
    using d n(1,3) that by (auto simp: ns_read_def read_addr_fields_bytes [OF n(2)])
  show ?thesis
  proof (cases "get_or_put make_proxy n i s")
    case (Pair x t)
    show ?thesis
    proof (cases x)
      case None
      then show ?thesis using rd Pair by simp
    next
      case (Some q)
      then have g: "get_or_put make_proxy n i s = (Some q, t)" using Pair by simp
      note c = get_or_put_correct [OF inv g] and a = get_or_put_again [OF inv g]
      show ?thesis using rd [of s] rd [of t] g c a
        by (simp add: ns_write_def n(1) host_id_def process_id_def)
    qed
  qed
qed

end

end
