(* ===== verification/Basp_Instance.thy ===== *)
theory Basp_Instance
  imports Actor_Namespace
begin

text \<open>
  The protocol instance of a BASP node (class instance of io/basp.hpp and io/basp.cpp): handling of
  received headers and payloads, forwarding, handshakes, dispatching of messages, and the published
  actors. The callbacks of the instance (instance::callee) and the serialization of messages, which
  depends on the types a user announces, are parameters. Buffers are kept per connection; a flush
  hands the contents of a buffer over to the network. Errors that leave the handlers as exceptions
  or dereference null pointers are values of the type io\_error.
\<close>

section \<open>State\<close>

record basp = nspace +
  wr_bufs :: "connection_handle \<Rightarrow> u8 list"
  sent :: "connection_handle \<Rightarrow> u8 list"
  published :: "(u16 \<times> actor_addr \<times> u8 list list) list"

datatype connection_state = await_header | await_payload | close_connection

record 's callee =
  cl_finalize_handshake :: "node_id \<Rightarrow> u32 \<Rightarrow> u8 list list \<Rightarrow> 's \<Rightarrow> 's"
  cl_purge_state :: "node_id \<Rightarrow> 's \<Rightarrow> 's"
  cl_proxy_announced :: "node_id \<Rightarrow> u32 \<Rightarrow> 's \<Rightarrow> 's"
  cl_kill_proxy :: "node_id \<Rightarrow> u32 \<Rightarrow> u32 \<Rightarrow> 's \<Rightarrow> 's"
  cl_deliver :: "node_id \<Rightarrow> u32 \<Rightarrow> node_id \<Rightarrow> u32 \<Rightarrow> elem list \<Rightarrow> message_id \<Rightarrow> 's \<Rightarrow> 's"
  cl_learned_new_node_directly :: "node_id \<Rightarrow> bool \<Rightarrow> 's \<Rightarrow> 's"
  cl_learned_new_node_indirectly :: "node_id \<Rightarrow> 's \<Rightarrow> 's"

text \<open>The order of hop sets, and writing and reading of messages in the context of a node.\<close>

record 's basp_env =
  hop_order :: "node_id list \<Rightarrow> node_id list"
  wr_msg :: "elem list \<Rightarrow> 's \<Rightarrow> io_error + (u8 list \<times> 's)"
  rd_msg :: "u8 list \<Rightarrow> 's \<Rightarrow> io_error + (elem list \<times> 's)"

section \<open>Buffers\<close>

definition set_buf :: "connection_handle \<Rightarrow> u8 list \<Rightarrow> 'a basp_scheme \<Rightarrow> 'a basp_scheme" where
  "set_buf h bs s = s\<lparr>wr_bufs := (wr_bufs s)(h := bs)\<rparr>"

definition flush :: "connection_handle \<Rightarrow> 'a basp_scheme \<Rightarrow> 'a basp_scheme" where
  "flush h s = s\<lparr>sent := (sent s)(h := sent s h @ wr_bufs s h), wr_bufs := (wr_bufs s)(h := [])\<rparr>"

definition write_to :: "connection_handle \<Rightarrow> header \<Rightarrow> u8 list option \<Rightarrow> 'a basp_scheme \<Rightarrow> 'a basp_scheme" where
  "write_to h hdr payload s = flush h (set_buf h (fst (write_datagram (wr_bufs s h) hdr payload)) s)"

section \<open>Handling of received data\<close>

definition conn_err ::
  "'a basp_scheme callee \<Rightarrow> connection_handle \<Rightarrow> header \<Rightarrow> 'a basp_scheme
     \<Rightarrow> io_error + (connection_state \<times> header \<times> 'a basp_scheme)" where
  "conn_err c hdl hdr s = Inr (close_connection, hdr, erase_direct (cl_purge_state c) hdl s)"

definition opt_bytes :: "u8 list option \<Rightarrow> u8 list" where
  "opt_bytes p = (case p of None \<Rightarrow> [] | Some bs \<Rightarrow> bs)"

text \<open>The error message to the source is written but its buffer is not flushed.\<close>

definition forward :: "header \<Rightarrow> u8 list option \<Rightarrow> 'a basp_scheme \<Rightarrow> 'a basp_scheme" where
  "forward hdr payload s = (case lookup_route (dest_node hdr) s of
     (Some (h, hop), s1) \<Rightarrow> notify_hook (Message_Forwarded hdr payload)
       (flush h (set_buf h (wr_bufs s1 h @ write_hdr hdr @ opt_bytes payload) s1))
   | (None, s1) \<Rightarrow> notify_hook (Message_Forwarding_Failed hdr payload)
       (if node_eq (source_node hdr) (ns_node s1) then s1
        else (case lookup_route (source_node hdr) s1 of
            (None, s2) \<Rightarrow> s2
          | (Some (h, hop), s2) \<Rightarrow> set_buf h (write_dispatch_error (ns_node s2) (source_node hdr)
              no_route_to_destination hdr payload (wr_bufs s2 h)) s2)))"

definition payload_valid :: "header \<Rightarrow> u8 list option \<Rightarrow> bool" where
  "payload_valid hdr payload \<longleftrightarrow> (case payload of None \<Rightarrow> False | Some p \<Rightarrow> length p = unat (payload_len hdr))"

definition read_published :: "header \<Rightarrow> u8 list option \<Rightarrow> read_error + (u32 \<times> u8 list list)" where
  "read_published hdr payload = (if payload_valid hdr payload
     then (case bind_reader read_int (\<lambda>aid. map_reader (\<lambda>sigs. (aid, sigs)) read_string_set) (opt_bytes payload) of
         Inl e \<Rightarrow> Inl e | Inr (x, r) \<Rightarrow> Inr x)
     else Inr (0, []))"

definition on_server_handshake ::
  "'a basp_scheme callee \<Rightarrow> connection_handle \<Rightarrow> header \<Rightarrow> u8 list option \<Rightarrow> 'a basp_scheme
     \<Rightarrow> io_error + (connection_state \<times> header \<times> 'a basp_scheme)" where
  "on_server_handshake c hdl hdr payload s = (case read_published hdr payload of
     Inl e \<Rightarrow> Inl (Read_Failed e)
   | Inr (aid, sigs) \<Rightarrow>
       let src = source_node hdr in
       if node_eq src (ns_node s) \<or> lookup_direct src s \<noteq> invalid_connection_handle
       then conn_err c hdl hdr (cl_finalize_handshake c src aid sigs s)
       else
         let s1 = add_direct hdl src s; (was_indirect, s2) = erase_indirect src s1 in
         (case lookup_route src s2 of
            (None, s3) \<Rightarrow> conn_err c hdl hdr s3
          | (Some (h, hop), s3) \<Rightarrow>
              let s4 = set_buf h (write_client_handshake (ns_node s3) src (wr_bufs s3 h)) s3;
                s5 = cl_learned_new_node_directly c src was_indirect s4;
                s6 = cl_finalize_handshake c src aid sigs s5 in
              Inr (await_header, hdr, flush h s6)))"

definition on_client_handshake ::
  "'a basp_scheme callee \<Rightarrow> connection_handle \<Rightarrow> header \<Rightarrow> 'a basp_scheme
     \<Rightarrow> io_error + (connection_state \<times> header \<times> 'a basp_scheme)" where
  "on_client_handshake c hdl hdr s = (let src = source_node hdr in
     if lookup_direct src s \<noteq> invalid_connection_handle then Inr (await_header, hdr, s)
     else let s1 = add_direct hdl src s; (was_indirect, s2) = erase_indirect src s1 in
       Inr (await_header, hdr, cl_learned_new_node_directly c src was_indirect s2))"

text \<open>The route to the source through the last hop, if the source was not known.\<close>

definition learn_route ::
  "'a basp_scheme basp_env \<Rightarrow> 'a basp_scheme callee \<Rightarrow> connection_handle \<Rightarrow> header \<Rightarrow> 'a basp_scheme \<Rightarrow> 'a basp_scheme" where
  "learn_route env c hdl hdr s = (let last_hop = lookup_node hdl s; src = source_node hdr in
     if src \<noteq> None \<and> \<not> node_eq src (ns_node s) \<and> \<not> node_eq last_hop src
        \<and> lookup_direct src s = invalid_connection_handle
     then (case add_indirect (hop_order env) last_hop src s of
         (added_first, s1) \<Rightarrow> if added_first then cl_learned_new_node_indirectly c src s1 else s1)
     else s)"

definition on_dispatch_message ::
  "'a basp_scheme basp_env \<Rightarrow> 'a basp_scheme callee \<Rightarrow> connection_handle \<Rightarrow> header \<Rightarrow> u8 list option \<Rightarrow> 'a basp_scheme
     \<Rightarrow> io_error + (connection_state \<times> header \<times> 'a basp_scheme)" where
  "on_dispatch_message env c hdl hdr payload s =
     (if \<not> payload_valid hdr payload then conn_err c hdl hdr s
      else (case rd_msg env (opt_bytes payload) (learn_route env c hdl hdr s) of
          Inl e \<Rightarrow> Inl e
        | Inr (msg, s1) \<Rightarrow> Inr (await_header, hdr,
            cl_deliver c (source_node hdr) (source_actor hdr) (dest_node hdr) (dest_actor hdr) msg
              (from_integer_value (operation_data hdr)) s1)))"

definition handle_header ::
  "'a basp_scheme basp_env \<Rightarrow> 'a basp_scheme callee \<Rightarrow> connection_handle \<Rightarrow> header \<Rightarrow> u8 list option \<Rightarrow> 'a basp_scheme
     \<Rightarrow> io_error + (connection_state \<times> header \<times> 'a basp_scheme)" where
  "handle_header env c hdl hdr payload s =
     (if \<not> valid_header hdr then conn_err c hdl hdr s
      else if \<not> is_handshake hdr \<and> \<not> node_eq (dest_node hdr) (ns_node s)
      then Inr (await_header, hdr, forward hdr payload s)
      else if operation hdr = server_handshake then on_server_handshake c hdl hdr payload s
      else if operation hdr = client_handshake then on_client_handshake c hdl hdr s
      else if operation hdr = dispatch_message then on_dispatch_message env c hdl hdr payload s
      else if operation hdr = announce_proxy_instance
      then Inr (await_header, hdr, cl_proxy_announced c (source_node hdr) (dest_actor hdr) s)
      else if operation hdr = kill_proxy_instance
      then Inr (await_header, hdr, cl_kill_proxy c (source_node hdr) (source_actor hdr) (ucast (operation_data hdr)) s)
      else conn_err c hdl hdr s)"

definition handle_data ::
  "'a basp_scheme basp_env \<Rightarrow> 'a basp_scheme callee \<Rightarrow> connection_handle \<Rightarrow> u8 list \<Rightarrow> header \<Rightarrow> bool \<Rightarrow> 'a basp_scheme
     \<Rightarrow> io_error + (connection_state \<times> header \<times> 'a basp_scheme)" where
  "handle_data env c hdl buf hdr is_payload s =
     (if is_payload then
        if length buf \<noteq> unat (payload_len hdr) then conn_err c hdl hdr s
        else handle_header env c hdl hdr (Some buf) s
      else (case read_hdr buf of
          Inl e \<Rightarrow> Inl (Read_Failed e)
        | Inr (hdr', r) \<Rightarrow> if payload_len hdr' > 0 then Inr (await_payload, hdr', s)
            else handle_header env c hdl hdr' None s))"

definition handle_connection_closed :: "'a basp_scheme callee \<Rightarrow> connection_handle \<Rightarrow> 'a basp_scheme \<Rightarrow> 'a basp_scheme" where
  "handle_connection_closed c hdl s = erase_direct (cl_purge_state c) hdl s"

definition handle_node_shutdown :: "'a basp_scheme callee \<Rightarrow> node_id \<Rightarrow> 'a basp_scheme \<Rightarrow> 'a basp_scheme" where
  "handle_node_shutdown c n s = (if n = None then s else snd (erase_node (cl_purge_state c) n s))"

section \<open>Sending\<close>

text \<open>
  When writing the payload throws, the exception is the result (Inl) and the state after it is not
  modelled: the code then leaves the placeholder of the header and the part of the payload written so far in the
  buffer of the connection.
\<close>

definition dispatch ::
  "'a basp_scheme basp_env \<Rightarrow> actor_addr \<Rightarrow> nat \<Rightarrow> message_id \<Rightarrow> elem list \<Rightarrow> 'a basp_scheme
     \<Rightarrow> io_error + (bool \<times> 'a basp_scheme)" where
  "dispatch env sender receiver mid msg s = (case lookup_route (actor_node s receiver) s of
     (None, s1) \<Rightarrow> Inr (False, notify_hook (Message_Sending_Failed sender (Some receiver) mid msg) s1)
   | (Some (h, hop), s1) \<Rightarrow> (case wr_msg env msg s1 of
       Inl e \<Rightarrow> Inl e
     | Inr (payload, s2) \<Rightarrow>
         let hdr = \<lparr>operation = dispatch_message, payload_len = 0, operation_data = integer_value mid,
           source_node = (case sender of None \<Rightarrow> ns_node s | Some a \<Rightarrow> actor_node s a),
           dest_node = actor_node s receiver,
           source_actor = (case sender of None \<Rightarrow> 0 | Some a \<Rightarrow> actor_id_of s a),
           dest_actor = actor_id_of s receiver\<rparr> in
         Inr (True, notify_hook (Message_Sent sender hop (Some receiver) mid msg) (write_to h hdr (Some payload) s2))))"

section \<open>Published actors\<close>

definition add_published_actor :: "u16 \<Rightarrow> actor_addr \<Rightarrow> u8 list list \<Rightarrow> 'a basp_scheme \<Rightarrow> 'a basp_scheme" where
  "add_published_actor port whom ifs s = notify_hook (Actor_Published whom ifs port)
     (s\<lparr>published := (port, whom, ifs) # delete_key port (published s)\<rparr>)"

definition remove_published_port ::
  "(actor_addr \<Rightarrow> u16 \<Rightarrow> 'a basp_scheme \<Rightarrow> 'a basp_scheme) option \<Rightarrow> u16 \<Rightarrow> 'a basp_scheme \<Rightarrow> nat \<times> 'a basp_scheme" where
  "remove_published_port cb port s = (case map_of (published s) port of None \<Rightarrow> (0, s)
     | Some (whom, ifs) \<Rightarrow> let s1 = (case cb of None \<Rightarrow> s | Some f \<Rightarrow> f whom port s) in
         (1, s1\<lparr>published := delete_key port (published s1)\<rparr>))"

definition remove_published_actor ::
  "(actor_addr \<Rightarrow> u16 \<Rightarrow> 'a basp_scheme \<Rightarrow> 'a basp_scheme) option \<Rightarrow> actor_addr \<Rightarrow> u16 \<Rightarrow> 'a basp_scheme \<Rightarrow> nat \<times> 'a basp_scheme" where
  "remove_published_actor cb whom port s =
     (if port \<noteq> 0 then
        (case map_of (published s) port of
           Some (w, ifs) \<Rightarrow> if w = whom then
             let s1 = (case cb of None \<Rightarrow> s | Some f \<Rightarrow> f whom port s) in
             (1, s1\<lparr>published := delete_key port (published s1)\<rparr>) else (0, s)
         | None \<Rightarrow> (0, s))
      else let ports = map fst (filter (\<lambda>e. fst (snd e) = whom) (published s)) in
        (length ports, fold (\<lambda>p t. let t1 = (case cb of None \<Rightarrow> t | Some f \<Rightarrow> f whom p t) in
           t1\<lparr>published := delete_key p (published t1)\<rparr>) ports s))"

text \<open>The handshake for a port: the actor published there, if any.\<close>

definition server_handshake_for :: "connection_handle \<Rightarrow> u16 option \<Rightarrow> 'a basp_scheme \<Rightarrow> 'a basp_scheme" where
  "server_handshake_for h port s =
     (let pa = Option.bind port (\<lambda>p. map_of (published s) p);
        info = map_option (\<lambda>(whom, ifs). (case whom of None \<Rightarrow> 0 | Some a \<Rightarrow> actor_id_of s a, ifs)) pa in
      set_buf h (write_server_handshake (ns_node s) info (wr_bufs s h)) s)"

section \<open>Datagrams\<close>

text \<open>Reading a datagram: first the header, then the payload if the header announces one.\<close>

definition blank_header :: header where
  "blank_header = \<lparr>operation = server_handshake, payload_len = 0, operation_data = 0, source_node = None,
     dest_node = None, source_actor = 0, dest_actor = 0\<rparr>"

definition receive ::
  "'a basp_scheme basp_env \<Rightarrow> 'a basp_scheme callee \<Rightarrow> connection_handle \<Rightarrow> u8 list \<Rightarrow> 'a basp_scheme
     \<Rightarrow> io_error + (connection_state \<times> header \<times> 'a basp_scheme)" where
  "receive env c hdl d s = (case handle_data env c hdl (take header_size d) blank_header False s of
     Inr (await_payload, hdr, s1) \<Rightarrow> handle_data env c hdl (drop header_size d) hdr True s1
   | r \<Rightarrow> r)"

text \<open>A datagram is the wire form of a header followed by as many bytes as the header says.\<close>

definition datagram :: "header \<Rightarrow> u8 list \<Rightarrow> u8 list" where
  "datagram hdr p = write_hdr hdr @ p"

definition wf_datagram :: "header \<Rightarrow> u8 list \<Rightarrow> bool" where
  "wf_datagram hdr p \<longleftrightarrow> wire_header hdr \<and> length p = unat (payload_len hdr)"

definition opt_payload :: "u8 list \<Rightarrow> u8 list option" where
  "opt_payload p = (if p = [] then None else Some p)"

lemma opt_bytes_payload [simp]: "opt_bytes (opt_payload p) = p" "opt_bytes (Some p) = p"
  by (simp_all add: opt_bytes_def opt_payload_def)

lemma handle_header_state:
  "handle_header env c hdl hdr p s = Inr (st, hdr', t) \<Longrightarrow> st \<noteq> await_payload \<and> hdr' = hdr"
  by (auto simp: handle_header_def conn_err_def on_server_handshake_def on_client_handshake_def on_dispatch_message_def Let_def
      split: if_splits sum.splits option.splits prod.splits)

lemma receive_eq:
  assumes "wf_datagram hdr p"
  shows "receive env c hdl (datagram hdr p) s = handle_header env c hdl hdr (opt_payload p) s"
proof -
  have w: "wire_header hdr" and l: "length p = unat (payload_len hdr)" using assms by (simp_all add: wf_datagram_def)
  have n: "length (write_hdr hdr) = header_size" using w length_write_hdr by (simp add: wire_header_def wire_node_wf)
  have r: "read_hdr (take header_size (datagram hdr p)) = Inr (hdr, [])"
    using read_write_hdr [OF w, of "[]"] n by (simp add: datagram_def)
  have d: "drop header_size (datagram hdr p) = p" using n by (simp add: datagram_def)
  show ?thesis
  proof (cases "payload_len hdr = 0")
    case True
    then have "p = []" using l by simp
    then show ?thesis using True r handle_header_state [of env c hdl hdr None s await_payload]
      by (auto simp: receive_def handle_data_def opt_payload_def split: sum.splits prod.splits connection_state.splits)
  next
    case False
    have "unat (payload_len hdr) \<noteq> 0" using False by (metis unat_eq_zero)
    then have "p \<noteq> []" using l by auto
    moreover have "payload_len hdr > 0" using False by (simp add: word_neq_0_conv)
    ultimately show ?thesis using r d l by (simp add: receive_def handle_data_def opt_payload_def)
  qed
qed

section \<open>Forwarding\<close>

lemma lookup_route_bufs [simp]:
  "wr_bufs (snd (lookup_route n s)) = wr_bufs s" "sent (snd (lookup_route n s)) = sent s"
  "ns_node (snd (lookup_route n s)) = ns_node s" "actor_node (snd (lookup_route n s)) = actor_node s"
  "actor_id_of (snd (lookup_route n s)) = actor_id_of s"
  by (simp_all add: lookup_route_def Let_def actor_id_of_def fun_eq_iff split: option.splits prod.splits)

lemma notify_hook_bufs [simp]:
  "wr_bufs (notify_hook e s) = wr_bufs s" "sent (notify_hook e s) = sent s" "ns_node (notify_hook e s) = ns_node s"
  by (simp_all add: notify_hook_def)

lemma flush_set_buf [simp]:
  "sent (flush h (set_buf h bs s)) = (sent s)(h := sent s h @ bs)" "wr_bufs (flush h (set_buf h bs s)) = (wr_bufs s)(h := [])"
  by (simp_all add: flush_def set_buf_def)

text \<open>Datagrams for other nodes: neither handshakes nor for this node.\<close>

definition passing :: "header \<Rightarrow> 'a basp_scheme \<Rightarrow> bool" where
  "passing hdr s \<longleftrightarrow> valid_header hdr \<and> \<not> is_handshake hdr \<and> \<not> node_eq (dest_node hdr) (ns_node s)"

lemma receive_passing:
  assumes "wf_datagram hdr p" and "passing hdr s"
  shows "receive env c hdl (datagram hdr p) s = Inr (await_header, hdr, forward hdr (opt_payload p) s)"
  using assms by (simp add: receive_eq handle_header_def passing_def)

lemma forward_route:
  assumes "fst (lookup_route (dest_node hdr) s) = Some (h, hop)"
  shows "sent (forward hdr (opt_payload p) s) = (sent s)(h := sent s h @ wr_bufs s h @ datagram hdr p)"
    and "wr_bufs (forward hdr (opt_payload p) s) = (wr_bufs s)(h := [])"
proof -
  obtain s1 where s1: "lookup_route (dest_node hdr) s = (Some (h, hop), s1)" using assms by (metis prod.collapse)
  then have "wr_bufs s1 = wr_bufs s" "sent s1 = sent s" using lookup_route_bufs [of "dest_node hdr" s] by simp_all
  then show "sent (forward hdr (opt_payload p) s) = (sent s)(h := sent s h @ wr_bufs s h @ datagram hdr p)"
    "wr_bufs (forward hdr (opt_payload p) s) = (wr_bufs s)(h := [])"
    using s1 by (simp_all add: forward_def datagram_def)
qed

text \<open>
  A datagram on its way through nodes: each element is a node with the connection the datagram
  arrives at, and what the node sends over the connection to the next hop arrives there.
\<close>

fun travel :: "'a basp_scheme basp_env \<Rightarrow> 'a basp_scheme callee \<Rightarrow> (connection_handle \<times> 'a basp_scheme) list \<Rightarrow> u8 list \<Rightarrow> u8 list option" where
  "travel env c [] d = Some d"
| "travel env c ((hdl, s) # ss) d = (case receive env c hdl d s of
     Inr (await_header, hdr, t) \<Rightarrow> (case fst (lookup_route (dest_node hdr) s) of
         Some (h, hop) \<Rightarrow> travel env c ss (drop (length (sent s h @ wr_bufs s h)) (sent t h))
       | None \<Rightarrow> None)
   | _ \<Rightarrow> None)"

lemma travel_unchanged:
  assumes "wf_datagram hdr p"
  shows "list_all (\<lambda>(hdl, s). passing hdr s \<and> fst (lookup_route (dest_node hdr) s) \<noteq> None) ss
    \<Longrightarrow> travel env c ss (datagram hdr p) = Some (datagram hdr p)"
proof (induction ss)
  case (Cons e ss)
  obtain hdl s where e: "e = (hdl, s)" by force
  with Cons.prems obtain h hop where r: "fst (lookup_route (dest_node hdr) s) = Some (h, hop)" and q: "passing hdr s" by auto
  have "drop (length (sent s h @ wr_bufs s h)) (sent (forward hdr (opt_payload p) s) h) = datagram hdr p"
    using forward_route(1) [OF r] by simp
  then show ?case using e r receive_passing [OF assms q] Cons by simp
qed simp

section \<open>Dispatching\<close>

definition dispatch_header :: "actor_addr \<Rightarrow> nat \<Rightarrow> message_id \<Rightarrow> u8 list \<Rightarrow> 'a basp_scheme \<Rightarrow> header" where
  "dispatch_header sender receiver mid payload s =
     \<lparr>operation = dispatch_message, payload_len = of_nat (length payload), operation_data = integer_value mid,
      source_node = (case sender of None \<Rightarrow> ns_node s | Some a \<Rightarrow> actor_node s a), dest_node = actor_node s receiver,
      source_actor = (case sender of None \<Rightarrow> 0 | Some a \<Rightarrow> actor_id_of s a), dest_actor = actor_id_of s receiver\<rparr>"

lemma dispatch_sent:
  assumes r: "lookup_route (actor_node s receiver) s = (Some (h, hop), s1)" and m: "wr_msg env msg s1 = Inr (payload, s2)"
    and b: "wr_bufs s2 h = wr_bufs s h" "sent s2 h = sent s h"
    and w: "wire_header (dispatch_header sender receiver mid payload s)"
  shows "\<exists>t. dispatch env sender receiver mid msg s = Inr (True, t)
    \<and> sent t h = sent s h @ wr_bufs s h @ datagram (dispatch_header sender receiver mid payload s) payload
    \<and> wr_bufs t h = []"
proof -
  let ?h = "(dispatch_header sender receiver mid payload s)\<lparr>payload_len := 0\<rparr>"
  have wf: "wf_node (source_node ?h)" "wf_node (dest_node ?h)" using w by (simp_all add: wire_header_def wire_node_wf)
  have e: "?h\<lparr>payload_len := of_nat (length payload)\<rparr> = dispatch_header sender receiver mid payload s"
    by (simp add: dispatch_header_def)
  have "fst (write_datagram (wr_bufs s h) ?h (Some payload)) = wr_bufs s h @ datagram (dispatch_header sender receiver mid payload s) payload"
    using write_datagram_result [OF wf, of "wr_bufs s h" "Some payload"] e by (simp add: datagram_def)
  then show ?thesis using r m b by (simp add: dispatch_def write_to_def Let_def dispatch_header_def)
qed

section \<open>Callbacks\<close>

text \<open>
  What the instance relies on: purging the state of a node leaves the routing table alone, and no
  callback breaks it.
\<close>

locale basp_callee =
  fixes c :: "'a basp_scheme callee"
  assumes purge_keeps: "keeps_table (cl_purge_state c n)"
    and finalize_inv: "table_inv s \<Longrightarrow> table_inv (cl_finalize_handshake c n i sigs s)"
    and announced_inv: "table_inv s \<Longrightarrow> table_inv (cl_proxy_announced c n i s)"
    and kill_inv: "table_inv s \<Longrightarrow> table_inv (cl_kill_proxy c n i r s)"
    and deliver_inv: "table_inv s \<Longrightarrow> table_inv (cl_deliver c n i m j msg mid s)"
    and directly_inv: "table_inv s \<Longrightarrow> table_inv (cl_learned_new_node_directly c n b s)"
    and indirectly_inv: "table_inv s \<Longrightarrow> table_inv (cl_learned_new_node_indirectly c n s)"


sublocale basp_callee \<subseteq> erase_callback "cl_purge_state c"
  by unfold_locales (rule purge_keeps)

context basp_callee
begin

lemma table_inv_set_buf: "table_inv (set_buf h bs s) = table_inv s" "table_inv (flush h s) = table_inv s"
  by (simp_all add: table_inv_def set_buf_def flush_def)

lemma table_inv_notify: "table_inv (notify_hook e s) = table_inv s"
  by (simp add: table_inv_def)

lemma table_inv_err:
  "table_inv s \<Longrightarrow> conn_err c hdl hdr s = Inr (st, hdr', t) \<Longrightarrow> table_inv t"
  using table_inv_erase_direct by (auto simp: conn_err_def)

lemma table_inv_forward:
  assumes "table_inv s"
  shows "table_inv (forward hdr p s)"
proof -
  have l: "table_inv t" if "lookup_route n u = (r, t)" "table_inv u" for n u r t
    using table_inv_lookup [OF that(2), of n] that(1) by simp
  show ?thesis using assms
    by (auto simp: forward_def table_inv_set_buf table_inv_notify split: prod.splits option.splits intro: l)
qed

lemma table_inv_connect:
  assumes "table_inv s" and "direct_by_hdl s hdl = None" and "lookup_direct n s = invalid_connection_handle"
    and "hdl \<noteq> invalid_connection_handle"
  shows "table_inv (snd (erase_indirect n (add_direct hdl n s)))"
  using assms lookup_direct_invalid [OF assms(1), of n] by (intro table_inv_erase_indirect table_inv_add_direct) auto

lemma table_inv_server_handshake:
  assumes inv: "table_inv s" and h: "direct_by_hdl s hdl = None" "hdl \<noteq> invalid_connection_handle"
    and r: "on_server_handshake c hdl hdr p s = Inr (st, hdr', t)"
  shows "table_inv t"
proof -
  obtain aid sigs where rp: "read_published hdr p = Inr (aid, sigs)"
    using r by (auto simp: on_server_handshake_def split: sum.splits)
  let ?src = "source_node hdr"
  show ?thesis
  proof (cases "node_eq ?src (ns_node s) \<or> lookup_direct ?src s \<noteq> invalid_connection_handle")
    case True
    then have "conn_err c hdl hdr (cl_finalize_handshake c ?src aid sigs s) = Inr (st, hdr', t)"
      using r rp by (simp add: on_server_handshake_def)
    then show ?thesis by (rule table_inv_err [OF finalize_inv [OF inv]])
  next
    case False
    let ?s2 = "snd (erase_indirect ?src (add_direct hdl ?src s))"
    have i2: "table_inv ?s2" using table_inv_connect inv h False by blast
    have i3: "table_inv (snd (lookup_route ?src ?s2))" using table_inv_lookup i2 by blast
    show ?thesis using r rp False i3
      by (auto simp: on_server_handshake_def Let_def table_inv_set_buf split: prod.splits option.splits
          intro: table_inv_err intro!: finalize_inv directly_inv)
  qed
qed

lemma table_inv_client_handshake:
  assumes "table_inv s" and "direct_by_hdl s hdl = None" "hdl \<noteq> invalid_connection_handle"
    and "on_client_handshake c hdl hdr s = Inr (st, hdr', t)"
  shows "table_inv t"
  using assms table_inv_connect [OF assms(1,2), of "source_node hdr"]
  by (auto simp: on_client_handshake_def Let_def split: if_splits prod.splits intro: directly_inv)

lemma table_inv_dispatch_message:
  assumes inv: "table_inv s" and o: "\<And>xs. mset (hop_order env xs) = mset xs"
    and rd: "\<And>bs u msg v. table_inv u \<Longrightarrow> rd_msg env bs u = Inr (msg, v) \<Longrightarrow> table_inv v"
    and r: "on_dispatch_message env c hdl hdr p s = Inr (st, hdr', t)"
  shows "table_inv t"
proof -
  have a: "table_inv u" if "add_indirect (hop_order env) n m s = (b, u)" for n m b u
    using table_inv_add_indirect [OF inv o, of n m] that by simp
  have "table_inv (learn_route env c hdl hdr s)"
    using inv by (auto simp: learn_route_def Let_def split: prod.splits intro: indirectly_inv a)
  then show ?thesis using r inv rd
    by (auto simp: on_dispatch_message_def split: if_splits sum.splits intro: table_inv_err deliver_inv)
qed

text \<open>Handling data keeps the table consistent, as long as a connection has at most one handshake.\<close>

lemma table_inv_handle_header:
  assumes inv: "table_inv s" and o: "\<And>xs. mset (hop_order env xs) = mset xs"
    and rd: "\<And>bs u msg v. table_inv u \<Longrightarrow> rd_msg env bs u = Inr (msg, v) \<Longrightarrow> table_inv v"
    and h: "hdl \<noteq> invalid_connection_handle" "is_handshake hdr \<Longrightarrow> direct_by_hdl s hdl = None"
    and r: "handle_header env c hdl hdr p s = Inr (st, hdr', t)"
  shows "table_inv t"
proof -
  consider (err) "conn_err c hdl hdr s = Inr (st, hdr', t)" | (fwd) "t = forward hdr p s"
    | (srv) "is_handshake hdr" "on_server_handshake c hdl hdr p s = Inr (st, hdr', t)"
    | (cli) "is_handshake hdr" "on_client_handshake c hdl hdr s = Inr (st, hdr', t)"
    | (dsp) "on_dispatch_message env c hdl hdr p s = Inr (st, hdr', t)"
    | (ann) "t = cl_proxy_announced c (source_node hdr) (dest_actor hdr) s"
    | (kil) "t = cl_kill_proxy c (source_node hdr) (source_actor hdr) (ucast (operation_data hdr)) s"
    using r unfolding handle_header_def is_handshake_def by (auto split: if_splits)
  then show ?thesis
  proof cases
    case err
    then show ?thesis by (rule table_inv_err [OF inv])
  next
    case srv
    then show ?thesis using table_inv_server_handshake [OF inv h(2) h(1)] by blast
  next
    case cli
    then show ?thesis using table_inv_client_handshake [OF inv h(2) h(1)] by blast
  next
    case dsp
    show ?thesis by (rule table_inv_dispatch_message [where env = env, OF inv o _ dsp]) (rule rd)
  qed (simp_all add: table_inv_forward announced_inv kill_inv inv)
qed

text \<open>A dispatch error is a datagram that no node accepts.\<close>

lemma dispatch_error_closes:
  assumes w: "wire_node sn" "wire_node dn" "wire_header orig" and l: "length (opt_bytes payload) + header_size < 2 ^ 32"
    and s: "direct_by_hdl s hdl = Some n"
  shows "\<exists>h t. receive env c hdl (write_dispatch_error sn dn code orig payload []) s = Inr (close_connection, h, t)
    \<and> direct_by_hdl t = (direct_by_hdl s)(hdl := None) \<and> direct_by_nid t = (direct_by_nid s)(n := None)"
proof -
  let ?p = "write_hdr orig @ opt_bytes payload"
  let ?h = "\<lparr>operation = kill_proxy_instance, payload_len = of_nat (length ?p), operation_data = code, source_node = sn,
      dest_node = dn, source_actor = 0, dest_actor = 0\<rparr>"
  have n: "length (write_hdr orig) = header_size" using w(3) length_write_hdr by (simp add: wire_header_def wire_node_wf)
  have "length ?p = unat (payload_len ?h)" using l n unat_of_nat_small [of "length ?p" 32, where 'w = 32] by simp
  then have wf: "wf_datagram ?h ?p" using w by (simp add: wf_datagram_def wire_header_def)
  have d: "write_dispatch_error sn dn code orig payload [] = datagram ?h ?p"
    using w write_datagram_result [of "?h\<lparr>payload_len := 0\<rparr>" "[]" "Some ?p"]
    by (simp add: write_dispatch_error_def datagram_def opt_bytes_def wire_node_wf)
  have "\<not> valid_header ?h" by (simp add: valid_header_def valid_defs message_type_defs)
  then have "receive env c hdl (write_dispatch_error sn dn code orig payload []) s =
      Inr (close_connection, ?h, erase_direct (cl_purge_state c) hdl s)"
    unfolding d receive_eq [OF wf] by (simp add: handle_header_def conn_err_def)
  then show ?thesis using s by (simp add: erase_direct_table)
qed

end

section \<open>Delivery\<close>

text \<open>
  C6: A message dispatched to a remote actor reaches it: the sender puts one datagram on the
  connection to the next hop, every node on the way that has a route to the destination passes the
  same bytes on, and the destination node delivers the message with the node and id of the sender,
  the id of the receiver and the message id the sender gave, whatever the nodes' callbacks do.
  Writing and reading of messages are those of the serialization framework.
\<close>

theorem dispatch_delivered:
  assumes route: "lookup_route (actor_node s receiver) s = (Some (h, hop), s1)"
    and ser: "wr_msg env msg s1 = Inr (payload, s2)" "wr_bufs s2 h = wr_bufs s h" "sent s2 h = sent s h"
      "payload \<noteq> []" "length payload < 2 ^ 32"
    and hdr: "hdr = dispatch_header sender receiver mid payload s" "wire_header hdr"
      "actor_node s receiver \<noteq> None" "actor_id_of s receiver \<noteq> 0"
    and relays: "list_all (\<lambda>(hdl, u). \<not> node_eq (actor_node s receiver) (ns_node u)
      \<and> fst (lookup_route (actor_node s receiver) u) \<noteq> None) relays"
    and dest: "node_eq (actor_node s receiver) (ns_node d)"
    and deser: "rd_msg env payload (learn_route env c hdl hdr d) = Inr (msg', d1)"
  shows "\<exists>t bytes. dispatch env sender receiver mid msg s = Inr (True, t)
    \<and> sent t h = sent s h @ wr_bufs s h @ bytes
    \<and> travel env c relays bytes = Some bytes
    \<and> receive env c hdl bytes d = Inr (await_header, hdr,
        cl_deliver c (source_node hdr) (source_actor hdr) (actor_node s receiver) (actor_id_of s receiver) msg' mid d1)"
proof -
  have l: "length payload = unat (payload_len hdr)"
    using ser(5) unat_of_nat_small [of "length payload" 32, where 'w = 32] by (simp add: hdr(1) dispatch_header_def)
  then have wf: "wf_datagram hdr payload" using hdr(2) by (simp add: wf_datagram_def)
  have pl: "payload_len hdr \<noteq> 0" using l ser(4) by auto
  have h: "operation hdr = dispatch_message" "dest_node hdr = actor_node s receiver" "dest_actor hdr = actor_id_of s receiver"
    "operation_data hdr = integer_value mid" by (simp_all add: hdr(1) dispatch_header_def)
  have v: "valid_header hdr" "\<not> is_handshake hdr"
    using hdr(3,4) h pl by (simp_all add: valid_header_def dispatch_message_valid_def is_handshake_def message_type_defs)
  obtain t where t: "dispatch env sender receiver mid msg s = Inr (True, t)"
    "sent t h = sent s h @ wr_bufs s h @ datagram hdr payload"
    using dispatch_sent [OF route ser(1-3), of sender mid] hdr(1,2) by auto
  have tr: "travel env c relays (datagram hdr payload) = Some (datagram hdr payload)"
    using relays v h by (intro travel_unchanged [OF wf]) (auto simp: list_all_iff passing_def)
  have "payload_valid hdr (Some payload)" using l by (simp add: payload_valid_def)
  then have "receive env c hdl (datagram hdr payload) d = Inr (await_header, hdr,
        cl_deliver c (source_node hdr) (source_actor hdr) (actor_node s receiver) (actor_id_of s receiver) msg' mid d1)"
    unfolding receive_eq [OF wf] using v h dest deser ser(4)
    by (simp add: handle_header_def opt_payload_def on_dispatch_message_def message_type_defs from_integer_value_def)
  then show ?thesis using t tr by blast
qed

text \<open>
  A message of raw bytes from node 1 over node 3 to actor 9 of node 2; the callbacks do nothing but
  record deliveries.
\<close>

definition sample_env :: "basp basp_env" where
  "sample_env = \<lparr>hop_order = id,
     wr_msg = (\<lambda>m s. case m of [Charbuf bs] \<Rightarrow> Inr (bs, s) | _ \<Rightarrow> Inl (Runtime_Error ''type'')),
     rd_msg = (\<lambda>bs s. Inr ([Charbuf bs], s))\<rparr>"

definition sample_callee :: "basp callee" where
  "sample_callee = \<lparr>cl_finalize_handshake = (\<lambda>n i g s. s), cl_purge_state = (\<lambda>n s. s), cl_proxy_announced = (\<lambda>n i s. s),
     cl_kill_proxy = (\<lambda>n i r s. s),
     cl_deliver = (\<lambda>n i m j msg mid s. notify_hook (Message_Received n None (Some (unat j)) mid msg) s),
     cl_learned_new_node_directly = (\<lambda>n b s. s), cl_learned_new_node_indirectly = (\<lambda>n s. s)\<rparr>"

definition sample_basp :: "u32 \<Rightarrow> (connection_handle \<rightharpoonup> node_id) \<Rightarrow> (node_id \<rightharpoonup> connection_handle) \<Rightarrow> (node_id \<rightharpoonup> node_id list) \<Rightarrow> basp" where
  "sample_basp p dh dn ind = \<lparr>direct_by_hdl = dh, direct_by_nid = dn, indirect = ind, blacklisted = Map.empty,
     has_hook = True, hook_log = [],
     ns_reg = new_registry \<lparr>actor_at = (\<lambda>a. new_proxy 9 0), log = [], running = 0\<rparr>, ns_node = sample_node p,
     actor_node = (\<lambda>a. sample_node 2), proxies = [], gone = {}, next_actor = 8, user_types = [],
     wr_bufs = (\<lambda>h. []), sent = (\<lambda>h. []), published = []\<rparr>"

theorem dispatch_delivered_witness:
  "let s = sample_basp 1 [5 \<mapsto> sample_node 3] [sample_node 3 \<mapsto> 5] [sample_node 2 \<mapsto> [sample_node 3]];
       u = sample_basp 3 [6 \<mapsto> sample_node 2] [sample_node 2 \<mapsto> 6] Map.empty;
       d = sample_basp 2 [7 \<mapsto> sample_node 3] [sample_node 3 \<mapsto> 7] Map.empty
   in \<exists>t bytes hdr d1. dispatch sample_env None 7 (Message_Id 1) [Charbuf [65, 66]] s = Inr (True, t) \<and> sent t 5 = bytes
     \<and> travel sample_env sample_callee [(8, u)] bytes = Some bytes
     \<and> receive sample_env sample_callee 7 bytes d = Inr (await_header, hdr, d1)
     \<and> Message_Received (sample_node 1) None (Some 9) (Message_Id 1) [Charbuf [65, 66]] \<in> set (hook_log d1)"
proof -
  let ?s = "sample_basp 1 [5 \<mapsto> sample_node 3] [sample_node 3 \<mapsto> 5] [sample_node 2 \<mapsto> [sample_node 3]]"
  let ?u = "sample_basp 3 [6 \<mapsto> sample_node 2] [sample_node 2 \<mapsto> 6] Map.empty"
  let ?d = "sample_basp 2 [7 \<mapsto> sample_node 3] [sample_node 3 \<mapsto> 7] Map.empty"
  let ?h = "dispatch_header None 7 (Message_Id 1) [65, 66] ?s"
  have ne: "sample_node i = sample_node j \<longleftrightarrow> i = j" "sample_node i \<noteq> None" for i j by (simp_all add: sample_node_def)
  have eq: "node_eq (sample_node i) (sample_node j) \<longleftrightarrow> i = j" for i j
    using strncmp_zero_iff [of "replicate 20 1" host_id_size "replicate 20 1"]
    by (auto simp: node_eq_def compare_node_def sample_node_def host_id_def process_id_def Let_def host_id_size_def split: if_splits)
  have inv: "(5 :: connection_handle) \<noteq> invalid_connection_handle" "(6 :: connection_handle) \<noteq> invalid_connection_handle"
    by (simp_all add: invalid_connection_handle_def)
  have f: "actor_node ?s 7 = sample_node 2" "actor_id_of ?s 7 = 9" "ns_node ?u = sample_node 3" "ns_node ?d = sample_node 2"
    "wr_bufs ?s = (\<lambda>h. [])" "sent ?s = (\<lambda>h. [])"
    by (simp_all add: sample_basp_def actor_id_of_def new_registry_def new_proxy_def)
  have r: "lookup_route (actor_node ?s 7) ?s = (Some (5, sample_node 3), ?s)"
    by (simp add: sample_basp_def lookup_route_def lookup_direct_def ne inv)
  have ru: "fst (lookup_route (sample_node 2) ?u) = Some (6, sample_node 2)"
    by (simp add: sample_basp_def lookup_route_def lookup_direct_def inv)
  have w: "wire_header ?h"
    by (simp add: wire_header_def wire_node_def wf_node_def dispatch_header_def f sample_node_def host_id_def host_id_size_def
        invalid_host_id_def sample_basp_def)
  have src: "source_node ?h = sample_node 1" by (simp add: dispatch_header_def sample_basp_def)
  obtain d1 where rd: "rd_msg sample_env [65, 66] (learn_route sample_env sample_callee 7 ?h ?d) = Inr ([Charbuf [65, 66]], d1)"
    "has_hook d1"
    by (simp add: sample_env_def learn_route_def Let_def add_indirect_def notify_hook_def sample_callee_def sample_basp_def)
  have ser: "wr_msg sample_env [Charbuf [65, 66]] ?s = Inr ([65, 66], ?s)" by (simp add: sample_env_def)
  have dn: "actor_node ?s 7 \<noteq> None" "actor_id_of ?s 7 \<noteq> 0" using f(1,2) ne by simp_all
  have rl: "list_all (\<lambda>(hdl, u). \<not> node_eq (actor_node ?s 7) (ns_node u) \<and> fst (lookup_route (actor_node ?s 7) u) \<noteq> None) [(8 :: connection_handle, ?u)]"
    using f(1,3) eq ru by simp
  have de: "node_eq (actor_node ?s 7) (ns_node ?d)" using f(1,4) eq by simp
  obtain t bytes where th: "dispatch sample_env None 7 (Message_Id 1) [Charbuf [65, 66]] ?s = Inr (True, t)"
    "sent t 5 = sent ?s 5 @ wr_bufs ?s 5 @ bytes" "travel sample_env sample_callee [(8, ?u)] bytes = Some bytes"
    "receive sample_env sample_callee 7 bytes ?d = Inr (await_header, ?h,
        cl_deliver sample_callee (source_node ?h) (source_actor ?h) (actor_node ?s 7) (actor_id_of ?s 7) [Charbuf [65, 66]] (Message_Id 1) d1)"
    using dispatch_delivered [OF r ser refl refl _ _ refl w dn(1,2) rl de rd(1)] by auto
  show ?thesis using th f rd(2) src unfolding Let_def
    by (intro exI conjI) (auto simp: sample_callee_def notify_hook_def)
qed

end
