(* ===== verification/Type_Map.thy ===== *)
theory Type_Map
  imports Actor_Namespace
begin

text \<open>
  The map of uniform types (uniform\_type\_info\_map.cpp): the names of the builtin types, binary search
  by name in the sorted containers, announcing of types, and the types of tuples that are created when
  their name is first asked for.
\<close>

section \<open>Names\<close>

definition numbered_type_names :: "string list" where
  "numbered_type_names = [''@actor'', ''@actorvec'', ''@addr'', ''@addrvec'', ''@atom'', ''@channel'', ''@charbuf'',
     ''@down'', ''@duration'', ''@exit'', ''@group'', ''@group_down'', ''@i16'', ''@i32'', ''@i64'', ''@i8'',
     ''@ldouble'', ''@message'', ''@message_id'', ''@node'', ''@str'', ''@strmap'', ''@strset'', ''@strvec'',
     ''@sync_exited'', ''@sync_timeout'', ''@timeout'', ''@u16'', ''@u16str'', ''@u32'', ''@u32str'', ''@u64'',
     ''@u8'', ''@unit'', ''bool'', ''double'', ''float'']"

text \<open>The order of std::string: lexicographic by the codes of the characters.\<close>

fun string_less :: "string \<Rightarrow> string \<Rightarrow> bool" where
  "string_less [] [] = False"
| "string_less [] (d # ds) = True"
| "string_less (c # cs) [] = False"
| "string_less (c # cs) (d # ds) = ((of_char c :: nat) < of_char d \<or> (c = d \<and> string_less cs ds))"

text \<open>std::lower\_bound on a range that is partitioned by the comparison.\<close>

definition lower_bound :: "('a \<Rightarrow> string) \<Rightarrow> 'a list \<Rightarrow> string \<Rightarrow> nat" where
  "lower_bound name xs n = length (takeWhile (\<lambda>x. string_less (name x) n) xs)"

definition find_name :: "('a \<Rightarrow> string) \<Rightarrow> 'a list \<Rightarrow> string \<Rightarrow> 'a option" where
  "find_name name xs n = (let i = lower_bound name xs n in
     if i < length xs \<and> name (xs ! i) = n then Some (xs ! i) else None)"

section \<open>Lookup and announcing\<close>

text \<open>
  A type is found by its number or by its name. A number that is too large reads behind the array of
  the builtin types (None).
\<close>

definition by_type_nr :: "u16 \<Rightarrow> uti_ref option" where
  "by_type_nr nr = (if 0 < nr \<and> unat nr \<le> length sorted_builtin_types
     then Some (Builtin (sorted_builtin_types ! (unat nr - 1))) else None)"

text \<open>
  The name of a type info is a C string: the member function name() returns the characters of the
  stored name, which for its users end at the first zero character.
\<close>

definition c_name :: "string \<Rightarrow> string" where
  "c_name n = takeWhile (\<lambda>c. c \<noteq> CHR 0x00) n"

text \<open>
  Announcing compares with strcmp on name() and keeps an existing entry of the same C name; the new entry
  is known under its C name from then on. Searching by name, in contrast, compares with the whole string
  it is given.
\<close>

definition insert_type :: "string \<Rightarrow> uti_ref \<Rightarrow> (string \<times> uti_ref) list \<Rightarrow> uti_ref \<times> (string \<times> uti_ref) list" where
  "insert_type n e ts = (let m = c_name n; i = lower_bound fst ts m in
     if i = length ts then (e, ts @ [(m, e)])
     else if fst (ts ! i) = m then (snd (ts ! i), ts)
     else (e, take i ts @ (m, e) # drop i ts))"

definition find_entry :: "(string \<times> uti_ref) list \<Rightarrow> string \<Rightarrow> uti_ref option" where
  "find_entry ts n = (case find_name fst (zip numbered_type_names sorted_builtin_types) n of
     Some (_, t) \<Rightarrow> Some (Builtin t)
   | None \<Rightarrow> map_option snd (find_name fst ts n))"

text \<open>
  Names are split at the plus signs by boost::algorithm::split, which is a parameter. What is used of
  it is its documented result on pieces that contain no plus sign and are joined by plus signs.
\<close>

definition joined :: "string list \<Rightarrow> string" where
  "joined ns = concat (map (\<lambda>n. CHR ''+'' # n) ns)"

definition splits_names :: "(string \<Rightarrow> string list) \<Rightarrow> bool" where
  "splits_names split_at \<longleftrightarrow> (\<forall>p ns. CHR ''+'' \<notin> set p \<and> list_all (\<lambda>n. CHR ''+'' \<notin> set n) ns \<longrightarrow> split_at (p @ joined ns) = p # ns)"

text \<open>
  The element types of a tuple; a name that denotes no type gives a null pointer.
  The lookup of a name is written with the recursion through the elements of a tuple name unfolded: an element
  contains no plus sign, so a tuple type created for an element is empty.
\<close>

definition by_element_name :: "string \<Rightarrow> (string \<times> uti_ref) list \<Rightarrow> uti_ref option \<times> (string \<times> uti_ref) list" where
  "by_element_name n ts = (case find_entry ts n of
     Some r \<Rightarrow> (Some r, ts)
   | None \<Rightarrow> if take 3 n = ''@<>'' then (case insert_type n (Meta_Message []) ts of (e, ts') \<Rightarrow> (Some e, ts'))
       else (None, ts))"

fun element_types :: "string list \<Rightarrow> (string \<times> uti_ref) list \<Rightarrow> uti_ref option list \<times> (string \<times> uti_ref) list" where
  "element_types [] ts = ([], ts)"
| "element_types (p # ps) ts = (case by_element_name p ts of (r, ts1) \<Rightarrow>
     case element_types ps ts1 of (es, ts2) \<Rightarrow> (r # es, ts2))"

definition default_meta_message :: "(string \<Rightarrow> string list) \<Rightarrow> string \<Rightarrow> (string \<times> uti_ref) list \<Rightarrow> uti_ref \<times> (string \<times> uti_ref) list" where
  "default_meta_message split_at n ts = (case element_types (tl (split_at n)) ts of (es, ts') \<Rightarrow> (Meta_Message es, ts'))"

definition by_uniform_name :: "(string \<Rightarrow> string list) \<Rightarrow> string \<Rightarrow> (string \<times> uti_ref) list \<Rightarrow> uti_ref option \<times> (string \<times> uti_ref) list" where
  "by_uniform_name split_at n ts = (case find_entry ts n of
     Some r \<Rightarrow> (Some r, ts)
   | None \<Rightarrow> if take 3 n = ''@<>'' then (case default_meta_message split_at n ts of (m, ts1) \<Rightarrow>
         case insert_type n m ts1 of (e, ts2) \<Rightarrow> (Some e, ts2))
       else (None, ts))"

text \<open>The name of the type info of a message (message\_data::tuple\_type\_names).\<close>

definition tuple_name :: "string list \<Rightarrow> string" where
  "tuple_name ns = ''@<>'' @ joined ns"

definition get_all_types :: "(string \<times> uti_ref) list \<Rightarrow> uti_ref list" where
  "get_all_types ts = map Builtin sorted_builtin_types @ map snd ts"

section \<open>Sorted containers\<close>

lemma string_less_irrefl [simp]: "\<not> string_less s s"
  by (induction s) auto

lemma string_less_trans: "string_less a b \<Longrightarrow> string_less b c \<Longrightarrow> string_less a c"
proof (induction a b arbitrary: c rule: string_less.induct)
  case (2 d ds)
  then show ?case by (cases c) auto
next
  case (4 x xs y ys)
  then show ?case by (cases c) auto
qed auto

lemma string_less_linear: "s = t \<or> string_less s t \<or> string_less t s"
proof (induction s t rule: string_less.induct)
  case (4 c cs d ds)
  have "c = d \<or> (of_char c :: nat) < of_char d \<or> (of_char d :: nat) < of_char c"
    using linorder_less_linear [of "of_char c :: nat" "of_char d"] by (simp add: of_char_eq_iff) blast
  then show ?case using 4 by auto
qed auto

definition sorted_names :: "('a \<Rightarrow> string) \<Rightarrow> 'a list \<Rightarrow> bool" where
  "sorted_names f xs \<longleftrightarrow> sorted_wrt (\<lambda>x y. string_less (f x) (f y)) xs"

text \<open>In a sorted container the binary search finds exactly the element of the name.\<close>

lemma lower_bound_split:
  assumes "sorted_names f xs"
  shows "\<exists>ls rs. xs = ls @ rs \<and> length ls = lower_bound f xs n \<and> list_all (\<lambda>x. string_less (f x) n) ls
    \<and> list_all (\<lambda>x. f x = n \<or> string_less n (f x)) rs"
proof -
  let ?ls = "takeWhile (\<lambda>x. string_less (f x) n) xs" and ?rs = "dropWhile (\<lambda>x. string_less (f x) n) xs"
  have "list_all (\<lambda>x. f x = n \<or> string_less n (f x)) ?rs"
  proof (cases ?rs)
    case (Cons y ys)
    have y: "\<not> string_less (f y) n" using hd_dropWhile [of "\<lambda>x. string_less (f x) n" xs] Cons by simp
    have "sorted_names f (?ls @ ?rs)" using assms by simp
    then have "sorted_names f (y # ys)" unfolding Cons sorted_names_def sorted_wrt_append by blast
    then have "\<forall>z\<in>set ys. string_less (f y) (f z)" by (simp add: sorted_names_def)
    moreover have "f y = n \<or> string_less n (f y)" using y string_less_linear by blast
    ultimately show ?thesis unfolding Cons by (auto simp: list_all_iff intro: string_less_trans)
  next
    case Nil
    show ?thesis unfolding Nil by simp
  qed
  moreover have "list_all (\<lambda>x. string_less (f x) n) ?ls" by (auto simp: list_all_iff dest: set_takeWhileD)
  moreover have "xs = ?ls @ ?rs" by simp
  ultimately show ?thesis unfolding lower_bound_def by blast
qed

lemma find_name_correct:
  assumes "sorted_names f xs"
  shows "find_name f xs n = Some x \<longleftrightarrow> x \<in> set xs \<and> f x = n"
proof -
  obtain ls rs where s: "xs = ls @ rs" "length ls = lower_bound f xs n" "list_all (\<lambda>x. string_less (f x) n) ls"
    "list_all (\<lambda>x. f x = n \<or> string_less n (f x)) rs" using lower_bound_split [OF assms] by blast
  have l: "f y \<noteq> n" if "y \<in> set ls" for y using s(3) that by (auto simp: list_all_iff)
  show ?thesis
  proof (cases rs)
    case Nil
    then show ?thesis using s l by (auto simp: find_name_def Let_def)
  next
    case (Cons y ys)
    have o: "string_less (f y) (f z)" if "z \<in> set ys" for z
      using assms s(1) Cons that by (simp add: sorted_names_def sorted_wrt_append)
    have y: "f y = n \<or> string_less n (f y)" using s(4) Cons by simp
    have r: "f z \<noteq> n" if "z \<in> set ys" for z
      using y o [OF that] string_less_trans [of n "f y" "f z"] string_less_irrefl [of n] by auto
    have i: "lower_bound f xs n < length xs" "xs ! lower_bound f xs n = y" using s(1) Cons unfolding s(2) [symmetric] by auto
    have "find_name f xs n = (if f y = n then Some y else None)" using i by (simp add: find_name_def Let_def)
    then show ?thesis using l r s(1) Cons by auto
  qed
qed

lemma map_of_find_name:
  assumes "sorted_names fst ts"
  shows "map_option snd (find_name fst ts n) = map_of ts n"
proof -
  have "distinct (map fst ts)" using assms
  proof (induction ts)
    case (Cons t ts)
    then show ?case by (fastforce simp: sorted_names_def)
  qed simp
  then have m: "map_of ts n = Some e" if "(n, e) \<in> set ts" for e using that by simp
  show ?thesis
  proof (cases "find_name fst ts n")
    case None
    then have "x \<notin> set ts \<or> fst x \<noteq> n" for x using find_name_correct [OF assms, of n x] by simp
    then have "map_of ts n = None" by (auto simp: map_of_eq_None_iff)
    then show ?thesis using None by simp
  next
    case (Some x)
    then have "x \<in> set ts" "fst x = n" using find_name_correct [OF assms, of n x] by simp_all
    then have "(n, snd x) \<in> set ts" by (metis prod.collapse)
    then show ?thesis using Some m by simp
  qed
qed

lemma builtin_sorted: "sorted_names fst (zip numbered_type_names sorted_builtin_types)"
  unfolding sorted_names_def by code_simp

lemma length_type_names: "length numbered_type_names = length sorted_builtin_types"
  by (simp add: numbered_type_names_def sorted_builtin_types_def)

text \<open>The name of a builtin type.\<close>

definition builtin_name :: "type_id \<Rightarrow> string" where
  "builtin_name t = numbered_type_names ! (unat (type_nr t) - 1)"

lemma builtin_name_zip: "t \<in> set sorted_builtin_types \<Longrightarrow> (builtin_name t, t) \<in> set (zip numbered_type_names sorted_builtin_types)"
proof -
  have "list_all (\<lambda>t. (builtin_name t, t) \<in> set (zip numbered_type_names sorted_builtin_types)) sorted_builtin_types"
    by code_simp
  then show "t \<in> set sorted_builtin_types \<Longrightarrow> ?thesis" by (simp add: list_all_iff)
qed

lemma find_entry_builtin: "t \<in> set sorted_builtin_types \<Longrightarrow> find_entry ts (builtin_name t) = Some (Builtin t)"
  using find_name_correct [OF builtin_sorted, of "builtin_name t" "(builtin_name t, t)"] builtin_name_zip [of t]
  by (simp add: find_entry_def)

text \<open>A name without zero characters is its own C name.\<close>

definition nul_free :: "string \<Rightarrow> bool" where
  "nul_free n \<longleftrightarrow> CHR 0x00 \<notin> set n"

lemma c_name_nul_free [simp]: "nul_free n \<Longrightarrow> c_name n = n"
  by (auto simp: c_name_def nul_free_def)

lemma c_name_prefix: "nul_free k \<Longrightarrow> c_name (k @ CHR 0x00 # x) = k"
  by (induction k) (auto simp: c_name_def nul_free_def)

lemma nul_free_tuple_name: "list_all nul_free ns \<Longrightarrow> nul_free (tuple_name ns)"
  by (auto simp: nul_free_def tuple_name_def joined_def list_all_iff)

lemma insert_type_correct:
  assumes "sorted_names fst ts" and n: "c_name k = n"
  shows "sorted_names fst (snd (insert_type k e ts))"
    and "map_of (snd (insert_type k e ts)) = (if map_of ts n = None then (map_of ts)(n \<mapsto> e) else map_of ts)"
    and "fst (insert_type k e ts) = (case map_of ts n of None \<Rightarrow> e | Some e' \<Rightarrow> e')"
proof -
  obtain ls rs where s: "ts = ls @ rs" "length ls = lower_bound fst ts n" "list_all (\<lambda>x. string_less (fst x) n) ls"
    "list_all (\<lambda>x. fst x = n \<or> string_less n (fst x)) rs" using lower_bound_split [OF assms(1)] by blast
  have ins: "insert_type k e ts = (if length ls = length (ls @ rs) then (e, (ls @ rs) @ [(n, e)])
     else if fst ((ls @ rs) ! length ls) = n then (snd ((ls @ rs) ! length ls), ls @ rs)
     else (e, take (length ls) (ls @ rs) @ (n, e) # drop (length ls) (ls @ rs)))"
    unfolding insert_type_def Let_def n s(2) [symmetric] by (simp only: s(1))
  have l: "map_of ls n = None" using s(3) by (force simp: map_of_eq_None_iff list_all_iff)
  have srt: "sorted_names fst rs" "sorted_names fst ls" "\<And>x y. x \<in> set ls \<Longrightarrow> y \<in> set rs \<Longrightarrow> string_less (fst x) (fst y)"
    using assms(1) s(1) by (auto simp: sorted_names_def sorted_wrt_append)
  have "sorted_names fst (snd (insert_type k e ts))
    \<and> map_of (snd (insert_type k e ts)) = (if map_of ts n = None then (map_of ts)(n \<mapsto> e) else map_of ts)
    \<and> fst (insert_type k e ts) = (case map_of ts n of None \<Rightarrow> e | Some e' \<Rightarrow> e')"
  proof (cases "rs = [] \<or> fst (hd rs) \<noteq> n")
    case True
    have r: "string_less n (fst y)" if "y \<in> set rs" for y
    proof (cases rs)
      case (Cons z zs)
      have z: "string_less n (fst z)" using True s(4) Cons by auto
      show ?thesis using z that Cons srt(1) by (auto simp: sorted_names_def intro: string_less_trans)
    qed (use that in simp)
    then have rn: "map_of rs n = None" by (force simp: map_of_eq_None_iff)
    have i: "insert_type k e ts = (e, ls @ (n, e) # rs)"
      using True unfolding ins by (cases rs) (simp_all add: nth_append)
    have "sorted_names fst (ls @ (n, e) # rs)" using srt s(3) r
      by (auto simp: sorted_names_def sorted_wrt_append list_all_iff)
    moreover have "map_of ts n = None" using l rn s(1) by (simp add: map_add_def)
    moreover have "map_of (ls @ (n, e) # rs) = (map_of ts)(n \<mapsto> e)" using l s(1) by (auto simp: map_add_def fun_eq_iff split: option.splits)
    ultimately show ?thesis using i by simp
  next
    case False
    then obtain e' zs where z: "rs = (n, e') # zs" by (cases rs) auto
    then have "insert_type k e ts = (e', ts)" unfolding ins by (simp add: s(1) nth_append)
    moreover have "map_of ts n = Some e'" using l z s(1) by (simp add: map_add_def)
    ultimately show ?thesis using assms(1) by simp
  qed
  then show "sorted_names fst (snd (insert_type k e ts))"
    "map_of (snd (insert_type k e ts)) = (if map_of ts n = None then (map_of ts)(n \<mapsto> e) else map_of ts)"
    "fst (insert_type k e ts) = (case map_of ts n of None \<Rightarrow> e | Some e' \<Rightarrow> e')" by blast+
qed

section \<open>Tuples\<close>

lemma split_tuple_name:
  assumes "splits_names split_at" and "list_all (\<lambda>n. CHR ''+'' \<notin> set n) ns"
  shows "split_at (tuple_name ns) = ''@<>'' # ns"
proof -
  have "CHR ''+'' \<notin> set ''@<>''" by simp
  then show ?thesis using assms unfolding tuple_name_def splits_names_def by blast
qed

text \<open>A function that splits names.\<close>

fun split_plus :: "string \<Rightarrow> string list" where
  "split_plus [] = [[]]"
| "split_plus (c # cs) = (if c = CHR ''+'' then [] # split_plus cs
     else (case split_plus cs of [] \<Rightarrow> [[c]] | p # ps \<Rightarrow> (c # p) # ps))"

lemma split_plus_plain: "CHR ''+'' \<notin> set p \<Longrightarrow> split_plus (p @ CHR ''+'' # r) = p # split_plus r"
  by (induction p) auto

lemma split_plus_end: "CHR ''+'' \<notin> set p \<Longrightarrow> split_plus p = [p]"
  by (induction p) auto

lemma split_plus_join:
  "CHR ''+'' \<notin> set p \<Longrightarrow> list_all (\<lambda>n. CHR ''+'' \<notin> set n) ns \<Longrightarrow> split_plus (p @ joined ns) = p # ns"
proof (induction ns arbitrary: p)
  case Nil
  then show ?case by (simp add: split_plus_end joined_def)
next
  case (Cons n ns)
  then show ?case using split_plus_plain [of p "n @ joined ns"] by (simp add: joined_def)
qed

lemma split_plus_splits: "splits_names split_plus"
  by (simp add: splits_names_def split_plus_join)

lemma find_entry_user:
  assumes "sorted_names fst ts" and "n \<notin> set numbered_type_names"
  shows "find_entry ts n = map_of ts n"
proof -
  have "find_name fst (zip numbered_type_names sorted_builtin_types) n = None"
  proof (rule ccontr)
    assume "find_name fst (zip numbered_type_names sorted_builtin_types) n \<noteq> None"
    then obtain x where "find_name fst (zip numbered_type_names sorted_builtin_types) n = Some x" by blast
    then have "x \<in> set (zip numbered_type_names sorted_builtin_types)" "fst x = n" using find_name_correct [OF builtin_sorted] by blast+
    then show False using assms(2) by (metis in_set_zipE prod.collapse)
  qed
  then show ?thesis unfolding map_of_find_name [OF assms(1), of n, symmetric]
    by (cases "find_name fst ts n") (simp_all add: find_entry_def)
qed

lemma tuple_name_not_builtin: "tuple_name ns \<notin> set numbered_type_names"
proof -
  have "list_all (\<lambda>n. take 3 n \<noteq> ''@<>'') numbered_type_names" by code_simp
  moreover have "take 3 (tuple_name ns) = ''@<>''" by (simp add: tuple_name_def joined_def)
  ultimately show ?thesis by (auto simp: list_all_iff)
qed

lemma element_types_plain:
  "list_all (\<lambda>n. take 3 n \<noteq> ''@<>'') ns \<Longrightarrow> element_types ns ts = (map (find_entry ts) ns, ts)"
  by (induction ns) (simp_all add: by_element_name_def split: option.splits)

lemma by_uniform_name_tuple:
  assumes "sorted_names fst ts" and "list_all (\<lambda>n. CHR ''+'' \<notin> set n \<and> take 3 n \<noteq> ''@<>'') ns" and "splits_names split_at"
  shows "by_uniform_name split_at (tuple_name ns) ts = (case map_of ts (tuple_name ns) of
      Some e \<Rightarrow> (Some e, ts)
    | None \<Rightarrow> let e = Meta_Message (map (find_entry ts) ns) in
        (case map_of ts (c_name (tuple_name ns)) of Some e' \<Rightarrow> Some e' | None \<Rightarrow> Some e, snd (insert_type (tuple_name ns) e ts)))"
proof -
  have t: "take 3 (tuple_name ns) = ''@<>''" by (simp add: tuple_name_def joined_def)
  let ?m = "Meta_Message (map (find_entry ts) ns)"
  have s: "list_all (\<lambda>n. CHR ''+'' \<notin> set n) ns" "list_all (\<lambda>n. take 3 n \<noteq> ''@<>'') ns"
    using assms(2) by (simp_all add: list_all_iff)
  have d: "default_meta_message split_at (tuple_name ns) ts = (?m, ts)"
    using split_tuple_name [OF assms(3) s(1)] element_types_plain [OF s(2)] by (simp add: default_meta_message_def)
  show ?thesis
  proof (cases "map_of ts (tuple_name ns)")
    case None
    have "fst (insert_type (tuple_name ns) ?m ts) = (case map_of ts (c_name (tuple_name ns)) of None \<Rightarrow> ?m | Some e' \<Rightarrow> e')"
      using insert_type_correct(3) [OF assms(1) refl] .
    then show ?thesis using None find_entry_user [OF assms(1) tuple_name_not_builtin, of ns] t d
      by (cases "insert_type (tuple_name ns) ?m ts") (simp add: by_uniform_name_def Let_def split: option.split)
  next
    case (Some e)
    then show ?thesis using find_entry_user [OF assms(1) tuple_name_not_builtin, of ns] by (simp add: by_uniform_name_def)
  qed
qed

lemma by_uniform_name_nul_free:
  assumes "sorted_names fst ts" and "list_all (\<lambda>n. CHR ''+'' \<notin> set n \<and> take 3 n \<noteq> ''@<>'') ns" and "splits_names split_at"
    and "list_all nul_free ns"
  shows "by_uniform_name split_at (tuple_name ns) ts = (case map_of ts (tuple_name ns) of
      Some e \<Rightarrow> (Some e, ts)
    | None \<Rightarrow> let e = Meta_Message (map (find_entry ts) ns) in (Some e, snd (insert_type (tuple_name ns) e ts)))"
  using by_uniform_name_tuple [OF assms(1-3)] nul_free_tuple_name [OF assms(4)] by (auto simp: Let_def split: option.split)

text \<open>Announcing types in a row.\<close>

definition announce_all :: "(string \<times> uti_ref) list \<Rightarrow> (string \<times> uti_ref) list \<Rightarrow> (string \<times> uti_ref) list" where
  "announce_all as ts = fold (\<lambda>(n, e) ts. snd (insert_type n e ts)) as ts"

text \<open>An entry is never replaced.\<close>

lemma insert_type_keeps:
  assumes "sorted_names fst ts" and "map_of ts k = Some x"
  shows "map_of (snd (insert_type n e ts)) k = Some x"
  using insert_type_correct(2) [OF assms(1) refl, of n e] assms(2) by auto

lemma announce_all_keeps:
  "sorted_names fst ts \<Longrightarrow> sorted_names fst (announce_all as ts) \<and> (map_of ts k = Some x \<longrightarrow> map_of (announce_all as ts) k = Some x)"
proof (induction as arbitrary: ts)
  case (Cons a as)
  obtain n e where a: "a = (n, e)" by force
  have s: "sorted_names fst (snd (insert_type n e ts))" using insert_type_correct(1) [OF Cons.prems refl] .
  then show ?case using Cons.IH [OF s] insert_type_keeps [OF Cons.prems, of k x n e] by (simp add: announce_all_def a)
qed (simp add: announce_all_def)

lemma tuple_name_kept:
  assumes "sorted_names fst ts" and "list_all (\<lambda>n. CHR ''+'' \<notin> set n \<and> take 3 n \<noteq> ''@<>'' \<and> nul_free n) ns" and "splits_names split_at"
    and "map_of ts (tuple_name ns) = None"
  shows "fst (by_uniform_name split_at (tuple_name ns) (announce_all as (snd (by_uniform_name split_at (tuple_name ns) ts))))
    = Some (Meta_Message (map (find_entry ts) ns))"
proof -
  have n: "list_all (\<lambda>n. CHR ''+'' \<notin> set n \<and> take 3 n \<noteq> ''@<>'') ns" "list_all nul_free ns"
    using assms(2) by (simp_all add: list_all_iff)
  let ?e = "Meta_Message (map (find_entry ts) ns)"
  let ?ts1 = "snd (insert_type (tuple_name ns) ?e ts)"
  have 1: "snd (by_uniform_name split_at (tuple_name ns) ts) = ?ts1"
    using by_uniform_name_nul_free [OF assms(1) n(1) assms(3) n(2)] assms(4) by (simp add: Let_def)
  note ins = insert_type_correct [OF assms(1) c_name_nul_free [OF nul_free_tuple_name [OF n(2)]], of ?e]
  have m: "map_of ?ts1 (tuple_name ns) = Some ?e" using ins(2) assms(4) by simp
  have "sorted_names fst (announce_all as ?ts1)" "map_of (announce_all as ?ts1) (tuple_name ns) = Some ?e"
    using announce_all_keeps [OF ins(1), of as "tuple_name ns" ?e] m by simp_all
  then show ?thesis using by_uniform_name_nul_free [OF _ n(1) assms(3) n(2)] unfolding 1 by simp
qed

text \<open>
  A zero character in a name: the tuple is stored under the C name, the element with the whole name is not
  known, and from then on the tuple of the C name has a null element.
\<close>

lemma nul_name_poisons:
  assumes "sorted_names fst ts" and "splits_names split_at" and k: "nul_free k" "CHR ''+'' \<notin> set k" "take 3 (k @ CHR 0x00 # x) \<noteq> ''@<>''"
    and x: "CHR ''+'' \<notin> set x" and t: "list_all nul_free (map fst ts)" "map_of ts (tuple_name [k]) = None"
  shows "fst (by_uniform_name split_at (tuple_name [k]) (snd (by_uniform_name split_at (tuple_name [k @ CHR 0x00 # x]) ts)))
    = Some (Meta_Message [None])"
proof -
  let ?n = "k @ CHR 0x00 # x"
  have nn: "\<not> nul_free ?n" "\<not> nul_free (tuple_name [?n])" by (simp_all add: nul_free_def tuple_name_def joined_def)
  have unk: "map_of ts m = None" if "\<not> nul_free m" for m
    using t(1) that by (force simp: map_of_eq_None_iff list_all_iff)
  have nb: "m \<notin> set numbered_type_names" if "\<not> nul_free m" for m
  proof -
    have "list_all nul_free numbered_type_names" by code_simp
    then show ?thesis using that by (auto simp: list_all_iff)
  qed
  have f: "find_entry ts ?n = None" using find_entry_user [OF assms(1) nb [OF nn(1)]] unk [OF nn(1)] by simp
  have c: "c_name (tuple_name [?n]) = tuple_name [k]"
    using c_name_prefix [of "''@<>'' @ CHR ''+'' # k" x] k(1) by (simp add: tuple_name_def joined_def nul_free_def)
  have p: "list_all (\<lambda>n. CHR ''+'' \<notin> set n \<and> take 3 n \<noteq> ''@<>'') [?n]" using k x by simp
  have 1: "snd (by_uniform_name split_at (tuple_name [?n]) ts) = snd (insert_type (tuple_name [?n]) (Meta_Message [None]) ts)"
    using by_uniform_name_tuple [OF assms(1) p assms(2)] unk [OF nn(2)] f by (simp add: Let_def)
  note ins = insert_type_correct [OF assms(1) c, of "Meta_Message [None]"]
  have "map_of (snd (insert_type (tuple_name [?n]) (Meta_Message [None]) ts)) (tuple_name [k]) = Some (Meta_Message [None])"
    using ins(2) t(2) by simp
  then have "find_entry (snd (insert_type (tuple_name [?n]) (Meta_Message [None]) ts)) (tuple_name [k]) = Some (Meta_Message [None])"
    using find_entry_user [OF ins(1) tuple_name_not_builtin] by simp
  then show ?thesis unfolding 1 by (simp add: by_uniform_name_def)
qed

text \<open>
  C37: For names without zero characters the map of types behaves like a finite map although it searches sorted arrays: every builtin
  type is found under its name, announcing a type makes it known unless its name is taken and then
  returns the existing entry, no other entry changes, and the array stays sorted. The type of a tuple consists of the types
  its elements had when it was first asked for, null pointers for unknown ones included, and keeps
  them whatever is announced later. Names with zero characters break this: looking up the tuple of
  such a name stores an incomplete type under the part before the zero character, also when that part names a builtin type.
\<close>

theorem type_map_correct:
  assumes "sorted_names fst ts" and "splits_names split_at"
  shows "(t \<in> set sorted_builtin_types \<longrightarrow> find_entry ts (builtin_name t) = Some (Builtin t) \<and> by_type_nr (type_nr t) = Some (Builtin t))
    \<and> sorted_names fst (snd (insert_type n e ts))
    \<and> (nul_free n \<longrightarrow> fst (insert_type n e ts) = (case map_of ts n of None \<Rightarrow> e | Some e' \<Rightarrow> e')
        \<and> (n \<notin> set numbered_type_names \<longrightarrow> find_entry (snd (insert_type n e ts)) n = Some (fst (insert_type n e ts)))
        \<and> (m \<noteq> n \<longrightarrow> find_entry (snd (insert_type n e ts)) m = find_entry ts m))
    \<and> (list_all (\<lambda>n. CHR ''+'' \<notin> set n \<and> take 3 n \<noteq> ''@<>'' \<and> nul_free n) ns \<and> map_of ts (tuple_name ns) = None \<longrightarrow>
        fst (by_uniform_name split_at (tuple_name ns) (announce_all as (snd (by_uniform_name split_at (tuple_name ns) ts))))
          = Some (Meta_Message (map (find_entry ts) ns)))
    \<and> (t \<in> set sorted_builtin_types \<and> CHR ''+'' \<notin> set x \<and> list_all nul_free (map fst ts) \<and> map_of ts (tuple_name [builtin_name t]) = None \<longrightarrow>
        fst (by_uniform_name split_at (tuple_name [builtin_name t])
          (snd (by_uniform_name split_at (tuple_name [builtin_name t @ CHR 0x00 # x]) ts))) = Some (Meta_Message [None]))"
proof (intro conjI impI)
  have b: "list_all (\<lambda>t. by_type_nr (type_nr t) = Some (Builtin t) \<and> nul_free (builtin_name t) \<and> CHR ''+'' \<notin> set (builtin_name t)
      \<and> 3 \<le> length (builtin_name t) \<and> take 3 (builtin_name t) \<noteq> ''@<>'') sorted_builtin_types"
    unfolding nul_free_def by code_simp
  then show "t \<in> set sorted_builtin_types \<Longrightarrow> by_type_nr (type_nr t) = Some (Builtin t)" by (simp add: list_all_iff)
  show "t \<in> set sorted_builtin_types \<Longrightarrow> find_entry ts (builtin_name t) = Some (Builtin t)" by (rule find_entry_builtin)
  show s: "sorted_names fst (snd (insert_type n e ts))" by (rule insert_type_correct(1) [OF assms(1) refl])
  {
    assume "nul_free n"
    note ins = insert_type_correct [OF assms(1) c_name_nul_free [OF this], of e]
    show "fst (insert_type n e ts) = (case map_of ts n of None \<Rightarrow> e | Some e' \<Rightarrow> e')" by (rule ins(3))
    show "n \<notin> set numbered_type_names \<Longrightarrow> find_entry (snd (insert_type n e ts)) n = Some (fst (insert_type n e ts))"
      using find_entry_user [OF ins(1), of n] ins(2,3) by (auto split: option.splits)
    have "map_of (snd (insert_type n e ts)) m = map_of ts m" if "m \<noteq> n" using ins(2) that by simp
    then show "m \<noteq> n \<Longrightarrow> find_entry (snd (insert_type n e ts)) m = find_entry ts m"
      unfolding find_entry_def map_of_find_name [OF ins(1)] map_of_find_name [OF assms(1)] by (simp split: option.split)
  }
  show "fst (by_uniform_name split_at (tuple_name ns) (announce_all as (snd (by_uniform_name split_at (tuple_name ns) ts))))
      = Some (Meta_Message (map (find_entry ts) ns))"
    if "list_all (\<lambda>n. CHR ''+'' \<notin> set n \<and> take 3 n \<noteq> ''@<>'' \<and> nul_free n) ns \<and> map_of ts (tuple_name ns) = None"
    using tuple_name_kept [OF assms(1) _ assms(2)] that by blast
  assume a: "t \<in> set sorted_builtin_types \<and> CHR ''+'' \<notin> set x \<and> list_all nul_free (map fst ts) \<and> map_of ts (tuple_name [builtin_name t]) = None"
  then have "nul_free (builtin_name t)" "CHR ''+'' \<notin> set (builtin_name t)" "take 3 (builtin_name t @ CHR 0x00 # x) \<noteq> ''@<>''"
    using b by (auto simp: list_all_iff)
  note p = nul_name_poisons [OF assms this]
  show "fst (by_uniform_name split_at (tuple_name [builtin_name t])
      (snd (by_uniform_name split_at (tuple_name [builtin_name t @ CHR 0x00 # x]) ts))) = Some (Meta_Message [None])"
    by (rule p) (use a in simp_all)
qed

theorem type_map_correct_witness:
  "find_entry [] ''@str'' = Some (Builtin T_str)
   \<and> fst (by_uniform_name split_plus ''@<>+@i32+foo'' (announce_all [(''foo'', User_Type 7)] (snd (by_uniform_name split_plus ''@<>+@i32+foo'' []))))
     = Some (Meta_Message [Some (Builtin T_i32), None])
   \<and> fst (by_uniform_name split_plus ''@<>+@str'' (snd (by_uniform_name split_plus (''@<>+@str'' @ [CHR 0x00, CHR ''x'']) [])))
     = Some (Meta_Message [None])"
proof -
  have s: "sorted_names fst ([] :: (string \<times> uti_ref) list)" by (simp add: sorted_names_def)
  have n: "tuple_name [''@i32'', ''foo''] = ''@<>+@i32+foo''" "builtin_name T_str = ''@str''" "T_str \<in> set sorted_builtin_types"
    "tuple_name [''@str''] = ''@<>+@str''" "tuple_name [''@str'' @ CHR 0x00 # ''x''] = ''@<>+@str'' @ [CHR 0x00, CHR ''x'']"
    "find_entry [] ''@i32'' = Some (Builtin T_i32)" "find_entry [] ''foo'' = None" by code_simp+
  have m: "list_all (\<lambda>n. CHR ''+'' \<notin> set n \<and> take 3 n \<noteq> ''@<>'' \<and> nul_free n) [''@i32'', ''foo'']" by code_simp
  show ?thesis
    using type_map_correct [OF s split_plus_splits, of T_str "''foo''" "User_Type 7" "''foo''" "[''@i32'', ''foo'']" "[(''foo'', User_Type 7)]" "''x''"] n m
    by simp
qed

end
