(* ===== verification/Message_Wire.thy ===== *)
theory Message_Wire
  imports Type_Map
begin

text \<open>
  Messages on the wire: message::serialize and message::deserialize (message.cpp), the process
  functions of the builtin types (uniform\_type\_info\_map.cpp) and the default policy for lists, sets
  and maps (default\_uniform\_type\_info.hpp). Values of the user's types, floating point numbers (see
  Ieee\_754) and groups, whose modules are polymorphic, are written and read by parameters.
\<close>

section \<open>Combinators\<close>

type_synonym 's sink = "'s \<Rightarrow> io_error + (u8 list \<times> 's)"
type_synonym ('x, 's) source = "u8 list \<Rightarrow> 's \<Rightarrow> io_error + ('x \<times> u8 list \<times> 's)"

record 's codec_env =
  x_write :: "type_id \<Rightarrow> nat \<Rightarrow> 's sink"
  x_read :: "type_id \<Rightarrow> (nat, 's) source"
  group_module :: "group_ptr \<Rightarrow> string"
  group_write :: "group_ptr \<Rightarrow> 's sink"
  group_read :: "string \<Rightarrow> (group_ptr option, 's) source"
  backend :: "node_id \<Rightarrow> u32 \<Rightarrow> 's \<Rightarrow> actor_addr \<times> 's"
  name_split :: "string \<Rightarrow> string list"

definition put_bytes :: "u8 list \<Rightarrow> 's sink" where
  "put_bytes bs s = Inr (bs, s)"

definition then_wr :: "'s sink \<Rightarrow> 's sink \<Rightarrow> 's sink" where
  "then_wr m k s = (case m s of Inl e \<Rightarrow> Inl e
     | Inr (bs, t) \<Rightarrow> (case k t of Inl e \<Rightarrow> Inl e | Inr (cs, u) \<Rightarrow> Inr (bs @ cs, u)))"

fun write_all :: "('x \<Rightarrow> 's sink) \<Rightarrow> 'x list \<Rightarrow> 's sink" where
  "write_all w [] = put_bytes []"
| "write_all w (x # xs) = then_wr (w x) (write_all w xs)"

definition ret_rd :: "'x \<Rightarrow> ('x, 's) source" where
  "ret_rd x bs s = Inr (x, bs, s)"

definition bind_rd :: "('x, 's) source \<Rightarrow> ('x \<Rightarrow> ('y, 's) source) \<Rightarrow> ('y, 's) source" where
  "bind_rd m f bs s = (case m bs s of Inl e \<Rightarrow> Inl e | Inr (x, r, t) \<Rightarrow> f x r t)"

definition lift_rd :: "'x byte_reader \<Rightarrow> ('x, 's) source" where
  "lift_rd m bs s = (case m bs of Inl e \<Rightarrow> Inl (Read_Failed e) | Inr (x, r) \<Rightarrow> Inr (x, r, s))"

definition map_rd :: "('x \<Rightarrow> 'y) \<Rightarrow> ('x, 's) source \<Rightarrow> ('y, 's) source" where
  "map_rd f m = bind_rd m (\<lambda>x. ret_rd (f x))"

fun read_times :: "nat \<Rightarrow> ('x, 's) source \<Rightarrow> ('x list, 's) source" where
  "read_times 0 m = ret_rd []"
| "read_times (Suc n) m = bind_rd m (\<lambda>x. map_rd (\<lambda>xs. x # xs) (read_times n m))"

text \<open>The default policy for lists.\<close>

definition write_seq :: "('x \<Rightarrow> 's sink) \<Rightarrow> 'x list \<Rightarrow> 's sink" where
  "write_seq w xs = then_wr (put_bytes (begin_sequence_out (length xs))) (write_all w xs)"

definition read_seq :: "('x, 's) source \<Rightarrow> ('x list, 's) source" where
  "read_seq m = bind_rd (lift_rd begin_sequence_in) (\<lambda>n. read_times n m)"

section \<open>Builtin types\<close>

definition str_bytes :: "string \<Rightarrow> u8 list" where
  "str_bytes s = map of_char s"

definition bytes_str :: "u8 list \<Rightarrow> string" where
  "bytes_str bs = map (\<lambda>b. char_of (unat b)) bs"

definition write_str :: "string \<Rightarrow> 's sink" where
  "write_str s = put_bytes (write_string (str_bytes s))"

definition read_str :: "(string, 's) source" where
  "read_str = map_rd bytes_str (lift_rd read_string)"

definition write_addr :: "actor_addr \<Rightarrow> 'a nspace_scheme sink" where
  "write_addr a s = Inr (ns_write a s)"

definition read_addr :: "'a nspace_scheme codec_env \<Rightarrow> (actor_addr, 'a nspace_scheme) source" where
  "read_addr X = ns_read (backend X)"

definition write_group :: "'a nspace_scheme codec_env \<Rightarrow> group_ptr option \<Rightarrow> 'a nspace_scheme sink" where
  "write_group X g = (case g of None \<Rightarrow> write_str [] | Some p \<Rightarrow> then_wr (write_str (group_module X p)) (group_write X p))"

definition read_group :: "'a nspace_scheme codec_env \<Rightarrow> (group_ptr option, 'a nspace_scheme) source" where
  "read_group X = bind_rd read_str (\<lambda>m. if m = [] then ret_rd None else group_read X m)"

definition write_channel :: "'a nspace_scheme codec_env \<Rightarrow> (nat + group_ptr) option \<Rightarrow> 'a nspace_scheme sink" where
  "write_channel X c = (case c of
     None \<Rightarrow> put_bytes (int_bytes (0 :: u8))
   | Some (Inl a) \<Rightarrow> then_wr (put_bytes (int_bytes (1 :: u8))) (write_addr (Some a))
   | Some (Inr g) \<Rightarrow> then_wr (put_bytes (int_bytes (2 :: u8))) (write_group X (Some g)))"

definition read_channel :: "'a nspace_scheme codec_env \<Rightarrow> ((nat + group_ptr) option, 'a nspace_scheme) source" where
  "read_channel X = bind_rd (lift_rd (read_int :: u8 byte_reader)) (\<lambda>flag.
     if flag = 0 then ret_rd None
     else if flag = 1 then map_rd (map_option Inl) (read_addr X)
     else if flag = 2 then map_rd (map_option Inr) (read_group X)
     else (\<lambda>bs s. Inl (Runtime_Error ''invalid flag'')))"

fun unit_value :: "time_unit \<Rightarrow> u32" where
  "unit_value invalid_unit = 0"
| "unit_value seconds = 1"
| "unit_value milliseconds = 1000"
| "unit_value microseconds = 1000000"

definition unit_of_value :: "u32 \<Rightarrow> time_unit" where
  "unit_of_value v = (if v = 1 then seconds else if v = 1000 then milliseconds
     else if v = 1000000 then microseconds else invalid_unit)"

definition write_duration :: "duration \<Rightarrow> 's sink" where
  "write_duration d = put_bytes (int_bytes (unit_value (unit_of d)) @ int_bytes (count_of d))"

definition read_duration :: "(duration, 's) source" where
  "read_duration = bind_rd (lift_rd read_int) (\<lambda>u. map_rd (Duration (unit_of_value u)) (lift_rd read_int))"

text \<open>Down, exit and sync-exited messages have the same fields.\<close>

definition write_obituary :: "actor_addr \<Rightarrow> u32 \<Rightarrow> 'a nspace_scheme sink" where
  "write_obituary a r = then_wr (write_addr a) (put_bytes (int_bytes r))"

definition read_obituary :: "'a nspace_scheme codec_env \<Rightarrow> (actor_addr \<times> u32, 'a nspace_scheme) source" where
  "read_obituary X = bind_rd (read_addr X) (\<lambda>a. map_rd (Pair a) (lift_rd read_int))"

text \<open>A std::map of strings keeps the first of several entries of a key.\<close>

fun map_insert :: "string \<times> string \<Rightarrow> (string \<times> string) list \<Rightarrow> (string \<times> string) list" where
  "map_insert e [] = [e]"
| "map_insert e (f # m) = (if string_less (fst e) (fst f) then e # f # m
     else if string_less (fst f) (fst e) then f # map_insert e m else f # m)"

fun strset_insert :: "string \<Rightarrow> string list \<Rightarrow> string list" where
  "strset_insert s [] = [s]"
| "strset_insert s (t # ts) = (if string_less s t then s # t # ts
     else if string_less t s then t # strset_insert s ts else t # ts)"

definition write_pair :: "string \<times> string \<Rightarrow> 's sink" where
  "write_pair e = then_wr (write_str (fst e)) (write_str (snd e))"

definition read_pair :: "(string \<times> string, 's) source" where
  "read_pair = bind_rd read_str (\<lambda>k. map_rd (Pair k) read_str)"

text \<open>The name of the type of an element, and the bytes of everything but messages.\<close>

definition uniform_name :: "(string \<times> uti_ref) list \<Rightarrow> type_id \<Rightarrow> string" where
  "uniform_name ts t = (if type_nr t \<noteq> 0 then builtin_name t
     else (case rtti_of t of None \<Rightarrow> ''-invalid-''
       | Some k \<Rightarrow> (case find (\<lambda>e. snd e = User_Type k) ts of Some (n, _) \<Rightarrow> n | None \<Rightarrow> ''-invalid-'')))"

fun write_builtin :: "'a nspace_scheme codec_env \<Rightarrow> elem \<Rightarrow> 'a nspace_scheme sink" where
  "write_builtin X (Actor a) = write_addr a"
| "write_builtin X (Actorvec as) = write_seq write_addr as"
| "write_builtin X (Addr a) = write_addr a"
| "write_builtin X (Addrvec as) = write_seq write_addr as"
| "write_builtin X (Atom v) = put_bytes (int_bytes v)"
| "write_builtin X (Channel c) = write_channel X c"
| "write_builtin X (Charbuf bs) = write_seq (\<lambda>b. put_bytes (int_bytes b)) bs"
| "write_builtin X (Down a r) = write_obituary a r"
| "write_builtin X (Dur d) = write_duration d"
| "write_builtin X (Exit a r) = write_obituary a r"
| "write_builtin X (Group g) = write_group X g"
| "write_builtin X (Group_Down g) = write_group X g"
| "write_builtin X (I16 v) = put_bytes (int_bytes v)"
| "write_builtin X (I32 v) = put_bytes (int_bytes v)"
| "write_builtin X (I64 v) = put_bytes (int_bytes v)"
| "write_builtin X (I8 v) = put_bytes (int_bytes v)"
| "write_builtin X (Msg es) = put_bytes []"
| "write_builtin X (Mid i) = put_bytes (int_bytes (integer_value i))"
| "write_builtin X (Node n) = put_bytes (write_node n)"
| "write_builtin X (Str s) = write_str s"
| "write_builtin X (Strmap m) = write_seq write_pair m"
| "write_builtin X (Strset ss) = write_seq write_str ss"
| "write_builtin X (Strvec ss) = write_seq write_str ss"
| "write_builtin X (Sync_Exited a r) = write_obituary a r"
| "write_builtin X Sync_Timeout = put_bytes []"
| "write_builtin X (Timeout i) = put_bytes (int_bytes i)"
| "write_builtin X (U16 v) = put_bytes (int_bytes v)"
| "write_builtin X (U16str us) = put_bytes (write_units us)"
| "write_builtin X (U32 v) = put_bytes (int_bytes v)"
| "write_builtin X (U32str us) = put_bytes (write_units us)"
| "write_builtin X (U64 v) = put_bytes (int_bytes v)"
| "write_builtin X (U8 v) = put_bytes (int_bytes v)"
| "write_builtin X Unit = put_bytes []"
| "write_builtin X (Bool b) = put_bytes (int_bytes (if b then 1 else 0 :: u8))"
| "write_builtin X (Opaque t k) = x_write X t k"

text \<open>Reading everything but messages.\<close>

definition rd_int :: "('w::len word \<Rightarrow> elem) \<Rightarrow> (elem, 's) source" where
  "rd_int c = map_rd c (lift_rd read_int)"

fun read_builtin :: "'a nspace_scheme codec_env \<Rightarrow> type_id \<Rightarrow> (elem, 'a nspace_scheme) source" where
  "read_builtin X T_actor = map_rd Actor (read_addr X)"
| "read_builtin X T_actorvec = map_rd Actorvec (read_seq (read_addr X))"
| "read_builtin X T_addr = map_rd Addr (read_addr X)"
| "read_builtin X T_addrvec = map_rd Addrvec (read_seq (read_addr X))"
| "read_builtin X T_atom = rd_int Atom"
| "read_builtin X T_channel = map_rd Channel (read_channel X)"
| "read_builtin X T_charbuf = map_rd Charbuf (read_seq (lift_rd read_int))"
| "read_builtin X T_down = map_rd (\<lambda>(a, r). Down a r) (read_obituary X)"
| "read_builtin X T_duration = map_rd Dur read_duration"
| "read_builtin X T_exit = map_rd (\<lambda>(a, r). Exit a r) (read_obituary X)"
| "read_builtin X T_group = map_rd Group (read_group X)"
| "read_builtin X T_group_down = map_rd Group_Down (read_group X)"
| "read_builtin X T_i16 = rd_int I16"
| "read_builtin X T_i32 = rd_int I32"
| "read_builtin X T_i64 = rd_int I64"
| "read_builtin X T_i8 = rd_int I8"
| "read_builtin X T_ldouble = map_rd (Opaque T_ldouble) (x_read X T_ldouble)"
| "read_builtin X T_message = ret_rd (Msg [])"
| "read_builtin X T_message_id = rd_int (\<lambda>v. Mid (from_integer_value v))"
| "read_builtin X T_node = map_rd Node (lift_rd read_node)"
| "read_builtin X T_str = map_rd Str read_str"
| "read_builtin X T_strmap = map_rd (\<lambda>es. Strmap (fold map_insert es [])) (read_seq read_pair)"
| "read_builtin X T_strset = map_rd (\<lambda>ss. Strset (fold strset_insert ss [])) (read_seq read_str)"
| "read_builtin X T_strvec = map_rd Strvec (read_seq read_str)"
| "read_builtin X T_sync_exited = map_rd (\<lambda>(a, r). Sync_Exited a r) (read_obituary X)"
| "read_builtin X T_sync_timeout = ret_rd Sync_Timeout"
| "read_builtin X T_timeout = rd_int Timeout"
| "read_builtin X T_u16 = rd_int U16"
| "read_builtin X T_u16str = map_rd U16str (lift_rd read_unicode_string)"
| "read_builtin X T_u32 = rd_int U32"
| "read_builtin X T_u32str = map_rd U32str (lift_rd read_unicode_string)"
| "read_builtin X T_u64 = rd_int U64"
| "read_builtin X T_u8 = rd_int U8"
| "read_builtin X T_unit = ret_rd Unit"
| "read_builtin X T_bool = rd_int (\<lambda>v :: u8. Bool (v \<noteq> 0))"
| "read_builtin X T_double = map_rd (Opaque T_double) (x_read X T_double)"
| "read_builtin X T_float = map_rd (Opaque T_float) (x_read X T_float)"
| "read_builtin X (T_custom k) = map_rd (Opaque (T_custom k)) (x_read X (T_custom k))"

section \<open>Messages\<close>

text \<open>
  message::serialize: the name of the tuple, which announces its type if needed, and the elements.
  The type info of an element is looked up by name; a type that was not announced throws.
\<close>

definition begin_tuple :: "'a nspace_scheme codec_env \<Rightarrow> elem list \<Rightarrow> 'a nspace_scheme sink" where
  "begin_tuple X es s = (let tname = tuple_name (map (\<lambda>e. uniform_name (user_types s) (type_of e)) es) in
     case by_uniform_name (name_split X) tname (user_types s) of
       (None, ts) \<Rightarrow> Inl (Runtime_Error ''could not get uniform type info'')
     | (Some u, ts) \<Rightarrow> Inr (begin_object_out \<lparr>uti_nr = 0, uti_name = str_bytes tname\<rparr>, s\<lparr>user_types := ts\<rparr>))"

definition known_type :: "elem \<Rightarrow> 'a nspace_scheme sink" where
  "known_type e s = (if find_entry (user_types s) (uniform_name (user_types s) (type_of e)) = None
     then Inl (Runtime_Error ''is an unknown typeid name'') else Inr ([], s))"

fun write_elem :: "'a nspace_scheme codec_env \<Rightarrow> elem \<Rightarrow> 'a nspace_scheme sink"
  and write_elems :: "'a nspace_scheme codec_env \<Rightarrow> elem list \<Rightarrow> 'a nspace_scheme sink" where
  "write_elem X (Msg es) = then_wr (begin_tuple X es) (write_elems X es)"
| "write_elem X e = write_builtin X e"
| "write_elems X [] = put_bytes []"
| "write_elems X (e # es) = then_wr (known_type e) (then_wr (write_elem X e) (write_elems X es))"

definition write_msg :: "'a nspace_scheme codec_env \<Rightarrow> elem list \<Rightarrow> 'a nspace_scheme sink" where
  "write_msg X es = then_wr (begin_tuple X es) (write_elems X es)"

text \<open>
  message::deserialize: the object is created and read by whatever type the header names, and the
  result is taken for a message. Creating a tuple dereferences the types of its elements.
\<close>

definition begin_object_rd :: "'a nspace_scheme codec_env \<Rightarrow> (uti_ref, 'a nspace_scheme) source" where
  "begin_object_rd X = bind_rd (lift_rd (read_int :: u16 byte_reader)) (\<lambda>nr.
     if nr \<noteq> 0 then (\<lambda>bs s. case by_type_nr nr of None \<Rightarrow> Inl Out_Of_Bounds | Some u \<Rightarrow> Inr (u, bs, s))
     else bind_rd (lift_rd read_string) (\<lambda>n bs s. case by_uniform_name (name_split X) (bytes_str n) (user_types s) of
         (None, ts) \<Rightarrow> Inl (Read_Failed (Unknown_Type_Name n))
       | (Some u, ts) \<Rightarrow> Inr (u, bs, s\<lparr>user_types := ts\<rparr>)))"

fun creatable :: "uti_ref \<Rightarrow> bool" where
  "creatable (Meta_Message us) = list_all (\<lambda>x. case x of None \<Rightarrow> False | Some u \<Rightarrow> creatable u) us"
| "creatable (Builtin t) = True"
| "creatable (User_Type k) = True"

function (sequential) read_msg :: "'a nspace_scheme codec_env \<Rightarrow> nat \<Rightarrow> (elem list, 'a nspace_scheme) source"
  and read_val :: "'a nspace_scheme codec_env \<Rightarrow> nat \<Rightarrow> uti_ref \<Rightarrow> (elem, 'a nspace_scheme) source"
  and read_vals :: "'a nspace_scheme codec_env \<Rightarrow> nat \<Rightarrow> uti_ref option list \<Rightarrow> (elem list, 'a nspace_scheme) source" where
  "read_msg X 0 = (\<lambda>bs s. Inl Out_Of_Fuel)"
| "read_msg X (Suc f) = bind_rd (begin_object_rd X) (\<lambda>u. case u of
     Meta_Message us \<Rightarrow> if creatable u then read_vals X f us else (\<lambda>bs s. Inl Null_Pointer)
   | _ \<Rightarrow> if u = Builtin T_message then read_msg X f
       else bind_rd (read_val X f u) (\<lambda>x bs s. Inl Type_Confusion))"
| "read_val X f (Builtin t) = (if t = T_message then map_rd Msg (read_msg X f) else read_builtin X t)"
| "read_val X f (User_Type k) = read_builtin X (T_custom k)"
| "read_val X f (Meta_Message us) = map_rd Msg (read_vals X f us)"
| "read_vals X f [] = ret_rd []"
| "read_vals X f (None # us) = (\<lambda>bs s. Inl Null_Pointer)"
| "read_vals X f (Some u # us) = bind_rd (read_val X f u) (\<lambda>x. map_rd (\<lambda>xs. x # xs) (read_vals X f us))"
  by pat_completeness auto

termination
  by (relation "measures [case_sum (\<lambda>(X, f). f) (case_sum (\<lambda>(X, f, u). f) (\<lambda>(X, f, us). f)),
      case_sum (\<lambda>_. 0) (case_sum (\<lambda>(X, f, u). Suc (size u)) (\<lambda>(X, f, us). Suc (size_list (size_option size) us)))]") simp_all

section \<open>Readers consume input\<close>

text \<open>A reader never gives bytes back, and running out of fuel is not one of its errors.\<close>

definition shrinks :: "('x, 's) source \<Rightarrow> bool" where
  "shrinks m \<longleftrightarrow> (\<forall>bs s. case m bs s of Inl e \<Rightarrow> e \<noteq> Out_Of_Fuel | Inr (x, r, t) \<Rightarrow> length r \<le> length bs)"

lemma shrinksD:
  "shrinks m \<Longrightarrow> m bs s \<noteq> Inl Out_Of_Fuel" "shrinks m \<Longrightarrow> m bs s = Inr (x, r, t) \<Longrightarrow> length r \<le> length bs"
  by (auto simp: shrinks_def dest!: spec [of _ bs] spec [of _ s])

lemma shrinksI:
  "(\<And>bs s. m bs s \<noteq> Inl Out_Of_Fuel) \<Longrightarrow> (\<And>bs s x r t. m bs s = Inr (x, r, t) \<Longrightarrow> length r \<le> length bs) \<Longrightarrow> shrinks m"
  by (auto simp: shrinks_def split: sum.splits)

named_theorems shrink_rules

lemma shrinks_ret [shrink_rules]: "shrinks (ret_rd x)"
  by (simp add: shrinks_def ret_rd_def)

lemma shrinks_error [shrink_rules]: "e \<noteq> Out_Of_Fuel \<Longrightarrow> shrinks (\<lambda>bs s. Inl e)"
  by (simp add: shrinks_def)

lemma shrinks_bind [shrink_rules]:
  assumes "shrinks m" and "\<And>x. shrinks (f x)"
  shows "shrinks (bind_rd m f)"
proof (rule shrinksI)
  fix bs s
  show "bind_rd m f bs s \<noteq> Inl Out_Of_Fuel"
    using shrinksD(1) [OF assms(1), of bs s] shrinksD(1) [OF assms(2)] by (auto simp: bind_rd_def split: sum.splits)
next
  fix bs s x r t assume "bind_rd m f bs s = Inr (x, r, t)"
  then obtain y q u where "m bs s = Inr (y, q, u)" "f y q u = Inr (x, r, t)"
    by (auto simp: bind_rd_def split: sum.splits)
  then show "length r \<le> length bs" using shrinksD(2) [OF assms(1)] shrinksD(2) [OF assms(2)] by fastforce
qed

lemma shrinks_map [shrink_rules]: "shrinks m \<Longrightarrow> shrinks (map_rd f m)"
  unfolding map_rd_def by (intro shrinks_bind shrinks_ret)

lemma shrinks_times: "shrinks m \<Longrightarrow> shrinks (read_times n m)"
  by (induction n) (auto intro!: shrink_rules)

text \<open>The readers of bytes.\<close>

definition consumes :: "'x byte_reader \<Rightarrow> bool" where
  "consumes m \<longleftrightarrow> (\<forall>bs x r. m bs = Inr (x, r) \<longrightarrow> length r \<le> length bs)"

lemma consumes_bind: "consumes m \<Longrightarrow> (\<And>x. consumes (f x)) \<Longrightarrow> consumes (bind_reader m f)"
  by (fastforce simp: consumes_def bind_reader_def split: sum.splits)

lemma consumes_return: "consumes (\<lambda>r. Inr (x, r))"
  by (simp add: consumes_def)

lemma consumes_raw: "consumes (read_raw n)"
  by (auto simp: consumes_def read_raw_def split: if_splits)

lemma consumes_int: "consumes read_int"
  unfolding read_int_def by (intro consumes_bind consumes_raw consumes_return)

lemma consumes_map: "consumes m \<Longrightarrow> consumes (map_reader f m)"
  unfolding map_reader_def by (intro consumes_bind consumes_return)

lemma consumes_string: "consumes read_string"
  unfolding read_string_def by (intro consumes_bind consumes_int consumes_raw)

lemma consumes_units: "consumes (read_units n :: 'w::len word list byte_reader)"
proof (induction n)
  case (Suc n)
  have "consumes (bind_reader read_int (\<lambda>c :: 'w word. bind_reader (read_units n) (\<lambda>cs r. Inr (c # cs, r))))"
    by (intro consumes_bind consumes_int consumes_return Suc)
  then show ?case by (simp add: consumes_def)
qed (simp add: consumes_def)

lemma consumes_unicode: "consumes read_unicode_string"
  unfolding read_unicode_string_def by (intro consumes_bind consumes_int consumes_units)

lemma consumes_node: "consumes read_node"
  unfolding read_node_def by (intro consumes_bind consumes_map consumes_raw consumes_int)

lemma consumes_sequence: "consumes begin_sequence_in"
  unfolding begin_sequence_in_def by (intro consumes_map consumes_int)

lemmas consume_rules = consumes_int consumes_string consumes_unicode consumes_node consumes_sequence

lemma shrinks_lift [shrink_rules]: "consumes m \<Longrightarrow> shrinks (lift_rd m)"
  by (auto simp: shrinks_def lift_rd_def consumes_def split: sum.splits)

lemma shrinks_seq [shrink_rules]: "shrinks m \<Longrightarrow> shrinks (read_seq m)"
  unfolding read_seq_def by (intro shrinks_bind shrinks_lift consume_rules shrinks_times)

lemma shrinks_str [shrink_rules]: "shrinks read_str"
  unfolding read_str_def by (intro shrink_rules consume_rules)

lemma consumes_addr_fields: "consumes read_addr_fields"
  unfolding read_addr_fields_def by (intro consumes_bind consumes_map consumes_raw consumes_int)

lemma shrinks_addr [shrink_rules]: "shrinks (read_addr X)"
  using consumes_addr_fields
  by (intro shrinksI) (auto simp: read_addr_def ns_read_def consumes_def split: sum.splits if_splits prod.splits option.splits)

text \<open>What the parameters promise.\<close>

definition good_env :: "'a nspace_scheme codec_env \<Rightarrow> bool" where
  "good_env X \<longleftrightarrow> (\<forall>t. shrinks (x_read X t)) \<and> (\<forall>m. shrinks (group_read X m)) \<and> splits_names (name_split X)"

lemma shrinks_group: "good_env X \<Longrightarrow> shrinks (read_group X)"
  unfolding read_group_def by (intro shrink_rules) (simp add: good_env_def shrinks_ret)

lemma shrinks_channel: "good_env X \<Longrightarrow> shrinks (read_channel X)"
  unfolding read_channel_def by (auto intro!: shrink_rules consume_rules shrinks_group)

lemma shrinks_builtin: "good_env X \<Longrightarrow> shrinks (read_builtin X t)"
  by (cases t) (auto simp: rd_int_def read_duration_def read_obituary_def read_pair_def good_env_def
      intro!: shrink_rules consume_rules shrinks_group shrinks_channel)

lemma begin_object_consumes:
  "begin_object_rd X bs s \<noteq> Inl Out_Of_Fuel \<and> (begin_object_rd X bs s = Inr (u, r, t) \<longrightarrow> length r + 2 \<le> length bs)"
proof (cases "read_int bs :: read_error + (u16 \<times> u8 list)")
  case (Inl e)
  then show ?thesis by (simp add: begin_object_rd_def bind_rd_def lift_rd_def)
next
  case (Inr p)
  obtain nr q where p: "p = (nr, q)" by force
  then have l: "length q + 2 = length bs"
    using Inr by (auto simp: read_int_def bind_reader_def read_raw_def split: if_splits)
  have c: "length q' \<le> length q" if "read_string q = Inr (n, q')" for n q'
    using consumes_string that by (auto simp: consumes_def)
  show ?thesis using Inr p l
    by (auto simp: begin_object_rd_def bind_rd_def lift_rd_def split: option.splits sum.splits prod.splits dest!: c)
qed

text \<open>Every message is read with the fuel its bytes give: each nested message takes two bytes at least.\<close>

definition enough :: "nat \<Rightarrow> ('x, 's) source \<Rightarrow> bool" where
  "enough f m \<longleftrightarrow> (\<forall>bs s. length bs < f \<longrightarrow> (case m bs s of Inl e \<Rightarrow> e \<noteq> Out_Of_Fuel | Inr (x, r, t) \<Rightarrow> length r \<le> length bs))"

lemma enough_shrinks: "shrinks m \<Longrightarrow> enough f m"
  by (simp add: shrinks_def enough_def)

lemma enough_bind:
  assumes "enough f m" and "\<And>x. enough f (k x)"
  shows "enough f (bind_rd m k)"
  unfolding enough_def
proof (intro allI impI)
  fix bs :: "u8 list" and s assume l: "length bs < f"
  show "case bind_rd m k bs s of Inl e \<Rightarrow> e \<noteq> Out_Of_Fuel | Inr (x, r, t) \<Rightarrow> length r \<le> length bs"
  proof (cases "m bs s")
    case (Inl e)
    then show ?thesis using assms(1) l by (auto simp: enough_def bind_rd_def dest!: spec [of _ bs] spec [of _ s])
  next
    case (Inr p)
    obtain x r t where p: "p = (x, r, t)" by (cases p) auto
    then have r: "length r \<le> length bs" using assms(1) l Inr by (auto simp: enough_def dest!: spec [of _ bs] spec [of _ s])
    then have "case k x r t of Inl e \<Rightarrow> e \<noteq> Out_Of_Fuel | Inr (x, r', t') \<Rightarrow> length r' \<le> length r"
      using assms(2) [of x] l by (simp add: enough_def)
    then show ?thesis using Inr p r by (auto simp: bind_rd_def split: sum.splits)
  qed
qed

lemma enough_map: "enough f m \<Longrightarrow> enough f (map_rd g m)"
  unfolding map_rd_def by (rule enough_bind, assumption, intro enough_shrinks shrinks_ret)

lemma enough_object:
  assumes "\<And>u. enough f (k u)"
  shows "enough (Suc f) (bind_rd (begin_object_rd X) k)"
  unfolding enough_def
proof (intro allI impI)
  fix bs :: "u8 list" and s assume l: "length bs < Suc f"
  show "case bind_rd (begin_object_rd X) k bs s of Inl e \<Rightarrow> e \<noteq> Out_Of_Fuel | Inr (x, r, t) \<Rightarrow> length r \<le> length bs"
  proof (cases "begin_object_rd X bs s")
    case (Inl e)
    then show ?thesis using begin_object_consumes [of X bs s] by (auto simp: bind_rd_def)
  next
    case (Inr p)
    obtain u r t where p: "p = (u, r, t)" by (cases p) auto
    then have r: "length r + 2 \<le> length bs" using begin_object_consumes [of X bs s u r t] Inr by simp
    then have "case k u r t of Inl e \<Rightarrow> e \<noteq> Out_Of_Fuel | Inr (x, r', t') \<Rightarrow> length r' \<le> length r"
      using assms [of u] l by (simp add: enough_def)
    then show ?thesis using Inr p r by (auto simp: bind_rd_def split: sum.splits)
  qed
qed

lemma read_enough:
  fixes X :: "'a nspace_scheme codec_env"
  shows "good_env X \<Longrightarrow> enough f (read_msg X f)" and "good_env X \<Longrightarrow> enough f (read_val X f u)"
    and "good_env X \<Longrightarrow> enough f (read_vals X f us)"
proof (induction X f and X f u and X f us rule: read_msg_read_val_read_vals.induct)
  case (1 X)
  then show ?case by (simp add: enough_def)
next
  case (2 X f)
  have e: "enough f (\<lambda>bs s. Inl e :: io_error + elem list \<times> u8 list \<times> 'a nspace_scheme)" if "e \<noteq> Out_Of_Fuel" for e
    using that by (intro enough_shrinks shrinks_error)
  show ?case unfolding read_msg.simps
  proof (rule enough_object)
    fix u
    show "enough f (case u of Meta_Message us \<Rightarrow> if creatable u then read_vals X f us else (\<lambda>bs s. Inl Null_Pointer)
      | _ \<Rightarrow> if u = Builtin T_message then read_msg X f else bind_rd (read_val X f u) (\<lambda>x bs s. Inl Type_Confusion))"
      using 2 e by (cases u) (auto intro!: enough_bind simp del: read_val.simps creatable.simps)
  qed
next
  case (3 X f t)
  then show ?case by (auto intro: enough_map enough_shrinks shrinks_builtin)
next
  case (4 X f k)
  then show ?case using shrinks_builtin [OF 4, of "T_custom k"] by (auto intro: enough_shrinks)
qed (auto intro: enough_map enough_bind enough_shrinks shrinks_error shrinks_ret)

section \<open>Round trip of values\<close>

text \<open>The bytes a value is written to do not depend on the node, and reading them gives the value back.\<close>

definition codes :: "'s sink \<Rightarrow> ('x, 's) source \<Rightarrow> 'x \<Rightarrow> bool" where
  "codes w m x \<longleftrightarrow> (\<exists>b. (\<forall>s. w s = Inr (b, s)) \<and> (\<forall>r d. m (b @ r) d = Inr (x, r, d)))"

named_theorems code_rules

lemma codes_ret [code_rules]: "codes (put_bytes []) (ret_rd x) x"
  by (simp add: codes_def put_bytes_def ret_rd_def)

lemma codes_lift: "(\<And>r. m (b @ r) = Inr (x, r)) \<Longrightarrow> codes (put_bytes b) (lift_rd m) x"
  by (simp add: codes_def put_bytes_def lift_rd_def)

lemma codes_map [code_rules]: "codes w m x \<Longrightarrow> y = f x \<Longrightarrow> codes w (map_rd f m) y"
  by (auto simp: codes_def map_rd_def bind_rd_def ret_rd_def)

lemma codes_bind [code_rules]: "codes v m x \<Longrightarrow> codes w (f x) y \<Longrightarrow> codes (then_wr v w) (bind_rd m f) y"
  by (fastforce simp: codes_def then_wr_def bind_rd_def)

lemma codes_int [code_rules]: "8 dvd LENGTH('w::len) \<Longrightarrow> codes (put_bytes (int_bytes (v :: 'w word))) (lift_rd read_int) v"
  by (rule codes_lift) simp

lemma codes_times: "list_all (\<lambda>x. codes (w x) m x) xs \<Longrightarrow> codes (write_all w xs) (read_times (length xs) m) xs"
  by (induction xs) (auto intro!: codes_ret codes_bind codes_map)

lemma codes_seq [code_rules]:
  assumes "list_all (\<lambda>x. codes (w x) m x) xs" and "length xs < 2 ^ 32"
  shows "codes (write_seq w xs) (read_seq m) xs"
  unfolding write_seq_def read_seq_def
proof (rule codes_bind)
  show "codes (put_bytes (begin_sequence_out (length xs))) (lift_rd begin_sequence_in) (length xs)"
    using assms(2) by (intro codes_lift sequence_roundtrip)
  show "codes (write_all w xs) (read_times (length xs) m) xs" using assms(1) by (rule codes_times)
qed

lemma bytes_str_bytes [simp]: "bytes_str (str_bytes s) = s"
proof -
  have "char_of (unat (of_char c :: u8)) = c" for c
  proof -
    have "(of_char c :: u8) = of_nat (of_char c)" by (simp add: of_nat_of_char)
    moreover have "of_char c < (2 :: nat) ^ 8" using nat_of_char_less_256 [of c] by simp
    ultimately have "unat (of_char c :: u8) = of_char c" using unat_of_nat_small [of "of_char c" 8, where 'w = 8] by simp
    then show ?thesis by simp
  qed
  then show ?thesis by (simp add: bytes_str_def str_bytes_def comp_def)
qed

lemma length_str_bytes [simp]: "length (str_bytes s) = length s"
  by (simp add: str_bytes_def)

lemma codes_str [code_rules]: "length s < 2 ^ 32 \<Longrightarrow> codes (write_str s) read_str s"
  unfolding write_str_def read_str_def by (rule codes_map, rule codes_lift, rule read_string_bytes) simp_all

lemma codes_pair: "length (fst e) < 2 ^ 32 \<Longrightarrow> length (snd e) < 2 ^ 32 \<Longrightarrow> codes (write_pair e) read_pair e"
  unfolding write_pair_def read_pair_def by (auto intro!: code_rules)

lemma codes_no_addr [code_rules]: "codes (write_addr None) (read_addr X) None"
proof -
  have "ns_read (backend X) ((int_bytes (0 :: u32) @ replicate host_id_size 0 @ int_bytes (0 :: u32)) @ r) d = Inr (None, r, d)" for r d
    using read_addr_fields_bytes [of "replicate host_id_size 0" 0 0 r] by (simp add: ns_read_def)
  then show ?thesis unfolding codes_def write_addr_def read_addr_def ns_write_def by (intro exI conjI) auto
qed

lemma write_duration_fields:
  "write_duration d = then_wr (put_bytes (int_bytes (unit_value (unit_of d)))) (put_bytes (int_bytes (count_of d)))"
  by (simp add: write_duration_def put_bytes_def then_wr_def fun_eq_iff)

lemma codes_duration: "codes (write_duration d) read_duration d"
proof -
  have "unit_of_value (unit_value u) = u" for u by (cases u) (simp_all add: unit_of_value_def)
  then show ?thesis unfolding write_duration_fields read_duration_def by (auto intro!: code_rules)
qed

lemma map_insert_last: "list_all (\<lambda>f. string_less (fst f) (fst e)) m \<Longrightarrow> map_insert e m = m @ [e]"
  by (induction m) (auto dest: string_less_trans)

lemma fold_map_insert: "sorted_names fst (acc @ es) \<Longrightarrow> fold map_insert es acc = acc @ es"
proof (induction es arbitrary: acc)
  case (Cons e es)
  then have "map_insert e acc = acc @ [e]"
    by (intro map_insert_last) (auto simp: sorted_names_def sorted_wrt_append list_all_iff)
  then show ?case using Cons.IH [of "acc @ [e]"] Cons.prems by simp
qed simp

lemma strset_insert_last: "list_all (\<lambda>t. string_less t s) ts \<Longrightarrow> strset_insert s ts = ts @ [s]"
  by (induction ts) (auto dest: string_less_trans)

lemma fold_strset_insert: "sorted_names id (acc @ ss) \<Longrightarrow> fold strset_insert ss acc = acc @ ss"
proof (induction ss arbitrary: acc)
  case (Cons s ss)
  then have "strset_insert s acc = acc @ [s]"
    by (intro strset_insert_last) (auto simp: sorted_names_def sorted_wrt_append list_all_iff)
  then show ?case using Cons.IH [of "acc @ [s]"] Cons.prems by simp
qed simp

text \<open>
  Values that mean the same on every node: no floating point numbers, no handles or addresses of actors, no
  channels or groups other than null ones, no values of the user's types, and no lengths beyond 32
  bits. (Handles are translated to proxies of the receiving node by the namespace, the values of user-defined
  types and floating point numbers are written by the codecs of the environment.)
\<close>

fun plain :: "elem \<Rightarrow> bool" where
  "plain (Actor a) = (a = None)"
| "plain (Actorvec as) = (length as < 2 ^ 32 \<and> list_all (\<lambda>a. a = None) as)"
| "plain (Addr a) = (a = None)"
| "plain (Addrvec as) = (length as < 2 ^ 32 \<and> list_all (\<lambda>a. a = None) as)"
| "plain (Channel c) = (c = None)"
| "plain (Charbuf bs) = (length bs < 2 ^ 32)"
| "plain (Down a r) = (a = None)"
| "plain (Exit a r) = (a = None)"
| "plain (Group g) = (g = None)"
| "plain (Group_Down g) = (g = None)"
| "plain (Msg es) = (list_all plain es \<and> length (tuple_name (map (\<lambda>e. builtin_name (type_of e)) es)) < 2 ^ 32)"
| "plain (Node n) = wire_node n"
| "plain (Str s) = (length s < 2 ^ 32)"
| "plain (Strmap m) = (length m < 2 ^ 32 \<and> sorted_names fst m \<and> list_all (\<lambda>e. length (fst e) < 2 ^ 32 \<and> length (snd e) < 2 ^ 32) m)"
| "plain (Strset ss) = (length ss < 2 ^ 32 \<and> sorted_names id ss \<and> list_all (\<lambda>s. length s < 2 ^ 32) ss)"
| "plain (Strvec ss) = (length ss < 2 ^ 32 \<and> list_all (\<lambda>s. length s < 2 ^ 32) ss)"
| "plain (Sync_Exited a r) = (a = None)"
| "plain (U16str us) = (length us < 2 ^ 32)"
| "plain (U32str us) = (length us < 2 ^ 32)"
| "plain (Opaque t k) = False"
| "plain e = True"

definition is_msg :: "elem \<Rightarrow> bool" where
  "is_msg e \<longleftrightarrow> (\<exists>es. e = Msg es)"

lemma codes_no_group: "codes (write_group X None) (read_group X) None"
proof -
  have "codes (write_str []) read_str []" by (rule codes_str) simp
  then obtain b where b: "\<And>s. write_str [] s = Inr (b, s :: 'a nspace_scheme)" "\<And>r d. read_str (b @ r) d = Inr ([], r, d :: 'a nspace_scheme)"
    unfolding codes_def by blast
  then show ?thesis unfolding codes_def by (intro exI [of _ b]) (simp add: write_group_def read_group_def bind_rd_def ret_rd_def)
qed

lemma codes_no_channel: "codes (write_channel X None) (read_channel X) None"
proof -
  have "codes (put_bytes (int_bytes (0 :: u8))) (lift_rd read_int) (0 :: u8)" by (rule codes_int) simp
  then obtain b where b: "\<And>s. put_bytes (int_bytes (0 :: u8)) s = Inr (b, s :: 'a nspace_scheme)"
    "\<And>r d. lift_rd read_int (b @ r) d = Inr (0 :: u8, r, d :: 'a nspace_scheme)"
    unfolding codes_def by blast
  then show ?thesis unfolding codes_def by (intro exI [of _ b]) (simp add: write_channel_def read_channel_def bind_rd_def ret_rd_def)
qed

lemma codes_obituary: "codes (write_obituary None r) (read_obituary X) (None, r)"
  unfolding write_obituary_def read_obituary_def by (auto intro!: code_rules)

lemma codes_addrs: "length as < 2 ^ 32 \<Longrightarrow> list_all (\<lambda>a. a = None) as \<Longrightarrow> codes (write_seq write_addr as) (read_seq (read_addr X)) as"
  by (rule codes_seq) (auto simp: list_all_iff intro: codes_no_addr)

lemma codes_builtin: "plain e \<Longrightarrow> \<not> is_msg e \<Longrightarrow> codes (write_builtin X e) (read_builtin X (type_of e)) e"
proof (cases e)
  case (Strmap m)
  assume p: "plain e"
  then have "codes (write_seq write_pair m) (read_seq read_pair) m"
    using Strmap by (intro codes_seq) (simp_all add: list_all_iff codes_pair)
  then show ?thesis using p Strmap fold_map_insert [of "[]" m] by (auto intro!: codes_map)
next
  case (Strset ss)
  assume p: "plain e"
  then have "codes (write_seq write_str ss) (read_seq read_str) ss"
    using Strset by (intro codes_seq) (auto simp: list_all_iff intro: codes_str)
  then show ?thesis using p Strset fold_strset_insert [of "[]" ss] by (auto intro!: codes_map)
next
  case (Strvec ss)
  assume p: "plain e"
  then have "codes (write_seq write_str ss) (read_seq read_str) ss"
    using Strvec by (intro codes_seq) (auto simp: list_all_iff intro: codes_str)
  then show ?thesis using Strvec by (auto intro!: codes_map)
next
  case (Charbuf bs)
  assume "plain e"
  then have "codes (write_seq (\<lambda>b. put_bytes (int_bytes b)) bs) (read_seq (lift_rd read_int)) bs"
    using Charbuf by (intro codes_seq) (auto simp: list_all_iff intro: codes_int)
  then show ?thesis using Charbuf by (auto intro!: codes_map)
next
  case (Node n)
  assume "plain e"
  then have "codes (put_bytes (write_node n)) (lift_rd read_node) n"
    using Node by (intro codes_lift read_write_node) simp
  then show ?thesis using Node by (auto intro!: codes_map)
next
  case (U16str us)
  assume "plain e"
  then have "codes (put_bytes (write_units us)) (lift_rd read_unicode_string) us"
    using U16str by (intro codes_lift read_unicode_bytes) simp_all
  then show ?thesis using U16str by (auto intro!: codes_map)
next
  case (U32str us)
  assume "plain e"
  then have "codes (put_bytes (write_units us)) (lift_rd read_unicode_string) us"
    using U32str by (intro codes_lift read_unicode_bytes) simp_all
  then show ?thesis using U32str by (auto intro!: codes_map)
next
  case (Mid i)
  then show ?thesis by (cases i) (auto simp: rd_int_def from_integer_value_def intro!: codes_map codes_int)
next
  case (Bool b)
  then show ?thesis by (auto simp: rd_int_def intro!: codes_map codes_int)
qed (auto simp: rd_int_def is_msg_def intro!: code_rules codes_no_group codes_no_channel codes_obituary codes_addrs codes_duration)

section \<open>Tuples of builtin types\<close>

definition builtin_tuple :: "type_id list \<Rightarrow> uti_ref" where
  "builtin_tuple tys = Meta_Message (map (\<lambda>t. Some (Builtin t)) tys)"

text \<open>
  The map of types is intact: tuple types of builtin types that are in the map are complete. Only
  names with zero characters can destroy this.
\<close>

definition types_inv :: "(string \<times> uti_ref) list \<Rightarrow> bool" where
  "types_inv ts \<longleftrightarrow> sorted_names fst ts \<and> (\<forall>tys e. set tys \<subseteq> set sorted_builtin_types
     \<longrightarrow> map_of ts (tuple_name (map builtin_name tys)) = Some e \<longrightarrow> e = builtin_tuple tys)"

lemma builtin_name_plain:
  assumes "t \<in> set sorted_builtin_types"
  shows "CHR ''+'' \<notin> set (builtin_name t)" and "take 3 (builtin_name t) \<noteq> ''@<>''"
proof -
  have "list_all (\<lambda>t. CHR ''+'' \<notin> set (builtin_name t) \<and> take 3 (builtin_name t) \<noteq> ''@<>'') sorted_builtin_types" by code_simp
  then show "CHR ''+'' \<notin> set (builtin_name t)" "take 3 (builtin_name t) \<noteq> ''@<>''" using assms by (simp_all add: list_all_iff)
qed

lemma builtin_names_plain:
  "set tys \<subseteq> set sorted_builtin_types \<Longrightarrow> list_all (\<lambda>n. CHR ''+'' \<notin> set n \<and> take 3 n \<noteq> ''@<>'') (map builtin_name tys)"
  using builtin_name_plain by (auto simp: list_all_iff subset_iff)

lemma tuple_name_inj:
  assumes "list_all (\<lambda>n. CHR ''+'' \<notin> set n) ms" and "list_all (\<lambda>n. CHR ''+'' \<notin> set n) ns" and "tuple_name ms = tuple_name ns"
  shows "ms = ns"
proof -
  have "''@<>'' # ms = ''@<>'' # ns"
    using split_tuple_name [OF split_plus_splits assms(1)] split_tuple_name [OF split_plus_splits assms(2)]
    unfolding assms(3) by (rule trans [OF sym])
  then show ?thesis by simp
qed

lemma builtin_names_inj:
  assumes "set tys \<subseteq> set sorted_builtin_types" and "set tys' \<subseteq> set sorted_builtin_types"
    and "tuple_name (map builtin_name tys) = tuple_name (map builtin_name tys')"
  shows "tys = tys'"
proof -
  have "map builtin_name tys = map builtin_name tys'"
    using tuple_name_inj [OF _ _ assms(3)] builtin_names_plain [OF assms(1)] builtin_names_plain [OF assms(2)]
    by (simp add: list_all_iff)
  then have "map (find_entry []) (map builtin_name tys) = map (find_entry []) (map builtin_name tys')" by (rule arg_cong)
  moreover have "map (find_entry []) (map builtin_name us) = map (\<lambda>t. Some (Builtin t)) us" if "set us \<subseteq> set sorted_builtin_types" for us
    using that find_entry_builtin by (simp add: subset_iff)
  ultimately have "map (\<lambda>t. Some (Builtin t)) tys = map (\<lambda>t. Some (Builtin t)) tys'" using assms(1,2) by metis
  then show ?thesis by (rule map_injective) (simp add: inj_def)
qed

lemma types_inv_insert:
  assumes "types_inv ts" and "\<And>tys. set tys \<subseteq> set sorted_builtin_types \<Longrightarrow> c_name n = tuple_name (map builtin_name tys) \<Longrightarrow> e = builtin_tuple tys"
  shows "types_inv (snd (insert_type n e ts))"
  using assms insert_type_correct [OF _ refl, of ts n e] unfolding types_inv_def by (auto split: if_splits)

lemma builtin_names_nul_free: "set tys \<subseteq> set sorted_builtin_types \<Longrightarrow> list_all nul_free (map builtin_name tys)"
proof -
  have "list_all (\<lambda>t. nul_free (builtin_name t)) sorted_builtin_types" unfolding nul_free_def by code_simp
  then show "set tys \<subseteq> set sorted_builtin_types \<Longrightarrow> ?thesis" by (auto simp: list_all_iff)
qed

text \<open>Announcing a type whose name is not that of a tuple.\<close>

lemma types_inv_announce:
  assumes "types_inv ts" and "take 3 n \<noteq> ''@<>''"
  shows "types_inv (snd (insert_type n e ts))"
proof (rule types_inv_insert [OF assms(1)])
  fix tys assume "c_name n = tuple_name (map builtin_name tys)"
  then have c: "takeWhile (\<lambda>c. c \<noteq> CHR 0x00) n = ''@<>'' @ joined (map builtin_name tys)" by (simp add: c_name_def tuple_name_def)
  have "n = takeWhile (\<lambda>c. c \<noteq> CHR 0x00) n @ dropWhile (\<lambda>c. c \<noteq> CHR 0x00) n" by simp
  then have "take 3 n = ''@<>''" unfolding c by (metis (no_types, lifting) append.assoc append_eq_conv_conj length_Cons list.size(3) numeral_3_eq_3)
  then show "e = builtin_tuple tys" using assms(2) by simp
qed

lemma types_inv_Nil: "types_inv []"
  by (simp add: types_inv_def sorted_names_def)

text \<open>Looking up a tuple of builtin types in an intact map gives its complete type.\<close>

lemma by_builtin_tuple:
  assumes "types_inv ts" and "set tys \<subseteq> set sorted_builtin_types" and "splits_names sp"
  shows "\<exists>ts'. by_uniform_name sp (tuple_name (map builtin_name tys)) ts = (Some (builtin_tuple tys), ts') \<and> types_inv ts'"
proof -
  let ?n = "tuple_name (map builtin_name tys)"
  have f: "map (find_entry ts) (map builtin_name tys) = map (\<lambda>t. Some (Builtin t)) tys"
    using assms(2) find_entry_builtin by (auto simp: subset_iff)
  have s: "sorted_names fst ts" using assms(1) by (simp add: types_inv_def)
  note nf = builtin_names_nul_free [OF assms(2)]
  note b = by_uniform_name_nul_free [OF s builtin_names_plain [OF assms(2)] assms(3) nf]
  show ?thesis
  proof (cases "map_of ts ?n")
    case None
    have "types_inv (snd (insert_type ?n (builtin_tuple tys) ts))"
      using builtin_names_inj assms(2) c_name_nul_free [OF nul_free_tuple_name [OF nf]]
      by (intro types_inv_insert [OF assms(1)]) metis
    then show ?thesis using None unfolding b f builtin_tuple_def [symmetric] by (simp add: Let_def)
  next
    case (Some e)
    then have "e = builtin_tuple tys" using assms(1,2) by (auto simp: types_inv_def)
    then show ?thesis using Some b assms(1) by simp
  qed
qed

text \<open>The invariant holds whatever names without zero characters are looked up.\<close>

lemma splits_pieces:
  assumes "splits_names sp"
  obtains p ns where "n = p @ joined ns" "sp n = p # ns" "CHR ''+'' \<notin> set p" "list_all (\<lambda>n. CHR ''+'' \<notin> set n) ns"
proof -
  have "\<exists>p ns. n = p @ joined ns \<and> CHR ''+'' \<notin> set p \<and> list_all (\<lambda>n. CHR ''+'' \<notin> set n) ns"
  proof (induction n)
    case Nil
    show ?case by (rule exI [of _ "[]"], rule exI [of _ "[]"]) (simp add: joined_def)
  next
    case (Cons c n)
    then obtain p ns where n: "n = p @ joined ns" "CHR ''+'' \<notin> set p" "list_all (\<lambda>n. CHR ''+'' \<notin> set n) ns" by blast
    show ?case
    proof (cases "c = CHR ''+''")
      case True
      then show ?thesis using n by (intro exI [of _ "[]"] exI [of _ "p # ns"]) (simp add: joined_def)
    next
      case False
      then show ?thesis using n by (intro exI [of _ "c # p"] exI [of _ ns]) simp
    qed
  qed
  then show thesis using assms that unfolding splits_names_def by blast
qed

lemma types_inv_by_element: "types_inv ts \<Longrightarrow> CHR ''+'' \<notin> set p \<Longrightarrow> nul_free p \<Longrightarrow> types_inv (snd (by_element_name p ts))"
proof -
  assume i: "types_inv ts" and p: "CHR ''+'' \<notin> set p" and z: "nul_free p"
  have "Meta_Message [] = builtin_tuple tys" if "p = tuple_name (map builtin_name tys)" for tys
    using that p by (cases tys) (auto simp: tuple_name_def joined_def builtin_tuple_def)
  then have "types_inv (snd (insert_type p (Meta_Message []) ts))" using z by (intro types_inv_insert [OF i]) simp
  then show ?thesis using i by (auto simp: by_element_name_def split: option.splits prod.splits)
qed

lemma types_inv_elements: "types_inv ts \<Longrightarrow> list_all (\<lambda>n. CHR ''+'' \<notin> set n \<and> nul_free n) ps \<Longrightarrow> types_inv (snd (element_types ps ts))"
proof (induction ps arbitrary: ts)
  case (Cons p ps)
  then show ?case using types_inv_by_element [of ts p] by (fastforce split: prod.splits)
qed simp

lemma types_inv_by_uniform_name:
  assumes "types_inv ts" and "splits_names sp" and z: "nul_free n"
  shows "types_inv (snd (by_uniform_name sp n ts))"
proof (cases "\<exists>tys. set tys \<subseteq> set sorted_builtin_types \<and> n = tuple_name (map builtin_name tys)")
  case True
  then obtain tys where t: "set tys \<subseteq> set sorted_builtin_types" "n = tuple_name (map builtin_name tys)" by blast
  show ?thesis using by_builtin_tuple [OF assms(1) t(1) assms(2)] unfolding t(2) by fastforce
next
  case False
  obtain p ns where p: "n = p @ joined ns" and n: "sp n = p # ns" "list_all (\<lambda>n. CHR ''+'' \<notin> set n) ns"
    using splits_pieces [OF assms(2)] by metis
  have "list_all nul_free ns" using z unfolding p by (auto simp: nul_free_def joined_def list_all_iff split: if_splits)
  then have ns: "list_all (\<lambda>n. CHR ''+'' \<notin> set n \<and> nul_free n) ns" using n(2) by (simp add: list_all_iff)
  obtain es ts1 where e: "element_types ns ts = (es, ts1)" by force
  have "types_inv ts1" using types_inv_elements [OF assms(1) ns] e by simp
  then have "types_inv (snd (insert_type n (Meta_Message es) ts1))" using False z by (intro types_inv_insert) auto
  then show ?thesis using assms(1) n(1) e
    by (auto simp: by_uniform_name_def default_meta_message_def split: option.splits prod.splits)
qed

section \<open>Round trip of messages\<close>

lemma plain_builtin: "plain e \<Longrightarrow> type_of e \<in> set sorted_builtin_types"
  by (cases e) (simp_all add: sorted_builtin_types_def)

lemma builtin_type_nr: "t \<in> set sorted_builtin_types \<Longrightarrow> type_nr t \<noteq> 0"
proof -
  have "list_all (\<lambda>t. type_nr t \<noteq> 0) sorted_builtin_types" by code_simp
  then show "t \<in> set sorted_builtin_types \<Longrightarrow> ?thesis" by (simp add: list_all_iff)
qed

lemma uniform_name_plain: "plain e \<Longrightarrow> uniform_name ts (type_of e) = builtin_name (type_of e)"
  using plain_builtin builtin_type_nr by (simp add: uniform_name_def)

lemma name_split_good: "good_env X \<Longrightarrow> splits_names (name_split X)"
  by (simp add: good_env_def)

lemma begin_tuple_plain:
  assumes "list_all plain es" and "types_inv (user_types s)" and "good_env X"
  shows "\<exists>ts. begin_tuple X es s = Inr (begin_object_out \<lparr>uti_nr = 0,
      uti_name = str_bytes (tuple_name (map (\<lambda>e. builtin_name (type_of e)) es))\<rparr>, s\<lparr>user_types := ts\<rparr>) \<and> types_inv ts"
proof -
  have m: "map (\<lambda>e. uniform_name (user_types s) (type_of e)) es = map builtin_name (map type_of es)"
    using assms(1) by (simp add: list_all_iff uniform_name_plain)
  have "set (map type_of es) \<subseteq> set sorted_builtin_types" using assms(1) plain_builtin by (auto simp: list_all_iff)
  from by_builtin_tuple [OF assms(2) this name_split_good [OF assms(3)]]
  obtain ts where "by_uniform_name (name_split X) (tuple_name (map builtin_name (map type_of es))) (user_types s) =
      (Some (builtin_tuple (map type_of es)), ts)" "types_inv ts"
    by blast
  then show ?thesis unfolding begin_tuple_def Let_def m by (intro exI [of _ ts]) (simp add: comp_def)
qed

lemma begin_object_plain:
  assumes "list_all plain es" and "types_inv (user_types d)" and "good_env X"
    and "length (tuple_name (map (\<lambda>e. builtin_name (type_of e)) es)) < 2 ^ 32"
  shows "\<exists>ts. begin_object_rd X (begin_object_out \<lparr>uti_nr = 0,
      uti_name = str_bytes (tuple_name (map (\<lambda>e. builtin_name (type_of e)) es))\<rparr> @ r) d
    = Inr (builtin_tuple (map type_of es), r, d\<lparr>user_types := ts\<rparr>) \<and> types_inv ts"
proof -
  let ?n = "tuple_name (map (\<lambda>e. builtin_name (type_of e)) es)"
  have "set (map type_of es) \<subseteq> set sorted_builtin_types" using assms(1) plain_builtin by (auto simp: list_all_iff)
  from by_builtin_tuple [OF assms(2) this name_split_good [OF assms(3)]]
  obtain ts where b: "by_uniform_name (name_split X) (tuple_name (map builtin_name (map type_of es))) (user_types d) =
      (Some (builtin_tuple (map type_of es)), ts)" "types_inv ts"
    by blast
  have "read_string (write_string (str_bytes ?n) @ r) = Inr (str_bytes ?n, r)" using assms(4) by (intro read_string_bytes) simp
  then show ?thesis using b by (intro exI [of _ ts]) (simp add: begin_object_rd_def begin_object_out_def bind_rd_def lift_rd_def comp_def)
qed

lemma creatable_builtin_tuple: "creatable (builtin_tuple tys)"
  by (simp add: builtin_tuple_def list_all_iff)

definition travels :: "'a nspace_scheme sink \<Rightarrow> (nat \<Rightarrow> ('x, 'a nspace_scheme) source) \<Rightarrow> 'x \<Rightarrow> bool" where
  "travels w m x \<longleftrightarrow> (\<forall>s. types_inv (user_types s) \<longrightarrow> (\<exists>b ts. w s = Inr (b, s\<lparr>user_types := ts\<rparr>) \<and> types_inv ts
     \<and> (\<forall>r d f. types_inv (user_types d) \<and> length b < f \<longrightarrow>
         (\<exists>ts'. m f (b @ r) d = Inr (x, r, d\<lparr>user_types := ts'\<rparr>) \<and> types_inv ts'))))"

lemma travels_codes:
  assumes "codes w (m :: ('x, 'a nspace_scheme) source) x"
  shows "travels w (\<lambda>f. m) x"
proof -
  obtain b where "\<And>s. w s = Inr (b, s)" "\<And>r d. m (b @ r) d = Inr (x, r, d)" using assms unfolding codes_def by blast
  moreover have "(s :: 'a nspace_scheme)\<lparr>user_types := user_types s\<rparr> = s" for s by simp
  ultimately show ?thesis unfolding travels_def by metis
qed

lemma elem_list_induct [case_names Msg Other Nil Cons]:
  assumes "\<And>es. Q es \<Longrightarrow> P (Msg es)" and "\<And>e. \<not> is_msg e \<Longrightarrow> P e" and "Q []" and "\<And>e es. P e \<Longrightarrow> Q es \<Longrightarrow> Q (e # es)"
  shows "P e" and "Q es"
proof -
  have "P e" for e
  proof (induction e)
    case (Msg es)
    then have "Q es" by (induction es) (auto intro: assms(3,4))
    then show ?case by (rule assms(1))
  qed (rule assms(2), simp add: is_msg_def)+
  then show "P e" "Q es" by (blast, induction es) (auto intro: assms(3,4))
qed

lemma travelsI:
  assumes "\<And>s. types_inv (user_types s) \<Longrightarrow> \<exists>b ts. w s = Inr (b, s\<lparr>user_types := ts\<rparr>) \<and> types_inv ts
     \<and> (\<forall>r d f. types_inv (user_types d) \<and> length b < f \<longrightarrow>
         (\<exists>ts'. m f (b @ r) d = Inr (x, r, d\<lparr>user_types := ts'\<rparr>) \<and> types_inv ts'))"
  shows "travels w m x"
  using assms unfolding travels_def by blast

lemma travelsE:
  assumes "travels w m x" and "types_inv (user_types s)"
  obtains b ts where "w s = Inr (b, s\<lparr>user_types := ts\<rparr>)" "types_inv ts"
    "\<And>r d f. types_inv (user_types d) \<Longrightarrow> length b < f \<Longrightarrow> \<exists>ts'. m f (b @ r) d = Inr (x, r, d\<lparr>user_types := ts'\<rparr>) \<and> types_inv ts'"
  using assms unfolding travels_def by blast

lemma map_rd_Inr: "m bs s = Inr (x, r, t) \<Longrightarrow> map_rd g m bs s = Inr (g x, r, t)"
  by (simp add: map_rd_def bind_rd_def ret_rd_def)

lemma travels_map: "travels w m x \<Longrightarrow> travels w (\<lambda>f. map_rd g (m f)) (g x)"
  unfolding travels_def by (meson map_rd_Inr)

lemma travels_bind:
  fixes w w' :: "'a nspace_scheme sink"
  assumes "travels w m x" and "travels w' (\<lambda>f. k f x) y"
  shows "travels (then_wr w w') (\<lambda>f. bind_rd (m f) (k f)) y"
proof (rule travelsI)
  fix s :: "'a nspace_scheme" assume s: "types_inv (user_types s)"
  obtain b ts where b: "w s = Inr (b, s\<lparr>user_types := ts\<rparr>)" "types_inv ts"
    "\<And>r d f. types_inv (user_types d) \<Longrightarrow> length b < f \<Longrightarrow> \<exists>ts'. m f (b @ r) d = Inr (x, r, d\<lparr>user_types := ts'\<rparr>) \<and> types_inv ts'"
    using assms(1) s by (rule travelsE) blast
  have s1: "types_inv (user_types (s\<lparr>user_types := ts\<rparr>))" using b(2) by simp
  obtain b' ts' where c: "w' (s\<lparr>user_types := ts\<rparr>) = Inr (b', s\<lparr>user_types := ts\<rparr>\<lparr>user_types := ts'\<rparr>)" "types_inv ts'"
    "\<And>r d f. types_inv (user_types d) \<Longrightarrow> length b' < f \<Longrightarrow> \<exists>ts'. k f x (b' @ r) d = Inr (y, r, d\<lparr>user_types := ts'\<rparr>) \<and> types_inv ts'"
    using travelsE [OF assms(2) s1] by metis
  have "\<exists>ts2. bind_rd (m f) (k f) ((b @ b') @ r) d = Inr (y, r, d\<lparr>user_types := ts2\<rparr>) \<and> types_inv ts2"
    if i: "types_inv (user_types d)" and f: "length (b @ b') < f" for r d f
  proof -
    obtain t1 where t1: "m f (b @ b' @ r) d = Inr (x, b' @ r, d\<lparr>user_types := t1\<rparr>)" "types_inv t1" 
      using b(3) [OF i, of f "b' @ r"] f by auto
    then have "types_inv (user_types (d\<lparr>user_types := t1\<rparr>))" by simp
    then obtain t2 where "k f x (b' @ r) (d\<lparr>user_types := t1\<rparr>) = Inr (y, r, d\<lparr>user_types := t1\<rparr>\<lparr>user_types := t2\<rparr>)" "types_inv t2"
      using c(3) [of "d\<lparr>user_types := t1\<rparr>" f r] f by auto
    then show ?thesis using t1 by (intro exI [of _ t2]) (simp add: bind_rd_def)
  qed
  moreover have "then_wr w w' s = Inr (b @ b', s\<lparr>user_types := ts'\<rparr>)" using b(1) c(1) by (simp add: then_wr_def)
  ultimately show "\<exists>b ts. then_wr w w' s = Inr (b, s\<lparr>user_types := ts\<rparr>) \<and> types_inv ts
     \<and> (\<forall>r d f. types_inv (user_types d) \<and> length b < f \<longrightarrow>
         (\<exists>ts'. bind_rd (m f) (k f) (b @ r) d = Inr (y, r, d\<lparr>user_types := ts'\<rparr>) \<and> types_inv ts'))" using c(2) by blast
qed

lemma travels_known:
  fixes w :: "'a nspace_scheme sink"
  assumes "plain e" and "travels w m x"
  shows "travels (then_wr (known_type e) w) m x"
proof -
  have "known_type e s = Inr ([], s)" if "types_inv (user_types s)" for s :: "'a nspace_scheme"
    using find_entry_builtin [OF plain_builtin [OF assms(1)]] uniform_name_plain [OF assms(1)] by (simp add: known_type_def)
  then show ?thesis using assms(2) by (intro travelsI) (auto simp: then_wr_def elim!: travelsE)
qed

text \<open>A message in a message, or at the top.\<close>

lemma travels_tuple:
  fixes X :: "'a nspace_scheme codec_env"
  assumes p: "list_all plain es" "length (tuple_name (map (\<lambda>e. builtin_name (type_of e)) es)) < 2 ^ 32" and X: "good_env X"
    and es: "travels (write_elems X es) (\<lambda>f. read_vals X f (map (\<lambda>t. Some (Builtin t)) (map type_of es))) es"
  shows "travels (write_msg X es) (read_msg X) es"
proof (rule travelsI)
  fix s :: "'a nspace_scheme" assume s: "types_inv (user_types s)"
  let ?h = "begin_object_out \<lparr>uti_nr = 0, uti_name = str_bytes (tuple_name (map (\<lambda>e. builtin_name (type_of e)) es))\<rparr>"
  obtain ts where h: "begin_tuple X es s = Inr (?h, s\<lparr>user_types := ts\<rparr>)" "types_inv ts"
    using begin_tuple_plain [OF p(1) s X] by blast
  then have s1: "types_inv (user_types (s\<lparr>user_types := ts\<rparr>))" by simp
  obtain b ts' where c: "write_elems X es (s\<lparr>user_types := ts\<rparr>) = Inr (b, s\<lparr>user_types := ts\<rparr>\<lparr>user_types := ts'\<rparr>)" "types_inv ts'"
    "\<And>r d f. types_inv (user_types d) \<Longrightarrow> length b < f \<Longrightarrow>
      \<exists>ts'. read_vals X f (map (\<lambda>t. Some (Builtin t)) (map type_of es)) (b @ r) d = Inr (es, r, d\<lparr>user_types := ts'\<rparr>) \<and> types_inv ts'"
    using travelsE [OF es s1] by metis
  have "\<exists>ts'. read_msg X f ((?h @ b) @ r) d = Inr (es, r, d\<lparr>user_types := ts'\<rparr>) \<and> types_inv ts'"
    if i: "types_inv (user_types d)" and f: "length (?h @ b) < f" for r d f
  proof -
    obtain t1 where t1: "begin_object_rd X (?h @ b @ r) d = Inr (builtin_tuple (map type_of es), b @ r, d\<lparr>user_types := t1\<rparr>)" "types_inv t1"
      using begin_object_plain [OF p(1) i X p(2)] by blast
    obtain g where g: "f = Suc g" using f by (cases f) auto
    have "2 \<le> length ?h" by (simp add: begin_object_out_def)
    then have "length b < g" using f g by simp
    moreover have "types_inv (user_types (d\<lparr>user_types := t1\<rparr>))" using t1(2) by simp
    ultimately obtain t2 where "read_vals X g (map (\<lambda>t. Some (Builtin t)) (map type_of es)) (b @ r) (d\<lparr>user_types := t1\<rparr>)
        = Inr (es, r, d\<lparr>user_types := t1\<rparr>\<lparr>user_types := t2\<rparr>)" "types_inv t2" using c(3) by blast
    then show ?thesis using t1 g creatable_builtin_tuple [of "map type_of es"]
      by (intro exI [of _ t2]) (simp add: bind_rd_def builtin_tuple_def)
  qed
  moreover have "write_msg X es s = Inr (?h @ b, s\<lparr>user_types := ts'\<rparr>)" using h(1) c(1) by (simp add: write_msg_def then_wr_def)
  ultimately show "\<exists>b ts. write_msg X es s = Inr (b, s\<lparr>user_types := ts\<rparr>) \<and> types_inv ts
     \<and> (\<forall>r d f. types_inv (user_types d) \<and> length b < f \<longrightarrow>
         (\<exists>ts'. read_msg X f (b @ r) d = Inr (es, r, d\<lparr>user_types := ts'\<rparr>) \<and> types_inv ts'))" using c(2) by blast
qed

lemma write_elem_other: "\<not> is_msg e \<Longrightarrow> write_elem X e = write_builtin X e"
  by (cases e) (simp_all add: is_msg_def)

lemma plain_not_msg: "plain e \<Longrightarrow> \<not> is_msg e \<Longrightarrow> type_of e \<noteq> T_message"
  by (cases e) (simp_all add: is_msg_def)

lemma travels_other:
  assumes "plain e" and "\<not> is_msg e"
  shows "travels (write_elem X e) (\<lambda>f. read_val X f (Builtin (type_of e))) e"
  using travels_codes [OF codes_builtin [OF assms, of X]] plain_not_msg [OF assms] write_elem_other [OF assms(2), of X] by simp

lemma travels_Cons:
  assumes "plain e" and "travels (write_elem X e) (\<lambda>f. read_val X f (Builtin (type_of e))) e"
    and "travels (write_elems X es) (\<lambda>f. read_vals X f (map (\<lambda>t. Some (Builtin t)) (map type_of es))) es"
  shows "travels (write_elems X (e # es)) (\<lambda>f. read_vals X f (map (\<lambda>t. Some (Builtin t)) (map type_of (e # es)))) (e # es)"
proof -
  have "travels (then_wr (write_elem X e) (write_elems X es)) (\<lambda>f. bind_rd (read_val X f (Builtin (type_of e)))
      (\<lambda>x. map_rd (\<lambda>xs. x # xs) (read_vals X f (map (\<lambda>t. Some (Builtin t)) (map type_of es))))) (e # es)"
    by (rule travels_bind [OF assms(2)], rule travels_map [OF assms(3)])
  from travels_known [OF assms(1) this] show ?thesis by simp
qed

lemma travels_plain:
  fixes X :: "'a nspace_scheme codec_env"
  assumes "good_env X"
  shows "plain e \<Longrightarrow> travels (write_elem X e) (\<lambda>f. read_val X f (Builtin (type_of e))) e"
    and "list_all plain es \<Longrightarrow> travels (write_elems X es) (\<lambda>f. read_vals X f (map (\<lambda>t. Some (Builtin t)) (map type_of es))) es"
proof (induction e and es rule: elem_list_induct)
  case (Msg es)
  then have "travels (write_msg X es) (read_msg X) es" using assms by (intro travels_tuple) simp_all
  from travels_map [OF this, of Msg] show ?case by (simp add: write_msg_def)
next
  case (Other e)
  then show ?case by (intro travels_other)
next
  case Nil
  show ?case using travels_codes [OF codes_ret] by simp
next
  case (Cons e es)
  then show ?case using travels_Cons [of e X es] by simp
qed

text \<open>
  C15: A message of builtin values, nested messages included, is written on one node and read back
  unchanged on another: the reader stops exactly behind the message, and the tuple types both nodes
  create on the way are complete. The values are integers, atoms, strings and their containers, durations, node
  ids, system messages and the like; floating point numbers, non-null handles, channels and groups and values
  of user-defined types are not covered. The maps of types of both nodes must be intact, which
  they are initially and which looking up names without zero characters, announcing types whose names do
  not start like those of tuples and this exchange preserve.
\<close>

theorem message_roundtrip:
  fixes X :: "'a nspace_scheme codec_env"
  assumes "good_env X" and "list_all plain msg" and "length (tuple_name (map (\<lambda>e. builtin_name (type_of e)) msg)) < 2 ^ 32"
    and "types_inv (user_types s)" and "types_inv (user_types d)" and "splits_names sp"
  shows "\<exists>b ts. write_msg X msg s = Inr (b, s\<lparr>user_types := ts\<rparr>) \<and> types_inv ts
    \<and> (\<forall>r f. length b < f \<longrightarrow> (\<exists>ts'. read_msg X f (b @ r) d = Inr (msg, r, d\<lparr>user_types := ts'\<rparr>) \<and> types_inv ts'))
    \<and> types_inv [] \<and> (nul_free n \<longrightarrow> types_inv (snd (by_uniform_name sp n ts)))
    \<and> (take 3 n \<noteq> ''@<>'' \<longrightarrow> types_inv (snd (insert_type n e ts)))"
proof -
  have "travels (write_msg X msg) (read_msg X) msg"
    using travels_plain(2) [OF assms(1,2)] by (rule travels_tuple [OF assms(2,3,1)])
  then obtain b ts where b: "write_msg X msg s = Inr (b, s\<lparr>user_types := ts\<rparr>)" "types_inv ts"
    "\<And>r d f. types_inv (user_types d) \<Longrightarrow> length b < f \<Longrightarrow> \<exists>ts'. read_msg X f (b @ r) d = Inr (msg, r, d\<lparr>user_types := ts'\<rparr>) \<and> types_inv ts'"
    using travelsE [OF _ assms(4)] by metis
  then show ?thesis
    using types_inv_by_uniform_name [OF b(2) assms(6)] types_inv_announce [OF b(2)] types_inv_Nil assms(5) by blast
qed

definition sample_codec :: "nspace codec_env" where
  "sample_codec = \<lparr>x_write = (\<lambda>t k s. Inl (Runtime_Error [])), x_read = (\<lambda>t bs s. Inl (Runtime_Error [])),
     group_module = (\<lambda>g. []), group_write = (\<lambda>g s. Inl (Runtime_Error [])), group_read = (\<lambda>m bs s. Inl (Runtime_Error [])),
     backend = (\<lambda>n i s. (None, s)), name_split = split_plus\<rparr>"

definition sample_nspace :: nspace where
  "sample_nspace = \<lparr>direct_by_hdl = Map.empty, direct_by_nid = Map.empty, indirect = Map.empty, blacklisted = Map.empty,
     has_hook = False, hook_log = [], ns_reg = new_registry \<lparr>actor_at = (\<lambda>a. new_actor 0), log = [], running = 0\<rparr>,
     ns_node = sample_node 1, actor_node = (\<lambda>a. sample_node 1), proxies = [], gone = {}, next_actor = 0, user_types = []\<rparr>"

lemma sample_codec_good: "good_env sample_codec"
  by (simp add: good_env_def sample_codec_def shrinks_def split_plus_splits)

theorem message_roundtrip_witness:
  "\<exists>b ts ts'. write_msg sample_codec [Str ''hi'', Msg [U16 7, Unit]] sample_nspace = Inr (b, sample_nspace\<lparr>user_types := ts\<rparr>)
    \<and> read_msg sample_codec (Suc (length b)) (b @ [1, 2]) sample_nspace
      = Inr ([Str ''hi'', Msg [U16 7, Unit]], [1, 2], sample_nspace\<lparr>user_types := ts'\<rparr>)"
proof -
  let ?m = "[Str ''hi'', Msg [U16 7, Unit]]"
  have "length (tuple_name (map (\<lambda>e. builtin_name (type_of e)) ?m)) = 17"
    "length (tuple_name (map (\<lambda>e. builtin_name (type_of e)) [U16 7, Unit])) = 14" by code_simp+
  then have p: "list_all plain ?m" "length (tuple_name (map (\<lambda>e. builtin_name (type_of e)) ?m)) < 2 ^ 32" by simp_all
  have t: "types_inv (user_types sample_nspace)" by (simp add: sample_nspace_def types_inv_Nil)
  from message_roundtrip [OF sample_codec_good p t t split_plus_splits, of "[]" "Builtin T_unit"]
  obtain b ts where b: "write_msg sample_codec ?m sample_nspace = Inr (b, sample_nspace\<lparr>user_types := ts\<rparr>)"
    "\<And>r f. length b < f \<Longrightarrow> \<exists>ts'. read_msg sample_codec f (b @ r) sample_nspace = Inr (?m, r, sample_nspace\<lparr>user_types := ts'\<rparr>)"
    by blast
  from b(2) [of "Suc (length b)" "[1, 2]"] show ?thesis using b(1) by blast
qed

section \<open>Malformed messages\<close>

lemma type_nr_bytes: "t \<in> set sorted_builtin_types \<Longrightarrow> by_type_nr (type_nr t) = Some (Builtin t)"
proof -
  have "list_all (\<lambda>t. by_type_nr (type_nr t) = Some (Builtin t)) sorted_builtin_types" by code_simp
  then show "t \<in> set sorted_builtin_types \<Longrightarrow> ?thesis" by (simp add: list_all_iff)
qed

lemma read_unknown_element:
  assumes "good_env X" and "sorted_names fst (user_types d)" and "CHR ''+'' \<notin> set n" "take 3 n \<noteq> ''@<>''" "length n < 2 ^ 32 - 4"
    and "n \<notin> set numbered_type_names" "map_of (user_types d) n = None" "map_of (user_types d) (tuple_name [n]) = None"
    and "map_of (user_types d) (c_name (tuple_name [n])) = None"
  shows "read_msg X (Suc f) (begin_object_out \<lparr>uti_nr = 0, uti_name = str_bytes (tuple_name [n])\<rparr> @ r) d = Inl Null_Pointer"
proof -
  have p: "list_all (\<lambda>n. CHR ''+'' \<notin> set n \<and> take 3 n \<noteq> ''@<>'') [n]" using assms(3,4) by simp
  have e: "find_entry (user_types d) n = None" using find_entry_user [OF assms(2,6)] assms(7) by simp
  have b: "by_uniform_name (name_split X) (tuple_name [n]) (user_types d) =
      (Some (Meta_Message [None]), snd (insert_type (tuple_name [n]) (Meta_Message [None]) (user_types d)))"
    using by_uniform_name_tuple [OF assms(2) p name_split_good [OF assms(1)]] assms(8,9) e by (simp add: Let_def)
  have "length (str_bytes (tuple_name [n])) < 2 ^ 32" using assms(5) by (simp add: tuple_name_def joined_def)
  note s = read_string_bytes [OF this, of r]
  show ?thesis using b s by (simp add: begin_object_rd_def begin_object_out_def bind_rd_def lift_rd_def)
qed

text \<open>
  C38: Reading a message always ends, with the message or with an exception, except that input from
  the network can make it go wrong: a message that starts with the number of a builtin type is read
  as a value of that type, which is then used as a message; a number that is too large reads behind
  the array of types; and the name of a tuple with an element type the node does not know makes it
  dereference a null pointer, unless a tuple is already stored under that name (or under the part of it
  before a zero character).
\<close>

theorem malformed_messages:
  fixes X :: "'a nspace_scheme codec_env"
  assumes "good_env X"
  shows "read_msg X (Suc (length bs)) bs d \<noteq> Inl Out_Of_Fuel
    \<and> (t \<in> set sorted_builtin_types \<and> t \<noteq> T_message \<longrightarrow>
        read_msg X (Suc f) (int_bytes (type_nr t) @ r) d
          = (case read_builtin X t r d of Inl e \<Rightarrow> Inl e | Inr _ \<Rightarrow> Inl Type_Confusion))
    \<and> (unat (nr :: u16) > length sorted_builtin_types \<longrightarrow> read_msg X (Suc f) (int_bytes nr @ r) d = Inl Out_Of_Bounds)
    \<and> (sorted_names fst (user_types d) \<and> CHR ''+'' \<notin> set n \<and> take 3 n \<noteq> ''@<>'' \<and> length n < 2 ^ 32 - 4
        \<and> n \<notin> set numbered_type_names \<and> map_of (user_types d) n = None \<and> map_of (user_types d) (tuple_name [n]) = None
        \<and> map_of (user_types d) (c_name (tuple_name [n])) = None \<longrightarrow>
        read_msg X (Suc f) (begin_object_out \<lparr>uti_nr = 0, uti_name = str_bytes (tuple_name [n])\<rparr> @ r) d = Inl Null_Pointer)"
proof (intro conjI impI)
  show "read_msg X (Suc (length bs)) bs d \<noteq> Inl Out_Of_Fuel"
    using read_enough(1) [OF assms, of "Suc (length bs)"] by (auto simp: enough_def dest!: spec [of _ bs] spec [of _ d])
next
  assume t: "t \<in> set sorted_builtin_types \<and> t \<noteq> T_message"
  then have "type_nr t \<noteq> 0" "by_type_nr (type_nr t) = Some (Builtin t)" using builtin_type_nr type_nr_bytes by simp_all
  then show "read_msg X (Suc f) (int_bytes (type_nr t) @ r) d
      = (case read_builtin X t r d of Inl e \<Rightarrow> Inl e | Inr _ \<Rightarrow> Inl Type_Confusion)"
    using t by (simp add: begin_object_rd_def bind_rd_def lift_rd_def split: sum.splits)
next
  assume "unat nr > length sorted_builtin_types"
  then have "nr \<noteq> 0" "by_type_nr nr = None" by (auto simp: by_type_nr_def)
  then show "read_msg X (Suc f) (int_bytes nr @ r) d = Inl Out_Of_Bounds"
    by (simp add: begin_object_rd_def bind_rd_def lift_rd_def)
qed (use read_unknown_element [OF assms] in blast)

theorem malformed_messages_witness:
  "read_msg sample_codec 1 [34, 0] sample_nspace = Inl Type_Confusion
   \<and> read_msg sample_codec 1 (begin_object_out \<lparr>uti_nr = 0, uti_name = str_bytes ''@<>+foo''\<rparr>) sample_nspace = Inl Null_Pointer"
proof -
  have u: "T_unit \<in> set sorted_builtin_types" "int_bytes (type_nr T_unit) = [34, 0]" "tuple_name [''foo''] = ''@<>+foo''"
    "''foo'' \<notin> set numbered_type_names" by code_simp+
  have "read_msg sample_codec (Suc 0) (int_bytes (type_nr T_unit) @ []) sample_nspace = Inl Type_Confusion"
    using malformed_messages [OF sample_codec_good, of "[]" sample_nspace T_unit 0 "[]" 0 "[]"] u(1) by (simp add: ret_rd_def)
  moreover have "read_msg sample_codec (Suc 0) (begin_object_out \<lparr>uti_nr = 0, uti_name = str_bytes (tuple_name [''foo''])\<rparr> @ []) sample_nspace
      = Inl Null_Pointer"
    using malformed_messages [OF sample_codec_good, of "[]" sample_nspace T_unit 0 "[]" 0 "''foo''"] u(4)
    by (simp add: sample_nspace_def sorted_names_def)
  ultimately show ?thesis using u by simp
qed

section \<open>Types of received values\<close>

text \<open>Sets and maps of strings are sorted and without repetitions, and an all-zero node is invalid.\<close>

fun wf_value :: "elem \<Rightarrow> bool" where
  "wf_value (Strset ss) = sorted_names id ss"
| "wf_value (Strmap m) = sorted_names fst m"
| "wf_value (Node n) = wire_node n"
| "wf_value (Msg es) = list_all wf_value es"
| "wf_value e = True"

fun has_type :: "uti_ref option \<Rightarrow> elem \<Rightarrow> bool" where
  "has_type None e = False"
| "has_type (Some (Builtin t)) e = (type_of e = t)"
| "has_type (Some (User_Type k)) e = (type_of e = T_custom k)"
| "has_type (Some (Meta_Message us)) e = (type_of e = T_message)"

lemma set_map_insert: "e' \<in> set (map_insert e m) \<Longrightarrow> e' = e \<or> e' \<in> set m"
  by (induction m) (auto split: if_splits)

lemma map_insert_sorted: "sorted_names fst m \<Longrightarrow> sorted_names fst (map_insert e m)"
proof (induction m)
  case (Cons f m)
  have "sorted_names fst (map_insert e m)" using Cons by (simp add: sorted_names_def)
  then show ?case using Cons.prems string_less_linear [of "fst e" "fst f"]
    by (auto simp: sorted_names_def dest!: set_map_insert intro: string_less_trans)
qed (simp add: sorted_names_def)

lemma set_strset_insert: "t \<in> set (strset_insert s ts) \<Longrightarrow> t = s \<or> t \<in> set ts"
  by (induction ts) (auto split: if_splits)

lemma strset_insert_sorted: "sorted_names id ts \<Longrightarrow> sorted_names id (strset_insert s ts)"
proof (induction ts)
  case (Cons t ts)
  have "sorted_names id (strset_insert s ts)" using Cons by (simp add: sorted_names_def)
  then show ?case using Cons.prems string_less_linear [of s t]
    by (auto simp: sorted_names_def dest!: set_strset_insert intro: string_less_trans)
qed (simp add: sorted_names_def)

lemma fold_insert_sorted:
  "sorted_names fst m \<Longrightarrow> sorted_names fst (fold map_insert es m)" "sorted_names id ts \<Longrightarrow> sorted_names id (fold strset_insert ss ts)"
  by (induction es arbitrary: m) (simp_all add: map_insert_sorted, induction ss arbitrary: ts, simp_all add: strset_insert_sorted)

definition yields :: "('x \<Rightarrow> bool) \<Rightarrow> ('x, 's) source \<Rightarrow> bool" where
  "yields P m \<longleftrightarrow> (\<forall>bs s x r t. m bs s = Inr (x, r, t) \<longrightarrow> P x)"

lemma yields_map: "(\<And>x. Q x \<Longrightarrow> P (g x)) \<Longrightarrow> yields Q m \<Longrightarrow> yields P (map_rd g m)"
  by (fastforce simp: yields_def map_rd_def bind_rd_def ret_rd_def split: sum.splits)

lemma yields_any: "yields (\<lambda>x. True) m"
  by (simp add: yields_def)

lemma yields_ret: "P x \<Longrightarrow> yields P (ret_rd x)"
  by (simp add: yields_def ret_rd_def)

lemma yields_bind: "(\<And>x. Q x \<Longrightarrow> yields P (k x)) \<Longrightarrow> yields Q m \<Longrightarrow> yields P (bind_rd m k)"
  by (fastforce simp: yields_def bind_rd_def split: sum.splits)

lemma yields_error: "yields P (\<lambda>bs s. Inl e)"
  by (simp add: yields_def)

lemma yields_node: "yields wire_node (lift_rd read_node)"
  using bytes_of_read_node by (auto simp: yields_def lift_rd_def split: sum.splits)

lemma yields_builtin: "yields (\<lambda>e. type_of e = t \<and> wf_value e) (read_builtin X t)"
proof (cases "t = T_node")
  case True
  then show ?thesis by (auto intro: yields_map [OF _ yields_node])
next
  case False
  have o: "wf_value (Opaque u k)" "wf_value (Strmap (fold map_insert es []))" "wf_value (Strset (fold strset_insert ss []))" for u k es ss
    using fold_insert_sorted [of "[]"] by (simp_all add: sorted_names_def)
  show ?thesis using False
    by (cases t) (auto simp: rd_int_def intro!: yields_map [OF _ yields_any] yields_ret simp del: wf_value.simps(1,2) intro: o)
qed

lemma read_typed:
  fixes X :: "'a nspace_scheme codec_env"
  shows "yields (list_all wf_value) (read_msg X f)"
    and "yields (\<lambda>e. has_type (Some u) e \<and> wf_value e) (read_val X f u)"
    and "yields (\<lambda>es. list_all2 has_type us es \<and> list_all wf_value es) (read_vals X f us)"
proof (induction X f and X f u and X f us rule: read_msg_read_val_read_vals.induct)
  case (2 X f)
  show ?case unfolding read_msg.simps
  proof (rule yields_bind [OF _ yields_any])
    fix u
    have "yields (list_all wf_value) (read_vals X f us)" if "u = Meta_Message us" "creatable u" for us
    proof -
      have "yields (\<lambda>es. list_all2 has_type us es \<and> list_all wf_value es) (read_vals X f us)"
        using that by (rule 2(5))
      then show ?thesis unfolding yields_def by blast
    qed
    moreover have "yields (list_all wf_value) (read_msg X f)" if "u = Builtin T_message"
      using that by (rule 2(1) [OF _ that])
    ultimately show "yields (list_all wf_value) (case u of Meta_Message us \<Rightarrow> if creatable u then read_vals X f us else (\<lambda>bs s. Inl Null_Pointer)
      | _ \<Rightarrow> if u = Builtin T_message then read_msg X f else bind_rd (read_val X f u) (\<lambda>x bs s. Inl Type_Confusion))"
      by (cases u) (auto simp del: read_val.simps creatable.simps intro!: yields_error yields_bind [OF _ yields_any])
  qed
next
  case (3 X f t)
  show ?case
  proof (cases "t = T_message")
    case True
    have "yields (\<lambda>e. type_of e = T_message \<and> wf_value e) (map_rd Msg (read_msg X f))" by (rule yields_map [OF _ 3 [OF True]]) simp
    then show ?thesis using True by simp
  next
    case False
    then show ?thesis using yields_builtin [of t X] by simp
  qed
next
  case (4 X f k)
  show ?case using yields_builtin [of "T_custom k" X] by simp
next
  case (5 X f us)
  show ?case unfolding read_val.simps by (rule yields_map [OF _ 5]) simp
next
  case (8 X f u us)
  show ?case unfolding read_vals.simps
  proof (rule yields_bind [OF _ 8(1)])
    fix x assume x: "has_type (Some u) x \<and> wf_value x"
    have v: "yields (\<lambda>es. list_all2 has_type us es \<and> list_all wf_value es) (read_vals X f us)" using 8(2) by blast
    show "yields (\<lambda>es. list_all2 has_type (Some u # us) es \<and> list_all wf_value es) (map_rd ((#) x) (read_vals X f us))"
      by (rule yields_map [OF _ v]) (use x in simp)
  qed
qed (simp_all add: yields_error yields_ret)

text \<open>
  C17: Whatever bytes arrive, a message that is read has exactly the types of the tuple type the node
  finds under the name in the header, and its
  values are well-formed: sets and maps are sorted without repetitions and the all-zero node id is
  invalid, in nested messages as well.
\<close>

theorem received_values_typed:
  assumes "begin_object_rd X bs d = Inr (Meta_Message us, q, d1)" and "read_msg X (Suc f) bs d = Inr (msg, r, t)"
  shows "list_all2 has_type us msg \<and> list_all wf_value msg"
proof -
  have "read_vals X f us q d1 = Inr (msg, r, t)" using assms by (simp add: bind_rd_def split: if_splits)
  then show ?thesis using read_typed(3) [of us X f] unfolding yields_def by blast
qed

definition strset_bytes :: "u8 list" where
  "strset_bytes = begin_object_out \<lparr>uti_nr = 0, uti_name = str_bytes ''@<>+@strset''\<rparr>
    @ [3, 0, 0, 0] @ [1, 0, 0, 0, 98] @ [1, 0, 0, 0, 97] @ [1, 0, 0, 0, 98]"

text \<open>The bytes name the strings b, a and b; the set that is read is sorted and has no repetitions.\<close>

theorem received_values_typed_witness:
  "\<exists>q d1 r t. begin_object_rd sample_codec strset_bytes sample_nspace = Inr (Meta_Message [Some (Builtin T_strset)], q, d1)
    \<and> read_msg sample_codec (Suc 0) strset_bytes sample_nspace = Inr ([Strset [''a'', ''b'']], r, t)
    \<and> list_all2 has_type [Some (Builtin T_strset)] [Strset [''a'', ''b'']] \<and> list_all wf_value [Strset [''a'', ''b'']]"
proof -
  have "map_sum id (\<lambda>(u, q, d1). u) (begin_object_rd sample_codec strset_bytes sample_nspace) = Inr (Meta_Message [Some (Builtin T_strset)])"
    by code_simp
  then obtain q d1 where b: "begin_object_rd sample_codec strset_bytes sample_nspace = Inr (Meta_Message [Some (Builtin T_strset)], q, d1)"
    by (cases "begin_object_rd sample_codec strset_bytes sample_nspace") auto
  have "map_sum id (\<lambda>(u, q, d1). u) (read_msg sample_codec (Suc 0) strset_bytes sample_nspace) = Inr [Strset [''a'', ''b'']]" by code_simp
  then obtain r t where m: "read_msg sample_codec (Suc 0) strset_bytes sample_nspace = Inr ([Strset [''a'', ''b'']], r, t)"
    by (cases "read_msg sample_codec (Suc 0) strset_bytes sample_nspace") auto
  show ?thesis using received_values_typed [OF b m] b m by blast
qed

end
