(* ===== verification/Basp_Broker.thy ===== *)
theory Basp_Broker
  imports Basp_Instance Message_Wire Local_Actor
begin

text \<open>
  The broker of a BASP node (basp\_broker.hpp, basp\_broker.cpp): contexts of connections, creation of
  proxies, the callbacks of the protocol instance, spawn servers, and the handlers of its behavior. It
  composes the routing table, the namespace, the protocol instance, the registry and the wire format
  of messages on one state. Functors the broker attaches to actors hand a task to the multiplexer; the
  tasks are the events of the world that follow position io\_seen. The multiplexer itself, which may
  refuse to assign a socket, and user codecs are parameters.
\<close>

section \<open>State\<close>

record connection_context =
  cx_state :: connection_state
  cx_hdr :: header
  cx_hdl :: connection_handle
  cx_id :: node_id
  cx_port :: u16
  cx_callback :: "response_promise option"

datatype io_functor = Erase_Proxy node_id nat | Send_Kill node_id u32

text \<open>
  The context pointer is the handle of the context; the map of scribes holds the open connections, and
  doormen are listed with their ports in the order of their map.
\<close>

record broker = basp +
  bk_self :: nat
  bk_ids :: u32
  bk_ctx :: "connection_handle \<rightharpoonup> connection_context"
  bk_this :: connection_handle
  known_remotes :: "node_id \<rightharpoonup> u16 \<times> actor_addr"
  spawn_servers :: "node_id \<rightharpoonup> nat"
  auto_connect :: bool
  io_functors :: "nat \<rightharpoonup> io_functor"
  io_seen :: nat
  rd_policy :: "connection_handle \<rightharpoonup> nat"
  scribes :: "connection_handle set"
  doormen :: "(u64 \<times> u16) list"

text \<open>Parameters: the iteration order of hop sets, made a permutation, and the codecs of the user.\<close>

record broker_env =
  be_order :: "node_id list \<Rightarrow> node_id list"
  be_codec :: "broker codec_env"

definition order_of :: "broker_env \<Rightarrow> node_id list \<Rightarrow> node_id list" where
  "order_of B xs = (if mset (be_order B xs) = mset xs then be_order B xs else xs)"

definition on_world :: "(world \<Rightarrow> world) \<Rightarrow> broker \<Rightarrow> broker" where
  "on_world f s = s\<lparr>ns_reg := with_world f (ns_reg s)\<rparr>"

definition current_id :: "broker \<Rightarrow> node_id" where
  "current_id s = (case bk_ctx s (bk_this s) of None \<Rightarrow> None | Some c \<Rightarrow> cx_id c)"

definition update_context :: "(connection_context \<Rightarrow> connection_context) \<Rightarrow> broker \<Rightarrow> broker" where
  "update_context f s = s\<lparr>bk_ctx := (bk_ctx s)(bk_this s := map_option f (bk_ctx s (bk_this s)))\<rparr>"

definition deliver_promise :: "response_promise \<Rightarrow> elem list \<Rightarrow> broker \<Rightarrow> broker" where
  "deliver_promise p m s = (if rp_to p = None then s
     else on_world (enqueue_addr std_atoms (rp_to p) (rp_from p) (rp_id p) m) s)"

section \<open>Actors of the node\<close>

text \<open>A new local actor takes the next actor id, a proxy the id of the remote actor.\<close>

definition spawn_hidden :: "broker \<Rightarrow> nat \<times> broker" where
  "spawn_hidden s = (let a = next_actor s; w = ns_wld s in
     (a, s\<lparr>ns_reg := (ns_reg s)\<lparr>wld := w\<lparr>actor_at := (actor_at w)(a := new_actor (bk_ids s))\<rparr>\<rparr>,
           actor_node := (actor_node s)(a := ns_node s), next_actor := Suc a, bk_ids := bk_ids s + 1\<rparr>))"

definition new_remote :: "node_id \<Rightarrow> u32 \<Rightarrow> broker \<Rightarrow> nat \<times> broker" where
  "new_remote n aid s = (let a = next_actor s; w = ns_wld s in
     (a, s\<lparr>ns_reg := (ns_reg s)\<lparr>wld := w\<lparr>actor_at := (actor_at w)(a := new_proxy aid (bk_self s))\<rparr>\<rparr>,
           actor_node := (actor_node s)(a := n), next_actor := Suc a\<rparr>))"

definition register_actor :: "nat \<Rightarrow> broker \<Rightarrow> broker" where
  "register_actor a s = s\<lparr>ns_reg := put (actor_id_of s a) (Some a) (ns_reg s)\<rparr>"

definition attach_io :: "io_functor \<Rightarrow> nat \<Rightarrow> broker \<Rightarrow> broker" where
  "attach_io f a s = (let k = next_functor (ns_reg s) in
     (on_world (attach std_atoms a (Some (Functor k))) (s\<lparr>ns_reg := (ns_reg s)\<lparr>next_functor := Suc k\<rparr>\<rparr>))
       \<lparr>io_functors := (io_functors s)(k \<mapsto> f)\<rparr>)"

section \<open>Learning about nodes\<close>

definition max_actor_id :: u32 where "max_actor_id = - 1"

text \<open>A message to a named actor: the name is in the operation data.\<close>

definition write_named :: "broker_env \<Rightarrow> connection_handle \<Rightarrow> node_id \<Rightarrow> string \<Rightarrow> nat \<Rightarrow> elem list \<Rightarrow> broker \<Rightarrow> broker" where
  "write_named B h n name src msg s = (case write_msg (be_codec B) msg s of
     Inl e \<Rightarrow> s
   | Inr (payload, s1) \<Rightarrow> flush h (set_buf h (fst (basp_write (wr_bufs s1 h) dispatch_message 0 (atom_val name 0xF)
       (ns_node s1) n (actor_id_of s1 src) max_actor_id (Some payload))) s1))"

definition learned_new_node :: "broker_env \<Rightarrow> node_id \<Rightarrow> broker \<Rightarrow> broker" where
  "learned_new_node B n s = (let (tmp, s1) = spawn_hidden s;
     s2 = register_actor tmp (s1\<lparr>spawn_servers := (spawn_servers s1)(n \<mapsto> tmp)\<rparr>) in
     case lookup_route n s2 of
       (None, s3) \<Rightarrow> s3
     | (Some (h, hop), s3) \<Rightarrow> write_named B h n ''SpawnServ'' tmp [Atom sys_atom, Atom get_atom, Str ''info''] s3)"

definition learned_new_node_directly :: "broker_env \<Rightarrow> node_id \<Rightarrow> bool \<Rightarrow> broker \<Rightarrow> broker" where
  "learned_new_node_directly B n was_indirectly_before s = (if was_indirectly_before then s else learned_new_node B n s)"

definition learned_new_node_indirectly :: "broker_env \<Rightarrow> node_id \<Rightarrow> broker \<Rightarrow> broker" where
  "learned_new_node_indirectly B n s = (let s1 = learned_new_node B n s in
     if \<not> auto_connect s1 then s1
     else (case lookup_route n s1 of
         (None, s2) \<Rightarrow> s2
       | (Some (h, hop), s2) \<Rightarrow> if node_eq hop n then s2
           else let (tmp, s3) = spawn_hidden s2 in
             write_named B h n ''ConfigServ'' tmp [Atom get_atom, Str ''basp.default-connectivity''] (register_actor tmp s3)))"

section \<open>Proxies\<close>

text \<open>A node that sends the handle of an actor of a third node is assumed to offer a route to it.\<close>

definition assume_route :: "broker_env \<Rightarrow> node_id \<Rightarrow> broker \<Rightarrow> broker" where
  "assume_route B n s = (if \<not> node_eq n (current_id s) \<and> lookup_direct n s = invalid_connection_handle
     then (case add_indirect (order_of B) (current_id s) n s of
         (added, t) \<Rightarrow> if added then learned_new_node_indirectly B n t else t)
     else s)"

text \<open>
  The announcement is written to the connection of the current context, whatever the route to the
  node is, and the route is flushed.
\<close>

definition create_proxy :: "node_id \<Rightarrow> u32 \<Rightarrow> connection_handle \<Rightarrow> broker \<Rightarrow> nat \<times> broker" where
  "create_proxy n aid h s = (let (p, s1) = new_remote n aid s;
     s2 = attach_io (Erase_Proxy n p) p s1;
     s3 = set_buf (bk_this s2) (write_announce_proxy (ns_node s2) n aid (wr_bufs s2 (bk_this s2))) s2 in
     (p, notify_hook (New_Remote_Actor (Some p)) (flush h s3)))"

definition make_proxy :: "broker_env \<Rightarrow> node_id \<Rightarrow> u32 \<Rightarrow> broker \<Rightarrow> actor_addr \<times> broker" where
  "make_proxy B n aid s = (if n = None \<or> aid = 0 then (None, s)
     else (case lookup_route n (assume_route B n s) of
         (None, s2) \<Rightarrow> (None, s2)
       | (Some (h, hop), s2) \<Rightarrow> (case create_proxy n aid h s2 of (p, s3) \<Rightarrow> (Some p, s3))))"

abbreviation codec_of :: "broker_env \<Rightarrow> broker codec_env" where
  "codec_of B \<equiv> (be_codec B)\<lparr>backend := make_proxy B\<rparr>"

section \<open>Callbacks of the protocol\<close>

definition finalize_handshake :: "broker_env \<Rightarrow> node_id \<Rightarrow> u32 \<Rightarrow> u8 list list \<Rightarrow> broker \<Rightarrow> broker" where
  "finalize_handshake B n aid sigs s = (let s1 = update_context (\<lambda>c. c\<lparr>cx_id := n\<rparr>) s in
     case Option.bind (bk_ctx s1 (bk_this s1)) (\<lambda>c. map_option (Pair c) (cx_callback c)) of
       None \<Rightarrow> s1
     | Some (c, cb) \<Rightarrow>
         let reply = (\<lambda>addr t. update_context (\<lambda>c. c\<lparr>cx_callback := None\<rparr>)
           (deliver_promise cb [Atom ok_atom, Node n, Addr addr, Strset (map bytes_str sigs)] t)) in
         if aid = 0 then reply None s1
         else let (addr, s2) = (if node_eq n (ns_node s1) then (get_actor aid (ns_reg s1), s1)
               else get_or_put (make_proxy B) n aid s1);
             s3 = (if is_remote s2 addr \<and> known_remotes s2 n = None
               then s2\<lparr>known_remotes := (known_remotes s2)(n \<mapsto> (cx_port c, addr))\<rparr> else s2) in
           reply addr s3)"

definition purge_state :: "node_id \<Rightarrow> broker \<Rightarrow> broker" where
  "purge_state n s = (let hdl = lookup_direct n s in
     if hdl = invalid_connection_handle then s
     else (erase_proxies n s)\<lparr>bk_ctx := (bk_ctx s)(hdl := None), known_remotes := (known_remotes s)(n := None)\<rparr>)"

definition send_kill_proxy_instance :: "node_id \<Rightarrow> u32 \<Rightarrow> u32 \<Rightarrow> broker \<Rightarrow> broker" where
  "send_kill_proxy_instance n aid rsn s = (case lookup_route n s of
     (None, s1) \<Rightarrow> s1
   | (Some (h, hop), s1) \<Rightarrow> flush h (set_buf h (write_kill_proxy_instance (ns_node s1) n aid rsn (wr_bufs s1 h)) s1))"

text \<open>An entry without exit reason always holds an actor.\<close>

definition proxy_announced :: "node_id \<Rightarrow> u32 \<Rightarrow> broker \<Rightarrow> broker" where
  "proxy_announced n aid s = (case get_entry aid (ns_reg s) of (a, rsn) \<Rightarrow>
     if rsn \<noteq> not_exited then send_kill_proxy_instance n aid rsn s
     else (case a of None \<Rightarrow> s | Some x \<Rightarrow> attach_io (Send_Kill n aid) x s))"

definition broker_kill_proxy :: "node_id \<Rightarrow> u32 \<Rightarrow> u32 \<Rightarrow> broker \<Rightarrow> broker" where
  "broker_kill_proxy n aid rsn s = erase_proxy n aid rsn s"

text \<open>The destination of a message: an actor or the reason why there is none.\<close>

definition find_destination :: "broker_env \<Rightarrow> node_id \<Rightarrow> u32 \<Rightarrow> message_id \<Rightarrow> broker \<Rightarrow> actor_addr \<times> u32 \<times> message_id \<times> broker" where
  "find_destination B n aid i s =
     (if \<not> node_eq n (ns_node s) then (case get_or_put (make_proxy B) n aid s of (a, s1) \<Rightarrow> (a, remote_link_unreachable, i, s1))
      else if aid = max_actor_id then (get_named (integer_value i) (ns_reg s), remote_link_unreachable, make_mid normal, s)
      else (case get_entry aid (ns_reg s) of (a, rsn) \<Rightarrow> (a, rsn, i, s)))"

definition broker_deliver ::
  "broker_env \<Rightarrow> node_id \<Rightarrow> u32 \<Rightarrow> node_id \<Rightarrow> u32 \<Rightarrow> elem list \<Rightarrow> message_id \<Rightarrow> broker \<Rightarrow> broker" where
  "broker_deliver B sn sa dn da msg i s =
     (let (src, s1) = (if node_eq sn (ns_node s) then (get_actor sa (ns_reg s), s) else get_or_put (make_proxy B) sn sa s);
        (dest, rsn, i', s2) = find_destination B dn da i s1 in
      case dest of
        None \<Rightarrow> (let s3 = notify_hook (Invalid_Message_Received sn src da i' msg) s2 in
          if valid i' \<and> src \<noteq> None then on_world (bounce rsn src i') s3 else s3)
      | Some d \<Rightarrow> on_world (enqueue_to std_atoms d src i' msg) (notify_hook (Message_Received sn src (Some d) i' msg) s2))"

definition broker_callee :: "broker_env \<Rightarrow> broker callee" where
  "broker_callee B = \<lparr>cl_finalize_handshake = finalize_handshake B, cl_purge_state = purge_state,
     cl_proxy_announced = proxy_announced, cl_kill_proxy = broker_kill_proxy, cl_deliver = broker_deliver B,
     cl_learned_new_node_directly = learned_new_node_directly B,
     cl_learned_new_node_indirectly = learned_new_node_indirectly B\<rparr>"

definition broker_io :: "broker_env \<Rightarrow> broker basp_env" where
  "broker_io B = \<lparr>hop_order = order_of B, wr_msg = write_msg (codec_of B),
     rd_msg = (\<lambda>bs s. case read_msg (codec_of B) (Suc (length bs)) bs s of Inl e \<Rightarrow> Inl e | Inr (m, r, t) \<Rightarrow> Inr (m, t))\<rparr>"

section \<open>Contexts\<close>

definition set_context :: "connection_handle \<Rightarrow> broker \<Rightarrow> broker" where
  "set_context h s = (s\<lparr>bk_ctx := (bk_ctx s)(h \<mapsto> (case bk_ctx s h of Some c \<Rightarrow> c
     | None \<Rightarrow> \<lparr>cx_state = await_header, cx_hdr = blank_header, cx_hdl = h, cx_id = None, cx_port = 0, cx_callback = None\<rparr>)),
     bk_this := h\<rparr>)"

definition erase_context :: "connection_handle \<Rightarrow> broker \<Rightarrow> bool \<times> broker" where
  "erase_context h s = (case bk_ctx s h of None \<Rightarrow> (False, s)
     | Some c \<Rightarrow> (True, (case cx_callback c of None \<Rightarrow> s
         | Some cb \<Rightarrow> deliver_promise cb [Atom error_atom, Str ''disconnect during handshake''] s)\<lparr>bk_ctx := (bk_ctx s)(h := None)\<rparr>))"

section \<open>Handlers\<close>

definition close_connection_of :: "connection_handle \<Rightarrow> broker \<Rightarrow> broker" where
  "close_connection_of h s = s\<lparr>scribes := scribes s - {h}\<rparr>"

definition on_new_data :: "broker_env \<Rightarrow> connection_handle \<Rightarrow> u8 list \<Rightarrow> broker \<Rightarrow> io_error + broker" where
  "on_new_data B h bytes s = (let s1 = set_context h s; c = the (bk_ctx s1 h) in
     case handle_data (broker_io B) (broker_callee B) h bytes (cx_hdr c) (cx_state c = await_payload) s1 of
       Inl e \<Rightarrow> Inl e
     | Inr (st1, hdr, s2) \<Rightarrow>
         if st1 = close_connection then Inr ((close_connection_of h s2)\<lparr>bk_ctx := (bk_ctx s2)(h := None)\<rparr>)
         else let s3 = update_context (\<lambda>c. c\<lparr>cx_hdr := hdr\<rparr>) s2 in
           if st1 = cx_state c then Inr s3
           else Inr (update_context (\<lambda>c. c\<lparr>cx_state := st1\<rparr>) (s3\<lparr>rd_policy := (rd_policy s3)(h \<mapsto>
             (if st1 = await_payload then unat (payload_len hdr) else header_size))\<rparr>)))"

text \<open>
  A scribe that was detached ignores data; another one flushes its buffer after the broker handled the
  data.
\<close>

definition consume :: "broker_env \<Rightarrow> connection_handle \<Rightarrow> u8 list \<Rightarrow> broker \<Rightarrow> io_error + broker" where
  "consume B h bytes s = (if h \<notin> scribes s then Inr s
     else (case on_new_data B h bytes s of Inl e \<Rightarrow> Inl e | Inr t \<Rightarrow> Inr (flush h t)))"

definition on_forward :: "broker_env \<Rightarrow> actor_addr \<Rightarrow> actor_addr \<Rightarrow> message_id \<Rightarrow> elem list \<Rightarrow> broker \<Rightarrow> io_error + broker" where
  "on_forward B src dst i msg s = (case dst of None \<Rightarrow> Inr s
     | Some r \<Rightarrow> if \<not> is_remote s dst then Inr s
         else let s1 = (case src of None \<Rightarrow> s | Some a \<Rightarrow> if is_remote s src then s else register_actor a s) in
           case dispatch (broker_io B) src r i msg s1 of
             Inl e \<Rightarrow> Inl e
           | Inr (ok, s2) \<Rightarrow> if \<not> ok \<and> is_request i then Inr (on_world (bounce remote_link_unreachable src i) s2) else Inr s2)"

definition local_port :: "u64 \<Rightarrow> broker \<Rightarrow> u16" where
  "local_port a s = (case map_of (doormen s) a of Some p \<Rightarrow> p | None \<Rightarrow> 0)"

definition on_new_connection :: "connection_handle \<Rightarrow> u64 \<Rightarrow> broker \<Rightarrow> broker" where
  "on_new_connection h acceptor s = (let s1 = flush h (server_handshake_for h (Some (local_port acceptor s)) s) in
     s1\<lparr>rd_policy := (rd_policy s1)(h \<mapsto> header_size)\<rparr>)"

definition on_connection_closed :: "broker_env \<Rightarrow> connection_handle \<Rightarrow> broker \<Rightarrow> broker" where
  "on_connection_closed B h s = (case erase_context h s of
     (False, s1) \<Rightarrow> s1
   | (True, s1) \<Rightarrow> let n = lookup_node h s1 in
       if n = None then s1 else erase_proxies n (handle_node_shutdown (broker_callee B) n s1))"

definition on_acceptor_closed :: "u64 \<Rightarrow> broker \<Rightarrow> broker" where
  "on_acceptor_closed a s = snd (remove_published_port None (local_port a s) s)"

text \<open>A doorman adds the scribe of a connection it accepts before it tells the broker.\<close>

definition accept_connection :: "connection_handle \<Rightarrow> u64 \<Rightarrow> broker \<Rightarrow> broker" where
  "accept_connection h acceptor s = on_new_connection h acceptor (s\<lparr>scribes := insert h (scribes s)\<rparr>)"

text \<open>A scribe or doorman that fails is first removed from its map, then the broker is told.\<close>

definition scribe_failure :: "broker_env \<Rightarrow> connection_handle \<Rightarrow> broker \<Rightarrow> broker" where
  "scribe_failure B h s = (if h \<in> scribes s then on_connection_closed B h (close_connection_of h s) else s)"

definition doorman_failure :: "u64 \<Rightarrow> broker \<Rightarrow> broker" where
  "doorman_failure a s = (if a \<in> fst ` set (doormen s) then on_acceptor_closed a (s\<lparr>doormen := delete_key a (doormen s)\<rparr>) else s)"

text \<open>A handle of the multiplexer may fail to be assigned, which is the last argument.\<close>

definition on_publish :: "u64 \<Rightarrow> u16 \<Rightarrow> actor_addr \<Rightarrow> u8 list list \<Rightarrow> bool \<Rightarrow> broker \<Rightarrow> broker" where
  "on_publish hdl port whom sigs assigned s = (case whom of None \<Rightarrow> s
     | Some a \<Rightarrow> if hdl = - 1 \<or> \<not> assigned then s
         else add_published_actor port whom sigs (register_actor a (s\<lparr>doormen := (hdl, port) # delete_key hdl (doormen s)\<rparr>)))"

definition on_connect :: "connection_handle \<Rightarrow> u16 \<Rightarrow> response_promise \<Rightarrow> string option \<Rightarrow> broker \<Rightarrow> broker" where
  "on_connect h port rp failure s = (case failure of
     Some what \<Rightarrow> deliver_promise rp [Atom error_atom, Str (''failed to assign scribe from handle: '' @ what)] s
   | None \<Rightarrow> let c = (case bk_ctx s h of Some c \<Rightarrow> c
         | None \<Rightarrow> \<lparr>cx_state = await_header, cx_hdr = blank_header, cx_hdl = h, cx_id = None, cx_port = 0, cx_callback = None\<rparr>) in
       s\<lparr>scribes := insert h (scribes s),
         bk_ctx := (bk_ctx s)(h \<mapsto> c\<lparr>cx_hdl := h, cx_port := port, cx_state := await_header, cx_callback := Some rp\<rparr>),
         rd_policy := (rd_policy s)(h \<mapsto> header_size)\<rparr>)"

definition on_delete :: "node_id \<Rightarrow> u32 \<Rightarrow> broker \<Rightarrow> broker" where
  "on_delete n aid s = erase_proxy n aid remote_link_unreachable s"

definition hdl_by_port :: "u16 \<Rightarrow> broker \<Rightarrow> u64 option" where
  "hdl_by_port p s = map_option fst (find (\<lambda>e. snd e = p) (doormen s))"

definition close_port :: "u16 \<Rightarrow> broker \<Rightarrow> broker" where
  "close_port p s = (case hdl_by_port p s of None \<Rightarrow> s | Some a \<Rightarrow> s\<lparr>doormen := delete_key a (doormen s)\<rparr>)"

definition on_unpublish :: "actor_addr \<Rightarrow> u16 \<Rightarrow> broker \<Rightarrow> elem list \<times> broker" where
  "on_unpublish whom port s = (if whom = None then ([Atom error_atom, Str ''whom == invalid_actor_addr''], s)
     else (case remove_published_actor (Some (\<lambda>w p. close_port p)) whom port s of
         (n, s1) \<Rightarrow> (if n = 0 then [Atom error_atom, Str ''no mapping found''] else [Atom ok_atom], s1)))"

definition on_close :: "u16 \<Rightarrow> broker \<Rightarrow> elem list \<times> broker" where
  "on_close port s = (if port = 0 then ([Atom error_atom, Str ''port == 0''], s)
     else let s1 = snd (remove_published_port None port s) in
       case hdl_by_port port s1 of
         Some a \<Rightarrow> ([Atom ok_atom], close_port port s1)
       | None \<Rightarrow> ([Atom error_atom, Str ''no doorman for given port found''], s1))"

text \<open>A spawn request is delegated to the spawn server of the node, which is told who asked.\<close>

definition on_spawn :: "node_id \<Rightarrow> string \<Rightarrow> elem list \<Rightarrow> actor_addr \<Rightarrow> message_id \<Rightarrow> broker \<Rightarrow> broker" where
  "on_spawn n type args client i s = (case spawn_servers s n of
     None \<Rightarrow> deliver_promise \<lparr>rp_from = Some (bk_self s), rp_to = client, rp_id = response_id i\<rparr>
       [Atom error_atom, Str ''no connection to requested node''] s
   | Some srv \<Rightarrow> on_world (enqueue_to std_atoms srv client (with_normal_priority i) [Atom spawn_atom, Str type, Msg args]) s)"

text \<open>
  The answer of the configuration server. Opening a port may fail; the addresses of the interfaces
  are a value of a type of its own.
\<close>

definition on_config :: "string \<Rightarrow> elem list \<Rightarrow> (u64 \<times> u16) option \<Rightarrow> elem \<Rightarrow> broker \<Rightarrow> io_error + broker" where
  "on_config key val door addrs s =
     (if key = ''global.enable-automatic-connections'' \<and> val = [Bool True] then
        (case door of None \<Rightarrow> Inl (Runtime_Error ''network'')
         | Some (hdl, port) \<Rightarrow>
             let s1 = s\<lparr>doormen := (hdl, port) # delete_key hdl (doormen s)\<rparr>;
               cs = get_named (atom_val ''ConfigServ'' 0xF) (ns_reg s1) in
             Inr ((on_world (enqueue_addr std_atoms cs (Some (bk_self s1)) (make_mid normal)
               [Atom put_atom, Str ''basp.default-connectivity'', Msg [U16 port, addrs]]) s1)\<lparr>auto_connect := True\<rparr>))
      else Inr s)"

text \<open>At its start the broker asks the configuration server whether to open a default port.\<close>

definition broker_init :: "broker \<Rightarrow> broker" where
  "broker_init s = on_world (enqueue_addr std_atoms (get_named (atom_val ''ConfigServ'' 0xF) (ns_reg s)) (Some (bk_self s))
     (make_mid normal) [Atom get_atom, Str ''global.enable-automatic-connections'']) s"

text \<open>
  The spawn server of a node: it waits for the address of the remote configuration server, watches it
  and hands spawn requests on to it. Messages it does not match stay in its mailbox at first and are
  dropped later; no message is the timeout of five minutes.
\<close>

datatype spawn_server = Srv_Waiting | Srv_Serving actor_addr

datatype helper_out = Out_Monitor actor_addr | Out_Delegate actor_addr "elem list" | Out_Connect connection_handle u16
  | Out_Quit u32 | Out_Skip

definition spawn_server_step :: "spawn_server \<Rightarrow> elem list option \<Rightarrow> helper_out list \<times> spawn_server" where
  "spawn_server_step v input = (case v of
     Srv_Waiting \<Rightarrow> (case input of
         None \<Rightarrow> ([Out_Quit exit_normal], v)
       | Some [Atom a, Str key, Addr cs, Str name] \<Rightarrow>
           if a = ok_atom then ([Out_Monitor cs], Srv_Serving cs) else ([Out_Skip], v)
       | Some _ \<Rightarrow> ([Out_Skip], v))
   | Srv_Serving cs \<Rightarrow> (case input of
         Some [Atom a, Str type, Msg args] \<Rightarrow>
           if a = spawn_atom then ([Out_Delegate cs [Atom get_atom, Str type, Msg args]], v) else ([], v)
       | Some [Down src rsn] \<Rightarrow> ([Out_Quit rsn], v)
       | _ \<Rightarrow> ([], v)))"

text \<open>
  The helper that tries to connect to a node directly: of the addresses in the answer it takes the
  first one that accepts a connection. Reading the listing and connecting are up to the multiplexer.
\<close>

datatype protocol = ethernet | ipv4 | ipv6

fun first_connection :: "(string \<Rightarrow> connection_handle option) \<Rightarrow> string list \<Rightarrow> connection_handle option" where
  "first_connection tcp [] = None"
| "first_connection tcp (a # as) = (case tcp a of Some h \<Rightarrow> Some h | None \<Rightarrow> first_connection tcp as)"

definition connection_helper_step ::
  "(elem \<Rightarrow> (protocol \<times> string list) list option) \<Rightarrow> (string \<Rightarrow> u16 \<Rightarrow> connection_handle option)
     \<Rightarrow> elem list option \<Rightarrow> helper_out list" where
  "connection_helper_step listing tcp input = (case input of
     None \<Rightarrow> [Out_Quit user_shutdown]
   | Some [Atom a, Str key, Msg msg] \<Rightarrow> if a \<noteq> ok_atom then [Out_Skip]
       else Out_Quit exit_normal # (case msg of
           [U16 port, v] \<Rightarrow> (case listing v of None \<Rightarrow> []
             | Some l \<Rightarrow> (case first_connection (\<lambda>addr. tcp addr port) (concat (map snd (filter (\<lambda>e. fst e \<noteq> ethernet) l))) of
                   None \<Rightarrow> [] | Some h \<Rightarrow> [Out_Connect h port]))
         | _ \<Rightarrow> [])
   | Some [Down src rsn] \<Rightarrow> [Out_Quit rsn]
   | Some _ \<Rightarrow> [Out_Skip])"

text \<open>Tasks of the multiplexer: functors that ran since the last time.\<close>

definition run_io_functor :: "io_functor \<Rightarrow> u32 \<Rightarrow> broker \<Rightarrow> broker" where
  "run_io_functor f rsn s = (if exited (ns_wld s) (bk_self s) then s
     else (case f of Erase_Proxy n p \<Rightarrow> erase_proxy n (actor_id_of s p) rsn s
       | Send_Kill n aid \<Rightarrow> send_kill_proxy_instance n aid rsn s))"

definition run_io_event :: "event \<Rightarrow> broker \<Rightarrow> broker" where
  "run_io_event e s = (case e of Run_Functor k a rsn \<Rightarrow>
     (case io_functors s k of None \<Rightarrow> s | Some f \<Rightarrow> run_io_functor f rsn s) | _ \<Rightarrow> s)"

definition run_task :: "broker \<Rightarrow> broker" where
  "run_task s = (if io_seen s < length (log (ns_wld s))
     then run_io_event (log (ns_wld s) ! io_seen s) (s\<lparr>io_seen := Suc (io_seen s)\<rparr>) else s)"

section \<open>What the broker leaves alone\<close>

text \<open>
  Proxies and identities of the actors there were, the connections and the contexts stay; actors are
  only added, a consistent table stays consistent, and nodes with a direct route get no other one.
\<close>

definition direct_only :: "broker \<Rightarrow> bool" where
  "direct_only s \<longleftrightarrow> (\<forall>n. lookup_direct n s \<noteq> invalid_connection_handle \<longrightarrow> indirect s n = None)"

definition grows :: "broker \<Rightarrow> broker \<Rightarrow> bool" where
  "grows s t \<longleftrightarrow> proxies t = proxies s \<and> ns_node t = ns_node s \<and> gone t = gone s \<and> scribes t = scribes s
     \<and> direct_by_hdl t = direct_by_hdl s \<and> direct_by_nid t = direct_by_nid s \<and> bk_this t = bk_this s \<and> bk_self t = bk_self s
     \<and> next_actor s \<le> next_actor t
     \<and> (\<forall>a < next_actor s. actor_node t a = actor_node s a \<and> actor_id_of t a = actor_id_of s a)
     \<and> (table_inv s \<longrightarrow> table_inv t) \<and> (direct_only s \<longrightarrow> direct_only t) \<and> dom (bk_ctx t) = dom (bk_ctx s)"

lemma grows_refl [simp]: "grows s s"
  by (simp add: grows_def)

lemma grows_trans [trans]: "grows s t \<Longrightarrow> grows t u \<Longrightarrow> grows s u"
  unfolding grows_def by auto

lemma growsD:
  assumes "grows s t"
  shows "proxies t = proxies s" "ns_node t = ns_node s" "gone t = gone s" "scribes t = scribes s"
    "direct_by_hdl t = direct_by_hdl s" "direct_by_nid t = direct_by_nid s" "bk_this t = bk_this s" "next_actor s \<le> next_actor t"
    and "a < next_actor s \<Longrightarrow> actor_node t a = actor_node s a" "a < next_actor s \<Longrightarrow> actor_id_of t a = actor_id_of s a"
    and "table_inv s \<Longrightarrow> table_inv t"
    and "direct_only s \<Longrightarrow> direct_only t" "dom (bk_ctx t) = dom (bk_ctx s)"
  using assms unfolding grows_def by auto

lemma direct_only_eqI: "direct_by_nid t = direct_by_nid s \<Longrightarrow> indirect t = indirect s \<Longrightarrow> direct_only t = direct_only s"
  by (simp add: direct_only_def lookup_direct_def)

text \<open>Steps that change neither the table nor an identity.\<close>

lemma growsI:
  assumes "proxies t = proxies s" "ns_node t = ns_node s" "gone t = gone s" "scribes t = scribes s"
    "direct_by_hdl t = direct_by_hdl s" "direct_by_nid t = direct_by_nid s" "indirect t = indirect s" "blacklisted t = blacklisted s"
    "bk_this t = bk_this s" "bk_self t = bk_self s" "next_actor t = next_actor s" "actor_node t = actor_node s"
    "\<And>a. actor_id_of t a = actor_id_of s a" "dom (bk_ctx t) = dom (bk_ctx s)"
  shows "grows s t"
  using assms table_inv_cong [of t s] direct_only_eqI [of t s] by (simp add: grows_def)

named_theorems grow_rules

lemma grows_set_buf [grow_rules]: "grows s (set_buf h bs s)"
  by (rule growsI) (simp_all add: set_buf_def actor_id_of_def)

lemma grows_flush [grow_rules]: "grows s (flush h s)"
  by (rule growsI) (simp_all add: flush_def actor_id_of_def)

lemma grows_notify [grow_rules]: "grows s (notify_hook e s)"
  by (rule growsI) (simp_all add: notify_hook_def actor_id_of_def)

lemma grows_world: "(\<And>w a. id_no (actor_at (f w) a) = id_no (actor_at w a)) \<Longrightarrow> grows s (on_world f s)"
  by (rule growsI) (simp_all add: on_world_def actor_id_of_def)

lemma actor_at_enqueue [simp]: "actor_at (enqueue_to pa d src i m w) = actor_at w" "actor_at (enqueue_addr pa d' src i m w) = actor_at w"
  by (simp_all add: enqueue_to_def enqueue_addr_def forward_msg_def split: actor_kind.splits option.splits)

lemma id_no_attach [simp]: "id_no (actor_at (attach pa a x w) b) = id_no (actor_at w b)"
proof -
  have "actor_at (actor_exited pa y a r w) = actor_at w" for y r by (cases y) simp_all
  then show ?thesis by (simp add: attach_def attach_impl_def id_no_set_actor split: option.splits)
qed

lemma grows_enqueue [grow_rules]:
  "grows s (on_world (enqueue_to pa d src i m) s)" "grows s (on_world (enqueue_addr pa d' src i m) s)"
  "grows s (on_world (bounce r src i) s)"
  by (rule grows_world, simp add: bounce_def)+

lemma grows_promise [grow_rules]: "grows s (deliver_promise p m s)"
  by (simp add: deliver_promise_def grow_rules)

lemma grows_register [grow_rules]: "grows s (register_actor a s)"
  by (rule growsI) (simp_all add: register_actor_def actor_id_of_def)

lemma grows_attach_io [grow_rules]: "grows s (attach_io f a s)"
  by (rule growsI) (simp_all add: attach_io_def on_world_def actor_id_of_def Let_def)

lemma grows_context [grow_rules]: "grows s (update_context f s)" "grows s (s\<lparr>known_remotes := x\<rparr>)"
  "grows s (s\<lparr>spawn_servers := y\<rparr>)" "grows s (s\<lparr>user_types := z\<rparr>)" "grows s (s\<lparr>rd_policy := p\<rparr>)" "grows s (s\<lparr>io_seen := k\<rparr>)"
  "grows s (s\<lparr>auto_connect := b\<rparr>)" "grows s (s\<lparr>doormen := ds\<rparr>)" "grows s (s\<lparr>published := ps\<rparr>)"
  by (rule growsI, auto simp add: update_context_def actor_id_of_def)+

lemma grows_spawn: "spawn_hidden s = (a, t) \<Longrightarrow> grows s t \<and> a = next_actor s \<and> next_actor t = Suc a
    \<and> actor_node t a = ns_node s \<and> actor_id_of t a = bk_ids s + 1"
  using table_inv_cong [of t s] direct_only_eqI [of t s] by (auto simp: spawn_hidden_def grows_def Let_def actor_id_of_def new_actor_def)

lemma grows_new_remote: "new_remote n i s = (p, t) \<Longrightarrow> grows s t \<and> p = next_actor s \<and> next_actor t = Suc p
    \<and> actor_node t p = n \<and> actor_id_of t p = i"
  using table_inv_cong [of t s] direct_only_eqI [of t s] by (auto simp: new_remote_def grows_def Let_def actor_id_of_def new_proxy_def)

lemma lookup_route_fields [simp]:
  fixes s :: broker
  shows "proxies (snd (lookup_route n s)) = proxies s" "gone (snd (lookup_route n s)) = gone s"
    "next_actor (snd (lookup_route n s)) = next_actor s" "scribes (snd (lookup_route n s)) = scribes s"
    "bk_this (snd (lookup_route n s)) = bk_this s" "bk_self (snd (lookup_route n s)) = bk_self s"
    "bk_ctx (snd (lookup_route n s)) = bk_ctx s"
  by (simp_all add: lookup_route_def Let_def split: option.splits prod.splits)

lemma direct_only_lookup: "direct_only s \<Longrightarrow> direct_only (snd (lookup_route n s))"
  by (auto simp: direct_only_def lookup_route_def Let_def lookup_direct_def split: option.splits prod.splits)

lemma grows_lookup: "lookup_route n s = (r, t) \<Longrightarrow> grows s t"
  using table_inv_lookup [of s n] lookup_route_fields [of n s] lookup_route_frame(1,2) [of n s] lookup_route_bufs [of n s]
    direct_only_lookup [of s n] by (simp add: grows_def)

lemma mset_order_of [simp]: "mset (order_of B xs) = mset xs"
  by (simp add: order_of_def)

text \<open>Indirect routes are added for nodes without a connection.\<close>

lemma grows_add_indirect:
  assumes "add_indirect (order_of B) h n s = (b, t)" and "lookup_direct n s = invalid_connection_handle"
  shows "grows s t"
  using table_inv_add_indirect [of s "order_of B" h n] assms
  by (auto simp: grows_def direct_only_def lookup_direct_def add_indirect_def notify_hook_def actor_id_of_def Let_def split: if_splits)

text \<open>Messages of atoms and strings are written without touching more than the map of types.\<close>

definition is_simple :: "elem \<Rightarrow> bool" where
  "is_simple e \<longleftrightarrow> (\<exists>v. e = Atom v) \<or> (\<exists>x. e = Str x)"

lemma write_elems_simple: "list_all is_simple es \<Longrightarrow> write_elems X es s = Inr (b, t) \<Longrightarrow> t = s"
  by (induction es arbitrary: s b)
     (auto simp: put_bytes_def then_wr_def known_type_def is_simple_def write_str_def split: sum.splits if_splits)

lemma write_msg_simple: "list_all is_simple es \<Longrightarrow> write_msg X es s = Inr (b, t) \<Longrightarrow> \<exists>ts. t = s\<lparr>user_types := ts\<rparr>"
  by (auto simp: write_msg_def then_wr_def begin_tuple_def Let_def split: sum.splits option.splits prod.splits dest!: write_elems_simple)

lemma grows_write_named:
  assumes "list_all is_simple msg"
  shows "grows s (write_named B h n name src msg s)"
proof (cases "write_msg (be_codec B) msg s")
  case (Inl e)
  then show ?thesis by (simp add: write_named_def)
next
  case (Inr p)
  obtain b t where p: "p = (b, t)" by force
  then have t: "grows s t" using write_msg_simple [OF assms] Inr grows_context(4) by metis
  have "grows t (flush h (set_buf h x t))" for x using grows_trans [OF grows_set_buf grows_flush] .
  then show ?thesis using Inr p grows_trans [OF t] by (simp add: write_named_def)
qed

lemma grows_learned: "grows s (learned_new_node B n s)"
proof -
  obtain a s1 where a: "spawn_hidden s = (a, s1)" by force
  let ?s2 = "register_actor a (s1\<lparr>spawn_servers := (spawn_servers s1)(n \<mapsto> a)\<rparr>)"
  have "grows s s1" using grows_spawn [OF a] by simp
  also have "grows s1 ?s2" by (rule grows_trans [OF grows_context(3) grows_register])
  finally have 2: "grows s ?s2" .
  obtain r s3 where r: "lookup_route n ?s2 = (r, s3)" by force
  have "grows s s3" using grows_trans [OF 2 grows_lookup [OF r]] .
  moreover have "grows s3 (write_named B h n x a [Atom sys_atom, Atom get_atom, Str ''info''] s3)" for h x
    by (rule grows_write_named) (simp add: is_simple_def)
  ultimately show ?thesis using grows_trans by (auto simp: learned_new_node_def a r Let_def split: option.splits)
qed

lemma grows_directly: "grows s (learned_new_node_directly B n b s)"
  by (simp add: learned_new_node_directly_def grows_learned)

lemma grows_indirectly: "grows s (learned_new_node_indirectly B n s)"
proof -
  let ?s1 = "learned_new_node B n s"
  obtain r s2 where r: "lookup_route n ?s1 = (r, s2)" by force
  obtain a s3 where a: "spawn_hidden s2 = (a, s3)" by force
  have 2: "grows s s2" using grows_trans [OF grows_learned grows_lookup [OF r]] .
  have "grows s2 (register_actor a s3)" using grows_spawn [OF a] grows_trans [OF _ grows_register] by blast
  moreover have "grows (register_actor a s3) (write_named B h n x a [Atom get_atom, Str y] (register_actor a s3))" for h x y
    by (rule grows_write_named) (simp add: is_simple_def)
  ultimately have "grows s (write_named B h n x a [Atom get_atom, Str y] (register_actor a s3))" for h x y
    using grows_trans [OF 2] grows_trans by blast
  then show ?thesis using 2 grows_learned by (auto simp: learned_new_node_indirectly_def r a Let_def split: option.splits)
qed

section \<open>The broker as backend of the namespace\<close>

lemma grows_assume_route: "grows s (assume_route B n s)"
  using grows_add_indirect [of B "current_id s" n s] grows_trans [OF _ grows_indirectly]
  by (auto simp: assume_route_def split: prod.splits)

lemma create_proxy_grows:
  assumes "create_proxy n i h s = (p, t)"
  shows "grows s t \<and> p = next_actor s \<and> actor_node t p = n \<and> actor_id_of t p = i \<and> p < next_actor t"
proof -
  obtain q s1 where q: "new_remote n i s = (q, s1)" by force
  note nr = grows_new_remote [OF q]
  let ?s2 = "attach_io (Erase_Proxy n q) q s1"
  let ?s3 = "set_buf (bk_this ?s2) (write_announce_proxy (ns_node ?s2) n i (wr_bufs ?s2 (bk_this ?s2))) ?s2"
  have "create_proxy n i h s = (q, notify_hook (New_Remote_Actor (Some q)) (flush h ?s3))" by (simp add: create_proxy_def q Let_def)
  from trans [OF assms [symmetric] this]
  have t: "p = q" "t = notify_hook (New_Remote_Actor (Some q)) (flush h ?s3)" by (simp_all only: prod.inject)
  have g: "grows s1 t" unfolding t(2)
    by (rule grows_trans [OF grows_attach_io grows_trans [OF grows_set_buf grows_trans [OF grows_flush grows_notify]]])
  have q1: "q < next_actor s1" using nr by simp
  have "grows s t" using nr grows_trans [OF _ g] by blast
  moreover have "actor_node t q = n" "actor_id_of t q = i" using trans [OF growsD(9) [OF g q1]] trans [OF growsD(10) [OF g q1]] nr by blast+
  moreover have "q < next_actor t" using q1 growsD(8) [OF g] by simp
  ultimately show ?thesis using nr unfolding t(1) by blast
qed

lemma make_proxy_grows:
  assumes "make_proxy B n i s = (r, t)"
  shows "grows s t \<and> (\<forall>p. r = Some p \<longrightarrow> actor_node t p = n \<and> actor_id_of t p = i \<and> next_actor s \<le> p \<and> p < next_actor t)"
proof (cases "n = None \<or> i = 0")
  case True
  then show ?thesis using assms by (auto simp: make_proxy_def)
next
  case False
  obtain q s2 where q: "lookup_route n (assume_route B n s) = (q, s2)" by force
  have 2: "grows s s2" using grows_trans [OF grows_assume_route grows_lookup [OF q]] .
  show ?thesis
  proof (cases q)
    case None
    then show ?thesis using assms False q 2 by (simp add: make_proxy_def)
  next
    case (Some hh)
    obtain h hop where hh: "hh = (h, hop)" by force
    obtain p s3 where p: "create_proxy n i h s2 = (p, s3)" by force
    have "r = Some p" "t = s3" using assms False q Some hh p by (auto simp: make_proxy_def)
    then show ?thesis using create_proxy_grows [OF p] growsD(8) [OF 2] grows_trans [OF 2] by auto
  qed
qed

interpretation bp: proxy_backend "make_proxy B" for B
proof
  fix n i s r t assume m: "make_proxy B n i s = (r, t)"
  note g = conjunct1 [OF make_proxy_grows [OF m]]
  show "proxies t = proxies s \<and> ns_node t = ns_node s \<and> gone t = gone s \<and> next_actor s \<le> next_actor t"
    using growsD(1,2,3,8) [OF g] by simp
  show "a < next_actor s \<Longrightarrow> actor_node t a = actor_node s a \<and> actor_id_of t a = actor_id_of s a" for a
    using growsD(9,10) [OF g] by simp
next
  fix n i s p t assume "make_proxy B n i s = (Some p, t)"
  then show "actor_node t p = n \<and> actor_id_of t p = i \<and> next_actor s \<le> p \<and> p < next_actor t"
    using make_proxy_grows by blast
qed

section \<open>Invariant\<close>

text \<open>
  The table is consistent and keeps no detour to a connected node, anchors belong to proxies for their
  node and id, and every connection in the table leads to a node, has a context and is open, so that
  its buffer can be accessed.
\<close>

definition binv :: "broker \<Rightarrow> bool" where
  "binv s \<longleftrightarrow> table_inv s \<and> direct_only s \<and> ns_inv s
     \<and> (\<forall>h n. direct_by_hdl s h = Some n \<longrightarrow> h \<in> scribes s \<and> h \<in> dom (bk_ctx s) \<and> n \<noteq> None)"

text \<open>As above, but proxies may be stored or removed.\<close>

definition evolves :: "broker \<Rightarrow> broker \<Rightarrow> bool" where
  "evolves s t \<longleftrightarrow> ns_node t = ns_node s \<and> scribes t = scribes s
     \<and> direct_by_hdl t = direct_by_hdl s \<and> direct_by_nid t = direct_by_nid s \<and> bk_this t = bk_this s \<and> bk_self t = bk_self s
     \<and> next_actor s \<le> next_actor t
     \<and> (\<forall>a < next_actor s. actor_node t a = actor_node s a \<and> actor_id_of t a = actor_id_of s a)
     \<and> (table_inv s \<longrightarrow> table_inv t) \<and> (ns_inv s \<longrightarrow> ns_inv t) \<and> (direct_only s \<longrightarrow> direct_only t)
     \<and> dom (bk_ctx t) = dom (bk_ctx s)"

lemma evolves_refl [simp]: "evolves s s"
  by (simp add: evolves_def)

lemma evolves_trans [trans]: "evolves s t \<Longrightarrow> evolves t u \<Longrightarrow> evolves s u"
  unfolding evolves_def by auto

lemma evolves_binv: "evolves s t \<Longrightarrow> binv s \<Longrightarrow> binv t"
  unfolding evolves_def binv_def by metis

lemma ns_inv_grows: "grows s t \<Longrightarrow> ns_inv s \<Longrightarrow> ns_inv t"
proof -
  assume g: "grows s t" and i: "ns_inv s"
  have a: "anchor_of t = anchor_of s" "submap n t = submap n s" for n
    using growsD(1) [OF g] anchor_of_cong [of t s] submap_cong [of t s] by (simp_all add: fun_eq_iff)
  show ?thesis using i growsD [OF g] unfolding ns_inv_def a by (metis order_less_le_trans)
qed

lemma grows_evolves: "grows s t \<Longrightarrow> evolves s t"
  using ns_inv_grows [of s t] unfolding grows_def evolves_def by blast

lemma set_submap_broker [simp]:
  fixes s :: broker
  shows "direct_by_hdl (set_submap n m s) = direct_by_hdl s" "direct_by_nid (set_submap n m s) = direct_by_nid s"
    "indirect (set_submap n m s) = indirect s" "blacklisted (set_submap n m s) = blacklisted s"
    "scribes (set_submap n m s) = scribes s" "bk_this (set_submap n m s) = bk_this s" "bk_self (set_submap n m s) = bk_self s"
    "bk_ctx (set_submap n m s) = bk_ctx s"
  by (simp_all add: set_submap_def)

lemma evolves_set_submap:
  fixes s :: broker
  assumes "ns_inv s \<Longrightarrow> ns_inv (set_submap n m s)"
  shows "evolves s (set_submap n m s)"
  using assms table_inv_cong [of "set_submap n m s" s] direct_only_eqI [of "set_submap n m s" s] by (simp add: evolves_def)

lemma ns_inv_reserve:
  assumes "ns_inv s"
  shows "ns_inv (set_submap n (if i \<in> fst ` set (submap n s) then submap n s else insert_key i None (submap n s)) s)"
proof (rule ns_inv_shrink [OF assms])
  note i = ns_invD [OF assms]
  show "anchor_of s k j = Some (Some p)"
    if "anchor_of (set_submap n (if i \<in> fst ` set (submap n s) then submap n s else insert_key i None (submap n s)) s) k j = Some (Some p)" for k j p
    using that map_of_insert_key [OF i(2) [of n], of i None j] by (auto simp: anchor_of_set_submap anchor_of_submap split: if_splits)
  show "sorted_wrt (<) (map fst (submap k (set_submap n (if i \<in> fst ` set (submap n s) then submap n s else insert_key i None (submap n s)) s)))" for k
    using i(2) insert_key_sorted [OF i(2), of i None] by simp
qed (use ns_invD(1) [OF assms] in \<open>simp_all add: distinct_set_submap\<close>)

lemma evolves_get_or_put:
  assumes "get_or_put (make_proxy B) n i s = (r, t)"
  shows "evolves s t"
proof -
  let ?m = "if i \<in> fst ` set (submap n s) then submap n s else insert_key i None (submap n s)"
  let ?s1 = "set_submap n ?m s"
  have 1: "evolves s ?s1" by (intro evolves_set_submap ns_inv_reserve)
  show ?thesis
  proof (cases "Option.bind (Option.bind (map_of ?m i) id) (anchor_get ?s1)")
    case (Some p)
    then show ?thesis using assms 1 by (simp add: get_or_put_def Let_def)
  next
    case None
    obtain q u where q: "make_proxy B n i ?s1 = (q, u)" by force
    have 2: "evolves s u" using evolves_trans [OF 1 grows_evolves] make_proxy_grows [OF q] by blast
    show ?thesis
    proof (cases q)
      case None
      then show ?thesis using assms \<open>Option.bind _ _ = None\<close> q 2 by (simp add: get_or_put_def Let_def)
    next
      case (Some p)
      then have e: "r = Some p" "t = set_submap n (insert_key i (Some p) (submap n u)) u"
        using assms \<open>Option.bind _ _ = None\<close> q by (auto simp: get_or_put_def Let_def)
      have "ns_inv s \<Longrightarrow> ns_inv t" using bp.get_or_put_correct [of s B n i p t] assms e(1) by blast
      moreover have "table_inv t = table_inv u" "direct_only t = direct_only u"
        using table_inv_cong [of t u] direct_only_eqI [of t u] by (simp_all add: e(2))
      ultimately show ?thesis using 2 unfolding evolves_def by (simp add: e(2))
    qed
  qed
qed

lemma entry_reset_updates: "entry_reset r x s = s\<lparr>ns_reg := ns_reg (entry_reset r x s)\<rparr>"
  by (simp add: entry_reset_def split: option.splits)

lemma destroy_submap_updates: "destroy_submap m s = s\<lparr>ns_reg := ns_reg (destroy_submap m s)\<rparr>"
proof (induction m arbitrary: s)
  case (Cons e m)
  let ?t = "entry_reset remote_link_unreachable (snd e) s"
  have "destroy_submap m ?t = ?t\<lparr>ns_reg := ns_reg (destroy_submap m ?t)\<rparr>" by (rule Cons)
  also have "\<dots> = s\<lparr>ns_reg := ns_reg (destroy_submap m ?t)\<rparr>" by (subst entry_reset_updates) simp
  finally show ?case by (simp add: destroy_submap_def)
qed (simp add: destroy_submap_def)

lemma erase_proxies_updates:
  "erase_proxies n s = s\<lparr>proxies := delete_key n (proxies s), ns_reg := ns_reg (erase_proxies n s)\<rparr>"
  using destroy_submap_updates [of "submap n s" "s\<lparr>proxies := delete_key n (proxies s)\<rparr>"] by (simp add: erase_proxies_def)

lemma set_submap_updates: "set_submap n m s = s\<lparr>proxies := proxies (set_submap n m s)\<rparr>"
  by (simp add: set_submap_def)

lemma erase_proxy_updates:
  "erase_proxy n i r s = s\<lparr>proxies := proxies (erase_proxy n i r s), ns_reg := ns_reg (erase_proxy n i r s)\<rparr>"
proof -
  have "set_submap n m (entry_reset r x s) = s\<lparr>proxies := proxies (set_submap n m (entry_reset r x s)),
      ns_reg := ns_reg (set_submap n m (entry_reset r x s))\<rparr>" for m x
    by (subst set_submap_updates, subst entry_reset_updates) simp
  moreover have "(entry_reset r x s)\<lparr>proxies := p\<rparr> = s\<lparr>proxies := p, ns_reg := ns_reg (entry_reset r x s)\<rparr>" for x p
    by (subst entry_reset_updates) simp
  ultimately show ?thesis by (simp add: erase_proxy_def Let_def split: option.splits)
qed

lemma actor_id_erase_proxies [simp]: "actor_id_of (erase_proxies n s) a = actor_id_of s a"
  by (simp add: erase_proxies_def)

lemma erase_fields:
  fixes s :: broker
  shows "scribes (erase_proxies n s) = scribes s" "bk_this (erase_proxies n s) = bk_this s" "bk_self (erase_proxies n s) = bk_self s"
    "scribes (erase_proxy n i r s) = scribes s" "bk_this (erase_proxy n i r s) = bk_this s" "bk_self (erase_proxy n i r s) = bk_self s"
    "direct_by_hdl (erase_proxies n s) = direct_by_hdl s" "direct_by_nid (erase_proxies n s) = direct_by_nid s"
    "indirect (erase_proxies n s) = indirect s" "blacklisted (erase_proxies n s) = blacklisted s"
    "direct_by_hdl (erase_proxy n i r s) = direct_by_hdl s" "direct_by_nid (erase_proxy n i r s) = direct_by_nid s"
    "indirect (erase_proxy n i r s) = indirect s" "blacklisted (erase_proxy n i r s) = blacklisted s"
    "ns_node (erase_proxies n s) = ns_node s" "next_actor (erase_proxies n s) = next_actor s" "actor_node (erase_proxies n s) = actor_node s"
    "bk_ctx (erase_proxies n s) = bk_ctx s" "bk_ctx (erase_proxy n i r s) = bk_ctx s" "wr_bufs (erase_proxies n s) = wr_bufs s" "sent (erase_proxies n s) = sent s"
  by (subst erase_proxies_updates erase_proxy_updates, simp)+

lemma evolves_erase_proxies: "evolves s (erase_proxies n s)"
  using ns_inv_erase_proxies [of s n] table_inv_cong [of "erase_proxies n s" s] direct_only_eqI [of "erase_proxies n s" s] by (simp add: evolves_def erase_fields)

lemma evolves_erase_proxy: "evolves s (erase_proxy n i r s)"
  using ns_inv_erase_proxy [of s n i r] table_inv_cong [of "erase_proxy n i r s" s] direct_only_eqI [of "erase_proxy n i r s" s] erase_proxy_frame [of n i r s]
  by (simp add: evolves_def erase_fields)

lemma evolves_finalize: "evolves s (finalize_handshake B n i sigs s)"
proof -
  let ?s1 = "update_context (\<lambda>c. c\<lparr>cx_id := n\<rparr>) s"
  have 1: "evolves s ?s1" by (rule grows_evolves [OF grows_context(1)])
  have r: "evolves s (update_context f (deliver_promise cb m t))" if "evolves s t" for f cb m t
    using evolves_trans [OF that grows_evolves [OF grows_trans [OF grows_promise grows_context(1)]]] .
  have k: "evolves s (t\<lparr>known_remotes := x\<rparr>)" if "evolves s t" for t x
    using evolves_trans [OF that grows_evolves [OF grows_context(2)]] .
  have g: "evolves s t" if "get_or_put (make_proxy B) n i ?s1 = (a, t)" for a t
    using evolves_trans [OF 1 evolves_get_or_put [OF that]] .
  show ?thesis using 1 by (auto simp: finalize_handshake_def Let_def split: option.splits prod.splits if_splits intro!: r k dest: g)
qed

lemma evolves_send_kill: "evolves s (send_kill_proxy_instance n i r s)"
proof -
  obtain q t where q: "lookup_route n s = (q, t)" by force
  have "grows t (flush h (set_buf h x t))" for h x using grows_trans [OF grows_set_buf grows_flush] .
  then show ?thesis using grows_evolves grows_lookup [OF q] grows_trans
    by (auto simp: send_kill_proxy_instance_def q split: option.splits)
qed

lemma evolves_announced: "evolves s (proxy_announced n i s)"
  by (simp add: proxy_announced_def evolves_send_kill grows_evolves [OF grows_attach_io] split: prod.splits option.splits)

lemma evolves_destination: "find_destination B n i m s = (a, r, m', t) \<Longrightarrow> evolves s t"
  using evolves_get_or_put [of B n i s] by (auto simp: find_destination_def split: if_splits prod.splits)

lemma evolves_deliver: "evolves s (broker_deliver B sn sa dn da msg i s)"
proof -
  obtain src s1 where s1: "(if node_eq sn (ns_node s) then (get_actor sa (ns_reg s), s) else get_or_put (make_proxy B) sn sa s) = (src, s1)"
    by force
  obtain a r i' s2 where s2: "find_destination B dn da i s1 = (a, r, i', s2)" by (metis prod_cases4)
  have 1: "evolves s s1" using s1 evolves_get_or_put [of B sn sa s src s1] by (auto split: if_splits)
  have 2: "evolves s s2" using evolves_trans [OF 1 evolves_destination [OF s2]] .
  have w: "evolves s (on_world (enqueue_to std_atoms d x m c) (notify_hook e s2))" "evolves s (on_world (bounce y x m) (notify_hook e s2))"
    "evolves s (notify_hook e s2)" for d x m c e y
    by (rule evolves_trans [OF 2 grows_evolves [OF grows_trans [OF grows_notify grows_enqueue(1)]]])
      (rule evolves_trans [OF 2 grows_evolves [OF grows_trans [OF grows_notify grows_enqueue(3)]]],
       rule evolves_trans [OF 2 grows_evolves [OF grows_notify]])
  show ?thesis unfolding broker_deliver_def s1 s2 Let_def prod.case by (simp add: w split: option.splits)
qed

lemma purge_fields:
  "direct_by_hdl (purge_state n s) = direct_by_hdl s" "direct_by_nid (purge_state n s) = direct_by_nid s"
  "indirect (purge_state n s) = indirect s" "blacklisted (purge_state n s) = blacklisted s"
  "scribes (purge_state n s) = scribes s" "bk_this (purge_state n s) = bk_this s" "ns_node (purge_state n s) = ns_node s"
  by (simp_all add: purge_state_def Let_def erase_fields)

lemma keeps_purge: "keeps_table (purge_state n)"
  unfolding keeps_table_def by (intro allI conjI purge_fields)

lemma evolves_table: "evolves s t \<Longrightarrow> table_inv s \<Longrightarrow> table_inv t"
  by (simp add: evolves_def)

section \<open>The broker as callee of the protocol\<close>

interpretation bc: basp_callee "broker_callee B" for B
proof unfold_locales
  show "keeps_table (cl_purge_state (broker_callee B) n)" for n by (simp add: broker_callee_def keeps_purge)
qed (simp_all add: broker_callee_def broker_kill_proxy_def evolves_table [OF evolves_finalize] evolves_table [OF evolves_announced]
      evolves_table [OF evolves_erase_proxy] evolves_table [OF evolves_deliver] evolves_table [OF grows_evolves [OF grows_directly]]
      evolves_table [OF grows_evolves [OF grows_indirectly]])

end
