(* ===== verification/Broker_Steps.thy ===== *)
theory Broker_Steps
  imports Basp_Broker
begin

text \<open>
  The broker as a state machine: its handlers, its scribes and doormen and the tasks of the multiplexer
  as one step relation, what every step keeps, the loss of a connection and the loss of an acceptor.
\<close>

section \<open>Codecs\<close>

text \<open>Reading and writing keep what the broker relies on if the codecs of the user do.\<close>

definition reads_safely :: "('x, broker) source \<Rightarrow> bool" where
  "reads_safely m \<longleftrightarrow> (\<forall>bs s x r t. m bs s = Inr (x, r, t) \<longrightarrow> evolves s t)"

definition writes_safely :: "broker sink \<Rightarrow> bool" where
  "writes_safely w \<longleftrightarrow> (\<forall>s b t. w s = Inr (b, t) \<longrightarrow> evolves s t)"

definition safe_codecs :: "broker_env \<Rightarrow> bool" where
  "safe_codecs B \<longleftrightarrow> (\<forall>t. reads_safely (x_read (be_codec B) t)) \<and> (\<forall>m. reads_safely (group_read (be_codec B) m))
     \<and> (\<forall>t k. writes_safely (x_write (be_codec B) t k)) \<and> (\<forall>g. writes_safely (group_write (be_codec B) g))"

named_theorems safe_rules

lemma reads_ret [safe_rules]: "reads_safely (ret_rd x)"
  by (simp add: reads_safely_def ret_rd_def)

lemma reads_error [safe_rules]: "reads_safely (\<lambda>bs s. Inl e)"
  by (simp add: reads_safely_def)

lemma reads_lift [safe_rules]: "reads_safely (lift_rd m)"
  by (auto simp: reads_safely_def lift_rd_def split: sum.splits)

lemma reads_bind [safe_rules]: "reads_safely m \<Longrightarrow> (\<And>x. reads_safely (k x)) \<Longrightarrow> reads_safely (bind_rd m k)"
  unfolding reads_safely_def by (auto simp: bind_rd_def split: sum.splits) (meson evolves_trans)

lemma reads_map [safe_rules]: "reads_safely m \<Longrightarrow> reads_safely (map_rd f m)"
  unfolding map_rd_def by (intro reads_bind reads_ret)

lemma reads_times [safe_rules]: "reads_safely m \<Longrightarrow> reads_safely (read_times n m)"
  by (induction n) (auto intro!: safe_rules)

lemma reads_seq [safe_rules]: "reads_safely m \<Longrightarrow> reads_safely (read_seq m)"
  unfolding read_seq_def by (intro safe_rules)

lemma reads_addr [safe_rules]: "reads_safely (read_addr (codec_of B))"
  by (auto simp: reads_safely_def read_addr_def ns_read_def split: sum.splits prod.splits if_splits option.splits
      dest: evolves_get_or_put)

lemma reads_group: "safe_codecs B \<Longrightarrow> reads_safely (read_group (codec_of B))"
  unfolding read_group_def read_str_def by (intro safe_rules) (simp_all add: safe_codecs_def safe_rules)

lemma reads_builtin:
  assumes "safe_codecs B"
  shows "reads_safely (read_builtin (codec_of B) t)"
proof -
  note g = reads_group [OF assms]
  have x: "reads_safely (x_read (be_codec B) u)" for u using assms by (simp add: safe_codecs_def)
  have c: "reads_safely (read_channel (codec_of B))" unfolding read_channel_def by (auto intro!: safe_rules g)
  show ?thesis
    by (cases t) (auto simp: read_obituary_def read_duration_def read_pair_def read_str_def rd_int_def intro!: safe_rules g x c)
qed

lemma reads_begin: "reads_safely (begin_object_rd (codec_of B))"
proof -
  have "reads_safely (\<lambda>bs s. case by_uniform_name sp n (user_types s) of (None, ts) \<Rightarrow> Inl e | (Some u, ts) \<Rightarrow> Inr (u, bs, s\<lparr>user_types := ts\<rparr>))"
    for sp n e by (auto simp: reads_safely_def intro: grows_evolves grows_context split: prod.splits option.splits)
  moreover have "reads_safely (\<lambda>bs s. case q of None \<Rightarrow> Inl e | Some u \<Rightarrow> Inr (u, bs, s))" for q e
    by (auto simp: reads_safely_def split: option.splits)
  ultimately show ?thesis unfolding begin_object_rd_def by (auto intro!: safe_rules)
qed

lemma reads_msg:
  assumes "safe_codecs B"
  shows "X = codec_of B \<Longrightarrow> reads_safely (read_msg X f)" and "X = codec_of B \<Longrightarrow> reads_safely (read_val X f u)"
    and "X = codec_of B \<Longrightarrow> reads_safely (read_vals X f us)"
proof (induction X f and X f u and X f us rule: read_msg_read_val_read_vals.induct)
  case (2 X f)
  show ?case unfolding read_msg.simps
  proof (rule reads_bind)
    fix u
    show "reads_safely (case u of Meta_Message us \<Rightarrow> if creatable u then read_vals X f us else (\<lambda>bs s. Inl Null_Pointer)
      | _ \<Rightarrow> if u = Builtin T_message then read_msg X f else bind_rd (read_val X f u) (\<lambda>x bs s. Inl Type_Confusion))"
      using 2 by (cases u) (auto intro!: safe_rules simp del: read_val.simps creatable.simps)
  qed (simp add: 2 reads_begin)
next
  case (3 X f t)
  then show ?case using reads_builtin [OF assms] by (auto intro: reads_map)
next
  case (4 X f k)
  then show ?case using reads_builtin [OF assms, of "T_custom k"] by simp
qed (auto intro!: safe_rules)

lemma writes_put [safe_rules]: "writes_safely (put_bytes b)"
  by (simp add: writes_safely_def put_bytes_def)

lemma writes_then [safe_rules]: "writes_safely v \<Longrightarrow> writes_safely w \<Longrightarrow> writes_safely (then_wr v w)"
  unfolding writes_safely_def by (auto simp: then_wr_def split: sum.splits) (meson evolves_trans)

lemma writes_all [safe_rules]: "(\<And>x. writes_safely (w x)) \<Longrightarrow> writes_safely (write_all w xs)"
  by (induction xs) (auto intro!: safe_rules)

lemma writes_seq [safe_rules]: "(\<And>x. writes_safely (w x)) \<Longrightarrow> writes_safely (write_seq w xs)"
  unfolding write_seq_def by (intro safe_rules)

lemma writes_addr [safe_rules]: "writes_safely (write_addr a)"
  using grows_evolves [OF grows_register]
  by (auto simp: writes_safely_def write_addr_def ns_write_def register_actor_def split: option.splits if_splits)

lemma writes_group: "safe_codecs B \<Longrightarrow> writes_safely (write_group (codec_of B) g)"
  unfolding write_group_def write_str_def by (auto intro!: safe_rules simp: safe_codecs_def split: option.splits)

lemma writes_builtin:
  assumes "safe_codecs B"
  shows "writes_safely (write_builtin (codec_of B) e)"
proof -
  note g = writes_group [OF assms]
  have x: "writes_safely (x_write (be_codec B) u k)" for u k using assms by (simp add: safe_codecs_def)
  have c: "writes_safely (write_channel (codec_of B) ch)" for ch
    unfolding write_channel_def by (auto intro!: safe_rules g split: option.splits sum.splits)
  show ?thesis
    by (cases e) (auto simp: write_obituary_def write_duration_def write_pair_def write_str_def intro!: safe_rules g x c)
qed

lemma writes_begin: "writes_safely (begin_tuple X es)"
  by (auto simp: writes_safely_def begin_tuple_def Let_def intro: grows_evolves grows_context split: prod.splits option.splits)

lemma writes_known: "writes_safely (known_type e)"
  by (auto simp: writes_safely_def known_type_def split: if_splits)

lemma writes_elem:
  assumes "safe_codecs B"
  shows "writes_safely (write_elem (codec_of B) e)" "writes_safely (write_elems (codec_of B) es)"
proof (induction e and es rule: elem_list_induct)
  case (Other e)
  then show ?case using writes_builtin [OF assms] by (simp add: write_elem_other is_msg_def)
qed (auto intro!: safe_rules writes_begin writes_known)

lemma writes_msg: "safe_codecs B \<Longrightarrow> writes_safely (write_msg (codec_of B) es)"
  unfolding write_msg_def by (intro writes_then writes_begin writes_elem)

section \<open>Handling of data\<close>

lemma evolves_rd_msg:
  assumes "safe_codecs B" and "rd_msg (broker_io B) bs s = Inr (m, t)"
  shows "evolves s t"
  using assms(2) reads_msg(1) [OF assms(1) refl, of "Suc (length bs)"]
  by (auto simp: broker_io_def reads_safely_def split: sum.splits)

lemma evolves_wr_msg:
  assumes "safe_codecs B" and "wr_msg (broker_io B) m s = Inr (b, t)"
  shows "evolves s t"
  using assms(2) writes_msg [OF assms(1)] by (simp add: broker_io_def writes_safely_def)

lemma evolves_learn_route: "evolves s (learn_route (broker_io B) (broker_callee B) h hdr s)"
  using grows_add_indirect [of B] grows_trans [OF _ grows_indirectly]
  by (auto simp: learn_route_def broker_io_def broker_callee_def Let_def split: prod.splits intro!: grows_evolves)

lemma evolves_dispatch_message:
  assumes "safe_codecs B" and "on_dispatch_message (broker_io B) (broker_callee B) h hdr p s = Inr (st, hdr', t)"
  shows "st = await_header \<and> evolves s t \<or> st = close_connection \<and> t = erase_direct purge_state h s"
proof (cases "payload_valid hdr p")
  case False
  then show ?thesis using assms(2) by (auto simp: on_dispatch_message_def conn_err_def broker_callee_def)
next
  case True
  let ?s1 = "learn_route (broker_io B) (broker_callee B) h hdr s"
  obtain m s2 where r: "rd_msg (broker_io B) (opt_bytes p) ?s1 = Inr (m, s2)" "st = await_header"
      "t = broker_deliver B (source_node hdr) (source_actor hdr) (dest_node hdr) (dest_actor hdr) m (from_integer_value (operation_data hdr)) s2"
    using assms(2) True by (auto simp: on_dispatch_message_def broker_callee_def split: sum.splits)
  have "evolves s s2" using evolves_trans [OF evolves_learn_route evolves_rd_msg [OF assms(1) r(1)]] .
  then show ?thesis using evolves_trans [OF _ evolves_deliver] r by blast
qed

text \<open>A handshake connects the node at the other end.\<close>

definition met_node :: "connection_handle \<Rightarrow> node_id \<Rightarrow> broker \<Rightarrow> broker" where
  "met_node h n s = snd (erase_indirect n (add_direct h n s))"

lemma evolves_forward: "evolves s (forward hdr p s)"
proof -
  obtain q s1 where q: "lookup_route (dest_node hdr) s = (q, s1)" by force
  obtain q' s2 where q': "lookup_route (source_node hdr) s1 = (q', s2)" by force
  have 1: "grows s s1" "grows s s2" using grows_lookup [OF q] grows_lookup [OF q'] grows_trans by blast+
  have f: "grows s (notify_hook e (flush h (set_buf h x s1)))" "grows s (notify_hook e (set_buf h x s2))" "grows s (notify_hook e s1)"
      "grows s (notify_hook e s2)" for e h x
    using 1 grow_rules grows_trans by meson+
  show ?thesis using f by (auto simp: forward_def q q' intro!: grows_evolves split: option.splits)
qed

lemma server_handshake_cases:
  assumes "on_server_handshake (broker_callee B) h hdr p s = Inr (st, hdr', t)"
  shows "\<exists>u0 u. (u0 = s \<or> lookup_direct (source_node hdr) s = invalid_connection_handle \<and> u0 = met_node h (source_node hdr) s)
    \<and> evolves u0 u \<and> (st = await_header \<and> t = u \<or> st = close_connection \<and> t = erase_direct purge_state h u)"
proof -
  let ?n = "source_node hdr"
  obtain aid sigs where rp: "read_published hdr p = Inr (aid, sigs)" using assms by (auto simp: on_server_handshake_def split: sum.splits)
  show ?thesis
  proof (cases "node_eq ?n (ns_node s) \<or> lookup_direct ?n s \<noteq> invalid_connection_handle")
    case True
    then show ?thesis using assms rp evolves_finalize [of s B ?n aid sigs]
      by (auto simp: on_server_handshake_def conn_err_def broker_callee_def)
  next
    case False
    obtain w where w: "erase_indirect ?n (add_direct h ?n s) = (w, met_node h ?n s)" by (metis met_node_def prod.collapse)
    obtain q s3 where q: "lookup_route ?n (met_node h ?n s) = (q, s3)" by force
    have 3: "evolves (met_node h ?n s) s3" using grows_evolves [OF grows_lookup [OF q]] .
    have "grows s3 (learned_new_node_directly B ?n b (set_buf h' x s3))" for b h' x
      using grows_trans [OF grows_set_buf grows_directly] .
    then have f: "evolves (met_node h ?n s) (flush h' (finalize_handshake B ?n aid sigs (learned_new_node_directly B ?n b (set_buf h' x s3))))" for b h' x
      using 3 evolves_finalize grows_evolves [OF grows_flush] grows_evolves evolves_trans by meson
    show ?thesis using assms rp False 3 f
      by (auto simp: on_server_handshake_def conn_err_def broker_callee_def w q Let_def split: option.splits)
  qed
qed

lemma client_handshake_cases:
  assumes "on_client_handshake (broker_callee B) h hdr s = Inr (st, hdr', t)"
  shows "\<exists>u0 u. (u0 = s \<or> lookup_direct (source_node hdr) s = invalid_connection_handle \<and> u0 = met_node h (source_node hdr) s)
    \<and> evolves u0 u \<and> (st = await_header \<and> t = u \<or> st = close_connection \<and> t = erase_direct purge_state h u)"
proof -
  obtain w where w: "erase_indirect (source_node hdr) (add_direct h (source_node hdr) s) = (w, met_node h (source_node hdr) s)"
    by (metis met_node_def prod.collapse)
  show ?thesis using assms grows_evolves [OF grows_directly]
    by (auto simp: on_client_handshake_def broker_callee_def w Let_def split: if_splits)
qed

lemma callee_fields:
  "cl_finalize_handshake (broker_callee B) = finalize_handshake B" "cl_purge_state (broker_callee B) = purge_state"
  "cl_proxy_announced (broker_callee B) = proxy_announced" "cl_kill_proxy (broker_callee B) = broker_kill_proxy"
  "cl_deliver (broker_callee B) = broker_deliver B"
  by (simp_all add: broker_callee_def)

lemma handle_header_cases:
  assumes safe: "safe_codecs B" and r: "handle_header (broker_io B) (broker_callee B) h hdr p s = Inr (st, hdr', t)"
  shows "\<exists>u0 u. (u0 = s \<or> is_handshake hdr \<and> valid_header hdr \<and> lookup_direct (source_node hdr) s = invalid_connection_handle
      \<and> u0 = met_node h (source_node hdr) s)
    \<and> evolves u0 u \<and> (st = await_header \<and> t = u \<or> st = close_connection \<and> t = erase_direct purge_state h u)"
    (is "\<exists>u0 u. ?P u0 u")
proof -
  have err: ?thesis if "conn_err (broker_callee B) h hdr s = Inr (st, hdr', t)"
  proof (intro exI)
    show "?P s s" using that by (simp add: conn_err_def callee_fields)
  qed
  have ok: ?thesis if "Inr (await_header, hdr, u) = (Inr (st, hdr', t) :: io_error + _)" "evolves s u" for u
  proof (intro exI)
    show "?P s u" using that by simp
  qed
  have dispatched: ?thesis if "on_dispatch_message (broker_io B) (broker_callee B) h hdr p s = Inr (st, hdr', t)"
  proof (cases "st = await_header \<and> evolves s t")
    case True
    then have "?P s t" by simp
    then show ?thesis by (intro exI)
  next
    case False
    then have "st = close_connection" "t = erase_direct purge_state h s" using evolves_dispatch_message [OF safe that] by blast+
    then have "?P s s" by simp
    then show ?thesis by (intro exI)
  qed
  show ?thesis
  proof (cases "valid_header hdr")
    case False
    then show ?thesis using r by (intro err) (simp add: handle_header_def)
  next
    case v: True
    show ?thesis
    proof (cases "is_handshake hdr")
      case True
      then consider "on_server_handshake (broker_callee B) h hdr p s = Inr (st, hdr', t)"
        | "on_client_handshake (broker_callee B) h hdr s = Inr (st, hdr', t)"
        using r v unfolding handle_header_def is_handshake_def by (auto split: if_splits)
      then obtain u0 u where "u0 = s \<or> lookup_direct (source_node hdr) s = invalid_connection_handle \<and> u0 = met_node h (source_node hdr) s"
          "evolves u0 u" "st = await_header \<and> t = u \<or> st = close_connection \<and> t = erase_direct purge_state h u"
      proof cases
        case 1
        then show ?thesis using server_handshake_cases [OF 1] that by metis
      next
        case 2
        then show ?thesis using client_handshake_cases [OF 2] that by metis
      qed
      then have "?P u0 u" using True v by metis
      then show ?thesis by (intro exI)
    next
      case False
      then have o: "operation hdr \<noteq> server_handshake" "operation hdr \<noteq> client_handshake" by (simp_all add: is_handshake_def)
      note r' = r [unfolded handle_header_def callee_fields]
      consider (fwd) "\<not> node_eq (dest_node hdr) (ns_node s)" | (dsp) "node_eq (dest_node hdr) (ns_node s)" "operation hdr = dispatch_message"
        | (ann) "node_eq (dest_node hdr) (ns_node s)" "operation hdr \<noteq> dispatch_message" "operation hdr = announce_proxy_instance"
        | (kil) "node_eq (dest_node hdr) (ns_node s)" "operation hdr \<noteq> dispatch_message" "operation hdr \<noteq> announce_proxy_instance"
            "operation hdr = kill_proxy_instance"
        | (oth) "node_eq (dest_node hdr) (ns_node s)" "operation hdr \<noteq> dispatch_message" "operation hdr \<noteq> announce_proxy_instance"
            "operation hdr \<noteq> kill_proxy_instance" by blast
      then show ?thesis
      proof cases
        case fwd
        show ?thesis by (rule ok [OF _ evolves_forward [of s hdr p]]) (use r' v False fwd in auto)
      next
        case dsp
        show ?thesis by (rule dispatched) (use r' v o dsp in simp)
      next
        case ann
        show ?thesis by (rule ok [OF _ evolves_announced [of s "source_node hdr" "dest_actor hdr"]]) (use r' v o ann in auto)
      next
        case kil
        show ?thesis by (rule ok [OF _ evolves_erase_proxy [of s "source_node hdr" "source_actor hdr" "ucast (operation_data hdr)"]])
          (use r' v o kil in \<open>auto simp: broker_kill_proxy_def\<close>)
      next
        case oth
        show ?thesis by (rule err) (use r' v o oth in simp)
      qed
    qed
  qed
qed

section \<open>Invariant of the broker\<close>

lemma binvD:
  assumes "binv s"
  shows "table_inv s" "direct_only s" "ns_inv s"
    "direct_by_hdl s h = Some n \<Longrightarrow> h \<in> scribes s" "direct_by_hdl s h = Some n \<Longrightarrow> h \<in> dom (bk_ctx s)" "direct_by_hdl s h = Some n \<Longrightarrow> n \<noteq> None"
  using assms unfolding binv_def by blast+

lemma ns_inv_eqI:
  fixes s t :: broker
  assumes "proxies t = proxies s" "actor_node t = actor_node s" "\<And>a. actor_id_of t a = actor_id_of s a" "gone t = gone s" "next_actor t = next_actor s"
  shows "ns_inv t = ns_inv s"
proof -
  have "anchor_of t = anchor_of s" "submap n t = submap n s" for n
    using assms(1) anchor_of_cong [of t s] submap_cong [of t s] by (simp_all add: fun_eq_iff)
  then show ?thesis using assms unfolding ns_inv_def by simp
qed

lemma notify_updates: "\<exists>l. notify_hook e s = s\<lparr>hook_log := l\<rparr>"
proof
  show "notify_hook e s = s\<lparr>hook_log := hook_log (notify_hook e s)\<rparr>" by (simp add: notify_hook_def)
qed

lemma fold_notify_updates: "\<exists>l. fold (\<lambda>m. notify_hook (f m)) ms s = s\<lparr>hook_log := l\<rparr>"
proof (induction ms arbitrary: s)
  case Nil
  show ?case by (rule exI [of _ "hook_log s"]) simp
next
  case (Cons m ms)
  obtain l where "notify_hook (f m) s = s\<lparr>hook_log := l\<rparr>" using notify_updates by blast
  then show ?case using Cons.IH [of "s\<lparr>hook_log := l\<rparr>"] by simp
qed

lemma met_node_updates: "\<exists>a b c l. met_node h n s = s\<lparr>direct_by_hdl := a, direct_by_nid := b, indirect := c, hook_log := l\<rparr>"
proof -
  obtain a b l where a: "add_direct h n s = s\<lparr>direct_by_hdl := a, direct_by_nid := b, hook_log := l\<rparr>"
    unfolding add_direct_def using notify_updates by blast
  show ?thesis
  proof (cases "indirect s n")
    case None
    then have "met_node h n s = s\<lparr>direct_by_hdl := a, direct_by_nid := b, indirect := indirect s, hook_log := l\<rparr>"
      by (simp add: met_node_def a erase_indirect_def)
    then show ?thesis by blast
  next
    case (Some hops)
    obtain l' where "fold (\<lambda>m. notify_hook (Route_Lost m n)) hops (s\<lparr>direct_by_hdl := a, direct_by_nid := b, hook_log := l\<rparr>)
        = s\<lparr>direct_by_hdl := a, direct_by_nid := b, hook_log := l\<rparr>\<lparr>hook_log := l'\<rparr>" using fold_notify_updates by metis
    then have "met_node h n s = s\<lparr>direct_by_hdl := a, direct_by_nid := b, indirect := (indirect s)(n := None), hook_log := (if has_hook s then l' else l)\<rparr>"
      using Some by (simp add: met_node_def a erase_indirect_def Let_def)
    then show ?thesis by blast
  qed
qed

lemma met_node_fields:
  "ns_inv (met_node h n s) = ns_inv s" "scribes (met_node h n s) = scribes s" "bk_ctx (met_node h n s) = bk_ctx s" "bk_this (met_node h n s) = bk_this s"
proof -
  obtain a b c l where j: "met_node h n s = s\<lparr>direct_by_hdl := a, direct_by_nid := b, indirect := c, hook_log := l\<rparr>"
    using met_node_updates by blast
  show "ns_inv (met_node h n s) = ns_inv s" unfolding j by (rule ns_inv_eqI) (simp_all add: actor_id_of_def)
  show "scribes (met_node h n s) = scribes s" "bk_ctx (met_node h n s) = bk_ctx s" "bk_this (met_node h n s) = bk_this s"
    by (simp_all add: j)
qed

lemma binv_met_node:
  assumes i: "binv s" and h: "h \<in> scribes s" "h \<in> dom (bk_ctx s)" "direct_by_hdl s h = None" "h \<noteq> invalid_connection_handle"
    and n: "n \<noteq> None" "lookup_direct n s = invalid_connection_handle"
  shows "binv (met_node h n s)"
proof -
  have d: "direct_by_nid s n = None" using n(2) lookup_direct_invalid [OF binvD(1) [OF i]] by blast
  note r = add_direct_result [OF h(3) d]
  have "table_inv (met_node h n s)"
    unfolding met_node_def by (intro table_inv_erase_indirect table_inv_add_direct binvD(1) [OF i] h d)
  moreover have "direct_only (met_node h n s)"
    using binvD(2) [OF i] by (auto simp: direct_only_def met_node_def erase_indirect_result r lookup_direct_def)
  ultimately show ?thesis
    using binvD(3) [OF i] binvD(4-6) [OF i] h n(1) unfolding binv_def met_node_fields
    by (auto simp: met_node_def erase_indirect_result r)
qed

text \<open>Erasing a connection purges the state of its node and removes its context.\<close>

interpretation pg: erase_callback purge_state
  by unfold_locales (rule keeps_purge)

lemma ns_inv_purge: "ns_inv s \<Longrightarrow> ns_inv (purge_state n s)"
  using ns_inv_erase_proxies [of s n]
    ns_inv_eqI [of "(erase_proxies n s)\<lparr>bk_ctx := c, known_remotes := k\<rparr>" "erase_proxies n s" for c k]
  by (simp add: purge_state_def Let_def actor_id_of_def)

lemma ctx_purge: "bk_ctx (purge_state n s) = (if lookup_direct n s = invalid_connection_handle then bk_ctx s else (bk_ctx s)(lookup_direct n s := None))"
  by (simp add: purge_state_def Let_def)

lemma ns_inv_frame:
  fixes s :: broker
  shows "ns_inv (notify_hook e s) = ns_inv s" "ns_inv (s\<lparr>direct_by_nid := a, direct_by_hdl := b\<rparr>) = ns_inv s"
    "ns_inv (s\<lparr>direct_by_hdl := b, direct_by_nid := a\<rparr>) = ns_inv s" "ns_inv (s\<lparr>indirect := c\<rparr>) = ns_inv s"
    "ns_inv (s\<lparr>scribes := d\<rparr>) = ns_inv s" "ns_inv (s\<lparr>bk_ctx := x\<rparr>) = ns_inv s"
    "ns_inv (s\<lparr>scribes := d, bk_ctx := x\<rparr>) = ns_inv s" "ns_inv (s\<lparr>bk_ctx := x, bk_this := h\<rparr>) = ns_inv s"
  by (rule ns_inv_eqI; simp add: notify_hook_def actor_id_of_def)+

lemma ns_inv_erase_direct: "ns_inv s \<Longrightarrow> ns_inv (erase_direct purge_state h s)"
  by (simp add: erase_direct_def Let_def ns_inv_purge ns_inv_frame split: option.splits)

lemma ns_inv_erase_node: "ns_inv s \<Longrightarrow> ns_inv (snd (erase_node purge_state n s))"
proof -
  assume "ns_inv s"
  then have 0: "ns_inv (purge_state n s)" by (rule ns_inv_purge)
  have "ns_inv t \<Longrightarrow> ns_inv (fold (\<lambda>m t. notify_hook (Route_Lost m n) (purge_state m t)) ms t)" for ms t
    by (induction ms arbitrary: t) (simp_all add: ns_inv_frame ns_inv_purge)
  with 0 show ?thesis by (simp add: erase_node_def Let_def ns_inv_frame split: option.split)
qed

lemma binv_erase_direct:
  assumes i: "binv s"
  shows "binv (erase_direct purge_state h s)" "direct_by_hdl (erase_direct purge_state h s) h = None"
    "scribes (erase_direct purge_state h s) = scribes s" "bk_this (erase_direct purge_state h s) = bk_this s"
proof -
  let ?t = "erase_direct purge_state h s"
  show d: "direct_by_hdl ?t h = None" by (simp add: pg.erase_direct_table)
  have f: "ns_inv ?t" "scribes ?t = scribes s" "bk_this ?t = bk_this s" "dom (bk_ctx s) - {h} \<subseteq> dom (bk_ctx ?t)"
  proof -
    show "ns_inv ?t" by (rule ns_inv_erase_direct [OF binvD(3) [OF i]])
    show "scribes ?t = scribes s" "bk_this ?t = bk_this s"
      by (simp_all add: erase_direct_def Let_def notify_hook_def purge_fields split: option.splits)
    have "lookup_direct n s = h" if "direct_by_hdl s h = Some n" for n
      using that table_invD(1) [OF binvD(1) [OF i]] by (simp add: lookup_direct_def)
    then show "dom (bk_ctx s) - {h} \<subseteq> dom (bk_ctx ?t)"
      by (auto simp: erase_direct_def Let_def notify_hook_def ctx_purge split: option.splits)
  qed
  show "scribes ?t = scribes s" "bk_this ?t = bk_this s" using f by simp_all
  have "direct_only ?t" using binvD(2) [OF i]
    by (auto simp: direct_only_def lookup_direct_def pg.erase_direct_table split: option.splits)
  moreover have "table_inv ?t" by (rule pg.table_inv_erase_direct [OF binvD(1) [OF i]])
  moreover have "k \<in> scribes s \<and> k \<in> dom (bk_ctx ?t) \<and> n \<noteq> None" if "direct_by_hdl ?t k = Some n" for k n
  proof -
    have "k \<noteq> h" "direct_by_hdl s k = Some n" using that d by (auto simp: pg.erase_direct_table split: if_splits)
    then show ?thesis using binvD(4-6) [OF i, of k n] f(4) by blast
  qed
  ultimately show "binv ?t" using f unfolding binv_def by auto
qed

text \<open>The header a scribe hands over, or the one whose payload it waited for.\<close>

definition pending_header :: "connection_handle \<Rightarrow> u8 list \<Rightarrow> broker \<Rightarrow> header option" where
  "pending_header h bytes s = (case bk_ctx s h of
     Some c \<Rightarrow> if cx_state c = await_payload then Some (cx_hdr c)
       else (case read_hdr bytes of Inl e \<Rightarrow> None | Inr (hdr, r) \<Rightarrow> Some hdr)
   | None \<Rightarrow> (case read_hdr bytes of Inl e \<Rightarrow> None | Inr (hdr, r) \<Rightarrow> Some hdr))"

text \<open>A node that shook hands does not do so again on the same connection.\<close>

definition no_second_handshake :: "connection_handle \<Rightarrow> u8 list \<Rightarrow> broker \<Rightarrow> bool" where
  "no_second_handshake h bytes s \<longleftrightarrow> (case pending_header h bytes s of None \<Rightarrow> True
     | Some hdr \<Rightarrow> is_handshake hdr \<longrightarrow> direct_by_hdl s h = None)"

lemma valid_handshake_node: "is_handshake hdr \<Longrightarrow> valid_header hdr \<Longrightarrow> source_node hdr \<noteq> None"
  by (auto simp: is_handshake_def valid_header_def valid_defs message_type_defs valid_node_def compare_invalid_node_def split: if_splits)

lemma set_context_fields:
  "direct_by_hdl (set_context h s) = direct_by_hdl s" "scribes (set_context h s) = scribes s" "bk_this (set_context h s) = h"
  "dom (bk_ctx (set_context h s)) = insert h (dom (bk_ctx s))"
  by (auto simp: set_context_def)

lemma binv_ctx:
  assumes "binv s" and "\<And>k n. direct_by_hdl s k = Some n \<Longrightarrow> k \<in> S \<and> k \<in> dom c"
  shows "binv (s\<lparr>scribes := S, bk_ctx := c, bk_this := b\<rparr>)" "binv (s\<lparr>scribes := S, bk_ctx := c\<rparr>)"
proof -
  have f: "binv t" if "direct_by_hdl t = direct_by_hdl s" "scribes t = S" "bk_ctx t = c" "table_inv t = table_inv s" "direct_only t = direct_only s"
      "ns_inv t = ns_inv s" for t
    using assms(2) binvD [OF assms(1)] that unfolding binv_def by simp
  have g: "binv t" if "direct_by_hdl t = direct_by_hdl s" "direct_by_nid t = direct_by_nid s" "indirect t = indirect s" "blacklisted t = blacklisted s"
      "scribes t = S" "bk_ctx t = c" "ns_inv t = ns_inv s" for t
    by (rule f [OF that(1,5,6) table_inv_cong [OF that(1-4)] direct_only_eqI [OF that(2,3)] that(7)])
  show "binv (s\<lparr>scribes := S, bk_ctx := c, bk_this := b\<rparr>)"
    by (rule g, simp_all) (rule ns_inv_eqI, simp_all add: actor_id_of_def)
  show "binv (s\<lparr>scribes := S, bk_ctx := c\<rparr>)"
    by (rule g, simp_all) (rule ns_inv_eqI, simp_all add: actor_id_of_def)
qed

lemma binv_set_context: "binv s \<Longrightarrow> binv (set_context h s)"
proof -
  assume i: "binv s"
  obtain c where c: "set_context h s = s\<lparr>scribes := scribes s, bk_ctx := (bk_ctx s)(h \<mapsto> c), bk_this := h\<rparr>"
    by (simp add: set_context_def)
  show ?thesis unfolding c using i by (intro binv_ctx) (auto dest: binvD(4,5) [OF i])
qed

text \<open>What handling the data of a connection does to the table, before the context is updated.\<close>

lemma handle_data_binv:
  assumes safe: "safe_codecs B" and i: "binv s" and h: "h \<in> scribes s" "h \<in> dom (bk_ctx s)" "h \<noteq> invalid_connection_handle"
    and one: "\<And>hdr'. (if p then hdr' = hdr else \<exists>r. read_hdr bytes = Inr (hdr', r)) \<Longrightarrow> is_handshake hdr' \<Longrightarrow> direct_by_hdl s h = None"
    and r: "handle_data (broker_io B) (broker_callee B) h bytes hdr p s = Inr (st, hdr1, t)"
  shows "binv t \<and> bk_this t = bk_this s \<and> (st = close_connection \<longrightarrow> direct_by_hdl t h = None)"
proof -
  have hh: ?thesis if rh: "handle_header (broker_io B) (broker_callee B) h hd pl s = Inr (st, hdr1, t)"
      and once: "is_handshake hd \<Longrightarrow> direct_by_hdl s h = None" for hd pl
  proof -
    obtain u0 u where u0: "u0 = s \<or> is_handshake hd \<and> valid_header hd \<and> lookup_direct (source_node hd) s = invalid_connection_handle
        \<and> u0 = met_node h (source_node hd) s" and u: "evolves u0 u"
      and t: "st = await_header \<and> t = u \<or> st = close_connection \<and> t = erase_direct purge_state h u"
      using handle_header_cases [OF safe rh] by metis
    have "binv u0 \<and> bk_this u0 = bk_this s"
    proof (cases "u0 = s")
      case False
      then show ?thesis using u0 once binv_met_node [OF i h(1,2) _ h(3)] valid_handshake_node [of hd] met_node_fields(4) by metis
    qed (simp add: i)
    then have "binv u" "bk_this u = bk_this s" using evolves_binv [OF u] u by (blast, simp add: evolves_def)
    then show ?thesis using t binv_erase_direct [of u h] by auto
  qed
  have er: ?thesis if "conn_err (broker_callee B) h hdr s = Inr (st, hdr1, t)"
    using that binv_erase_direct [OF i, of h] by (auto simp: conn_err_def callee_fields)
  show ?thesis
  proof (cases p)
    case True
    then show ?thesis using r one hh [of hdr] er by (auto simp: handle_data_def split: if_splits)
  next
    case False
    then obtain hd q where "read_hdr bytes = Inr (hd, q)" using r by (auto simp: handle_data_def split: sum.splits)
    then show ?thesis using r False one hh [of hd] i by (auto simp: handle_data_def split: if_splits)
  qed
qed

lemma binv_grows: "grows s t \<Longrightarrow> binv s \<Longrightarrow> binv t"
  by (rule evolves_binv [OF grows_evolves])

lemma binv_on_new_data:
  assumes safe: "safe_codecs B" and i: "binv s" and h: "h \<in> scribes s" "h \<noteq> invalid_connection_handle" "no_second_handshake h bytes s"
    and r: "on_new_data B h bytes s = Inr t"
  shows "binv t"
proof -
  let ?s1 = "set_context h s"
  obtain c where c: "bk_ctx ?s1 h = Some c" using set_context_fields(4) [of h s] by blast
  obtain st hdr s2 where d: "handle_data (broker_io B) (broker_callee B) h bytes (cx_hdr c) (cx_state c = await_payload) ?s1 = Inr (st, hdr, s2)"
    using r c by (auto simp: on_new_data_def Let_def split: sum.splits)
  have cc: "bk_ctx s h = Some c \<or> bk_ctx s h = None \<and> cx_state c = await_header" using c by (auto simp: set_context_def split: option.splits)
  have "binv s2 \<and> bk_this s2 = bk_this ?s1 \<and> (st = close_connection \<longrightarrow> direct_by_hdl s2 h = None)"
  proof (rule handle_data_binv [OF safe binv_set_context [OF i] _ _ h(2) _ d])
    fix hd assume "if cx_state c = await_payload then hd = cx_hdr c else \<exists>r. read_hdr bytes = Inr (hd, r)" "is_handshake hd"
    then have "pending_header h bytes s = Some hd" using cc by (auto simp: pending_header_def split: if_splits)
    then show "direct_by_hdl ?s1 h = None" using h(3) \<open>is_handshake hd\<close> by (simp add: no_second_handshake_def set_context_fields)
  qed (simp_all add: set_context_fields h(1))
  then have 2: "binv s2" "bk_this s2 = h" "st = close_connection \<Longrightarrow> direct_by_hdl s2 h = None" by (auto simp: set_context_fields)
  show ?thesis
  proof (cases "st = close_connection")
    case True
    then have t: "t = s2\<lparr>scribes := scribes s2 - {h}, bk_ctx := (bk_ctx s2)(h := None)\<rparr>"
      using r c d by (auto simp add: on_new_data_def Let_def close_connection_of_def)
    show ?thesis unfolding t by (rule binv_ctx(2) [OF 2(1)]) (use 2 True binvD(4,5) [OF 2(1)] in \<open>auto split: if_splits\<close>)
  next
    case False
    let ?s3 = "update_context (\<lambda>c. c\<lparr>cx_hdr := hdr\<rparr>) s2"
    have 3: "binv ?s3" using binv_grows [OF grows_context(1) 2(1)] .
    have "binv (update_context f (?s3\<lparr>rd_policy := p\<rparr>))" for f p using binv_grows [OF grows_trans [OF grows_context(5) grows_context(1)] 3] .
    then show ?thesis using r c d False 3 by (auto simp: on_new_data_def Let_def split: if_splits)
  qed
qed

section \<open>Loss of a connection\<close>

lemma exited_kill_proxy: "r \<noteq> not_exited \<Longrightarrow> exited (kill_proxy pa p r w) a = (a = p \<or> exited w a)"
  by (auto simp: kill_proxy_def exited_def cleanup_actor_at set_manager_def set_actor_def)

lemma exited_entry_reset:
  "r \<noteq> not_exited \<Longrightarrow> exited (ns_wld (entry_reset r x s)) a = (exited (ns_wld s) a \<or> x = Some a \<and> \<not> expired s a)"
  by (auto simp: entry_reset_def anchor_get_def exited_kill_proxy split: option.splits)

lemma exited_destroy_submap:
  "exited (ns_wld (destroy_submap m s)) a = (exited (ns_wld s) a \<or> Some a \<in> snd ` set m \<and> \<not> expired s a)"
proof (induction m arbitrary: s)
  case (Cons e m)
  have r: "remote_link_unreachable \<noteq> not_exited" by (simp add: exit_reason_defs)
  have x: "expired (entry_reset remote_link_unreachable (snd e) s) a = expired s a" by (simp add: expired_def)
  have "destroy_submap (e # m) s = destroy_submap m (entry_reset remote_link_unreachable (snd e) s)" by (simp add: destroy_submap_def)
  then show ?case using Cons.IH exited_entry_reset [OF r, of "snd e" s a] by (auto simp: x)
qed (simp add: destroy_submap_def)

lemma exited_erase_proxies:
  "exited (ns_wld (erase_proxies n s)) a = (exited (ns_wld s) a \<or> Some a \<in> snd ` set (submap n s) \<and> \<not> expired s a)"
  by (simp add: erase_proxies_def exited_destroy_submap expired_def)

text \<open>The context of the lost connection is gone and a pending callback has its answer.\<close>

lemma closed_context:
  fixes s :: broker
  assumes "bk_ctx s h = Some c"
  obtains s1 where "erase_context h (close_connection_of h s) = (True, s1\<lparr>bk_ctx := (bk_ctx s)(h := None)\<rparr>)" "grows (close_connection_of h s) s1"
    "indirect s1 = indirect s" "\<And>a. exited (ns_wld s1) a = exited (ns_wld s) a"
proof -
  let ?s0 = "close_connection_of h s"
  let ?s1 = "case cx_callback c of None \<Rightarrow> ?s0 | Some cb \<Rightarrow> deliver_promise cb [Atom error_atom, Str ''disconnect during handshake''] ?s0"
  have f: "bk_ctx ?s0 = bk_ctx s" "indirect ?s0 = indirect s" "ns_reg ?s0 = ns_reg s" by (simp_all add: close_connection_of_def)
  have "erase_context h ?s0 = (True, ?s1\<lparr>bk_ctx := (bk_ctx s)(h := None)\<rparr>)" using assms by (simp add: erase_context_def f)
  moreover have "grows ?s0 ?s1" by (simp add: grows_promise split: option.splits)
  moreover have "indirect ?s1 = indirect s" by (simp add: deliver_promise_def on_world_def f split: option.splits)
  moreover have "exited (ns_wld ?s1) a = exited (ns_wld s) a" for a
    by (simp add: deliver_promise_def on_world_def exited_def f split: option.splits)
  ultimately show ?thesis using that by blast
qed

lemma connection_loss:
  assumes i: "binv s" and h: "h \<in> scribes s" "direct_by_hdl s h = Some n"
  shows "\<exists>u. scribe_failure B h s = erase_proxies n (notify_hook (Connection_Lost n) (purge_state n u
      \<lparr>direct_by_hdl := (direct_by_hdl s)(h := None), direct_by_nid := (direct_by_nid s)(n := None)\<rparr>))
    \<and> bk_ctx u = (bk_ctx s)(h := None) \<and> scribes u = scribes s - {h} \<and> lookup_direct n u = h \<and> proxies u = proxies s \<and> ns_inv u
    \<and> indirect u = indirect s \<and> direct_by_hdl u = direct_by_hdl s \<and> direct_by_nid u = direct_by_nid s \<and> table_inv u
    \<and> gone u = gone s \<and> (\<forall>a. exited (ns_wld u) a = exited (ns_wld s) a)"
proof -
  note T = binvD(1) [OF i]
  obtain c where c: "bk_ctx s h = Some c" using binvD(5) [OF i h(2)] by blast
  obtain s1 where s1: "erase_context h (close_connection_of h s) = (True, s1\<lparr>bk_ctx := (bk_ctx s)(h := None)\<rparr>)"
      "grows (close_connection_of h s) s1" "indirect s1 = indirect s" "\<And>a. exited (ns_wld s1) a = exited (ns_wld s) a"
    using closed_context [where s = s, OF c] by blast
  let ?u = "s1\<lparr>bk_ctx := (bk_ctx s)(h := None)\<rparr>"
  have t: "table_inv ?u" "ns_inv ?u"
  proof -
    have "table_inv s1" "ns_inv s1" using growsD(11) [OF s1(2)] ns_inv_grows [OF s1(2)] T binvD(3) [OF i]
        table_inv_cong [of "close_connection_of h s" s] ns_inv_eqI [of "close_connection_of h s" s]
      by (simp_all add: close_connection_of_def actor_id_of_def)
    then show "table_inv ?u" "ns_inv ?u" using table_inv_cong [of ?u s1] ns_inv_eqI [of ?u s1] by (simp_all add: actor_id_of_def)
  qed
  have d: "direct_by_nid s n = Some h" using table_invD(1) [OF T] h(2) by blast
  have v: "h \<noteq> invalid_connection_handle" using d table_invD(2) [OF T] by blast
  have n: "n \<noteq> None" using binvD(6) [OF i h(2)] .
  have f: "direct_by_hdl ?u = direct_by_hdl s" "direct_by_nid ?u = direct_by_nid s" "scribes ?u = scribes s - {h}" "proxies ?u = proxies s" "gone ?u = gone s"
    using growsD(1,3-6) [OF s1(2)] by (simp_all add: close_connection_of_def)
  have l: "lookup_direct n ?u = h" "lookup_node h ?u = n" using d h(2) f by (simp_all add: lookup_direct_def lookup_node_def)
  have "indirect s n = None" using binvD(2) [OF i] d v by (simp add: direct_only_def lookup_direct_def)
  then have q: "indirect (purge_state n ?u) n = None" using s1(3) by (simp add: purge_fields)
  have "lookup_direct n (purge_state n ?u) = h" using l(1) by (simp add: lookup_direct_def purge_fields)
  then have "snd (erase_node purge_state n ?u) = notify_hook (Connection_Lost n) (purge_state n ?u
      \<lparr>direct_by_hdl := (direct_by_hdl s)(h := None), direct_by_nid := (direct_by_nid s)(n := None)\<rparr>)"
    unfolding erase_node_def Let_def q using v f(1,2) by (simp add: purge_fields)
  then have "scribe_failure B h s = erase_proxies n (notify_hook (Connection_Lost n) (purge_state n ?u
      \<lparr>direct_by_hdl := (direct_by_hdl s)(h := None), direct_by_nid := (direct_by_nid s)(n := None)\<rparr>))"
    using h(1) n l(2) by (auto simp: scribe_failure_def on_connection_closed_def s1(1) handle_node_shutdown_def callee_fields)
  then show ?thesis using t f s1(3,4) l(1) by (intro exI [of _ ?u]) simp
qed

lemma connection_loss_fields:
  assumes i: "binv s" and h: "h \<in> scribes s" "direct_by_hdl s h = Some n"
    and td: "t = scribe_failure B h s"
  shows "direct_by_hdl t = (direct_by_hdl s)(h := None)" "direct_by_nid t = (direct_by_nid s)(n := None)" "indirect t = indirect s"
    "scribes t = scribes s - {h}" "bk_ctx t = (bk_ctx s)(h := None)" "map_of (proxies t) n = None" "ns_inv t" "table_inv t"
    and "exited (ns_wld t) a = (exited (ns_wld s) a \<or> Some a \<in> snd ` set (submap n s) \<and> \<not> expired s a)"
proof -
  obtain u where t: "t = erase_proxies n (notify_hook (Connection_Lost n) (purge_state n u
      \<lparr>direct_by_hdl := (direct_by_hdl s)(h := None), direct_by_nid := (direct_by_nid s)(n := None)\<rparr>))"
    and u: "bk_ctx u = (bk_ctx s)(h := None)" "scribes u = scribes s - {h}" "lookup_direct n u = h" "proxies u = proxies s" "ns_inv u"
      "indirect u = indirect s" "direct_by_hdl u = direct_by_hdl s" "direct_by_nid u = direct_by_nid s" "table_inv u" "gone u = gone s"
      "\<And>a. exited (ns_wld u) a = exited (ns_wld s) a"
    using connection_loss [OF i h] unfolding td by metis
  let ?v = "notify_hook (Connection_Lost n) (purge_state n u
      \<lparr>direct_by_hdl := (direct_by_hdl s)(h := None), direct_by_nid := (direct_by_nid s)(n := None)\<rparr>)"
  have d: "direct_by_nid s n = Some h" using table_invD(1) [OF binvD(1) [OF i]] h(2) by blast
  have v: "h \<noteq> invalid_connection_handle" using d table_invD(2) [OF binvD(1) [OF i]] by blast
  have p: "purge_state n u = (erase_proxies n u)\<lparr>bk_ctx := (bk_ctx s)(h := None), known_remotes := (known_remotes u)(n := None)\<rparr>"
    using u(1,3) v by (simp add: purge_state_def Let_def)
  have f: "bk_ctx ?v = (bk_ctx s)(h := None)" "scribes ?v = scribes s - {h}" "indirect ?v = indirect s"
    by (simp_all add: notify_hook_def p erase_fields u)
  show "direct_by_hdl t = (direct_by_hdl s)(h := None)" "direct_by_nid t = (direct_by_nid s)(n := None)" "indirect t = indirect s"
    "scribes t = scribes s - {h}" "bk_ctx t = (bk_ctx s)(h := None)" "map_of (proxies t) n = None"
    unfolding t erase_fields f by (simp_all add: erase_proxies_result map_of_delete_key)
  show "ns_inv t" unfolding t
  proof (rule ns_inv_erase_proxies)
    have "ns_inv ?v = ns_inv (purge_state n u)" by (rule ns_inv_eqI) (simp_all add: notify_hook_def actor_id_of_def)
    then show "ns_inv ?v" using ns_inv_purge [OF u(5)] by simp
  qed
  have b: "blacklisted t = blacklisted u" unfolding t erase_fields by (simp add: purge_fields)
  show "table_inv t"
    by (rule table_inv_remove_direct [OF u(9), of h n]) (simp_all add: b, simp_all add: t erase_fields u h purge_fields)
  have "submap n ?v = []" by (simp add: notify_hook_def submap_def p erase_proxies_result map_of_delete_key)
  moreover have "exited (ns_wld ?v) a = exited (ns_wld (erase_proxies n u)) a" by (simp add: notify_hook_def p)
  moreover have "submap n u = submap n s" "expired u a = expired s a" using u(4,10) by (simp_all add: submap_def expired_def)
  ultimately show "exited (ns_wld t) a = (exited (ns_wld s) a \<or> Some a \<in> snd ` set (submap n s) \<and> \<not> expired s a)"
    unfolding t exited_erase_proxies [of n ?v] by (simp add: exited_erase_proxies u(11))
qed

lemma binv_scribe_failure:
  assumes i: "binv s"
  shows "binv (scribe_failure B h s)"
proof (cases "h \<in> scribes s")
  case False
  then show ?thesis using i by (simp add: scribe_failure_def)
next
  case h: True
  show ?thesis
  proof (cases "direct_by_hdl s h")
    case (Some n)
    note f = connection_loss_fields [OF i h Some refl, of B]
    have "direct_only (scribe_failure B h s)"
      using binvD(2) [OF i] f(2,3) by (auto simp: direct_only_def lookup_direct_def)
    then show ?thesis using f binvD(4-6) [OF i] unfolding binv_def by (auto split: if_splits)
  next
    case None
    let ?s0 = "close_connection_of h s"
    have "binv (s\<lparr>scribes := scribes s - {h}, bk_ctx := bk_ctx s\<rparr>)"
      by (rule binv_ctx(2) [OF i]) (use None binvD(4,5) [OF i] in force)
    then have 0: "binv ?s0" by (simp add: close_connection_of_def)
    show ?thesis
    proof (cases "bk_ctx s h")
      case None
      then show ?thesis using h 0 by (simp add: scribe_failure_def on_connection_closed_def erase_context_def close_connection_of_def)
    next
      case (Some c)
      obtain s1 where s1: "erase_context h ?s0 = (True, s1\<lparr>bk_ctx := (bk_ctx s)(h := None)\<rparr>)" "grows ?s0 s1"
        using closed_context [where s = s, OF Some] by blast
      have 1: "binv s1" using binv_grows [OF s1(2) 0] .
      have d: "direct_by_hdl s1 = direct_by_hdl s" using growsD(5) [OF s1(2)] by (simp add: close_connection_of_def)
      have c: "dom (bk_ctx s1) = dom (bk_ctx s)" using growsD(13) [OF s1(2)] by (simp add: close_connection_of_def)
      have "binv (s1\<lparr>scribes := scribes s1, bk_ctx := (bk_ctx s)(h := None)\<rparr>)"
        by (rule binv_ctx(2) [OF 1]) (use binvD(4,5) [OF 1] None d c in force)
      then show ?thesis using h None d
        by (simp add: scribe_failure_def on_connection_closed_def s1(1) lookup_node_def)
    qed
  qed
qed

section \<open>Steps\<close>

lemma evolves_on_forward:
  assumes safe: "safe_codecs B" and r: "on_forward B src dst i msg s = Inr t"
  shows "evolves s t"
proof (cases "dst = None \<or> \<not> is_remote s dst")
  case True
  then show ?thesis using r by (auto simp: on_forward_def split: option.splits)
next
  case False
  then obtain d where d: "dst = Some d" "is_remote s dst" by auto
  let ?s1 = "case src of None \<Rightarrow> s | Some a \<Rightarrow> if is_remote s src then s else register_actor a s"
  have 1: "evolves s ?s1" using grows_evolves [OF grows_register] by (simp split: option.splits)
  obtain q s2 where q: "lookup_route (actor_node ?s1 d) ?s1 = (q, s2)" by force
  have 2: "evolves s s2" using evolves_trans [OF 1 grows_evolves [OF grows_lookup [OF q]]] .
  obtain ok u where u: "dispatch (broker_io B) src d i msg ?s1 = Inr (ok, u)" and t: "t = u \<or> t = on_world (bounce remote_link_unreachable src i) u"
    using r d by (auto simp: on_forward_def Let_def split: sum.splits if_splits)
  have "evolves s u"
  proof (cases q)
    case None
    then have "u = notify_hook (Message_Sending_Failed src (Some d) i msg) s2" using u q by (simp add: dispatch_def)
    then show ?thesis using evolves_trans [OF 2 grows_evolves [OF grows_notify]] by simp
  next
    case (Some hh)
    then obtain h hop p s3 hdr where w: "wr_msg (broker_io B) msg s2 = Inr (p, s3)"
      "u = notify_hook (Message_Sent src hop (Some d) i msg) (write_to h hdr (Some p) s3)"
      using u q by (auto simp: dispatch_def Let_def split: sum.splits prod.splits)
    have "grows s3 u" unfolding w(2) write_to_def by (rule grows_trans [OF grows_set_buf grows_trans [OF grows_flush grows_notify]])
    then show ?thesis using evolves_trans [OF 2 evolves_trans [OF evolves_wr_msg [OF safe w(1)] grows_evolves]] by blast
  qed
  then show ?thesis using t evolves_trans [OF _ grows_evolves [OF grows_enqueue(3)]] by metis
qed

lemma grows_server_handshake: "grows s (server_handshake_for h p s)"
  unfolding server_handshake_for_def Let_def by (rule grows_set_buf)

lemma binv_more_scribes:
  assumes "binv s" and "dom (bk_ctx s) \<subseteq> dom c"
  shows "binv (s\<lparr>scribes := insert h (scribes s), bk_ctx := c\<rparr>)"
  by (rule binv_ctx(2) [OF assms(1)]) (use assms(2) binvD(4,5) [OF assms(1)] in blast)

lemma binv_accept: "binv s \<Longrightarrow> binv (accept_connection h a s)"
proof -
  assume i: "binv s"
  let ?s1 = "s\<lparr>scribes := insert h (scribes s)\<rparr>"
  have 1: "binv ?s1" using binv_more_scribes [OF i, of "bk_ctx s" h] by simp
  have "grows ?s1 (accept_connection h a s)"
    unfolding accept_connection_def on_new_connection_def Let_def
    by (rule grows_trans [OF grows_server_handshake grows_trans [OF grows_flush grows_context(5)]])
  then show ?thesis using binv_grows 1 by blast
qed

lemma binv_on_connect:
  assumes i: "binv s"
  shows "binv (on_connect h port rp failure s)"
proof (cases failure)
  case None
  obtain c p where c: "on_connect h port rp failure s = s\<lparr>scribes := insert h (scribes s), bk_ctx := (bk_ctx s)(h \<mapsto> c)\<rparr>\<lparr>rd_policy := p\<rparr>"
    using None by (auto simp: on_connect_def Let_def)
  show ?thesis unfolding c by (rule binv_grows [OF grows_context(5) binv_more_scribes [OF i]]) auto
next
  case (Some w)
  then show ?thesis using binv_grows [OF grows_promise i] by (simp add: on_connect_def)
qed

lemma grows_published: "grows s (add_published_actor p w is s)" "grows s (snd (remove_published_port None p s))"
  using grows_trans [OF grows_context(9) grows_notify] grows_context(9)
  by (auto simp: add_published_actor_def remove_published_port_def Let_def split: option.splits)

lemma grows_close_port: "grows s (close_port p s)"
  using grows_context(8) by (simp add: close_port_def split: option.splits)

lemma grows_unpublish: "grows s (snd (remove_published_actor (Some (\<lambda>w. close_port)) whom port s))"
proof -
  have g: "grows s ((close_port p s)\<lparr>published := x\<rparr>)" for p s x using grows_trans [OF grows_close_port grows_context(9)] .
  have "grows s (fold (\<lambda>p t. close_port p t\<lparr>published := delete_key p (published (close_port p t))\<rparr>) ps s)" for ps
  proof (induction ps arbitrary: s)
    case (Cons p ps)
    then show ?case using grows_trans [OF g Cons.IH] by simp
  qed simp
  then show ?thesis using g by (simp add: remove_published_actor_def Let_def split: option.splits)
qed

lemma grows_doorman_failure: "grows s (doorman_failure a s)"
  using grows_trans [OF grows_context(8) grows_published(2)] by (simp add: doorman_failure_def on_acceptor_closed_def)

lemma evolves_run_task: "evolves s (run_task s)"
proof -
  have "evolves s (run_io_functor f r (s\<lparr>io_seen := k\<rparr>))" for f r k
    using evolves_trans [OF grows_evolves [OF grows_context(6)] evolves_erase_proxy]
      evolves_trans [OF grows_evolves [OF grows_context(6)] evolves_send_kill] grows_evolves [OF grows_context(6)]
    by (simp add: run_io_functor_def split: io_functor.splits)
  moreover have "evolves s (s\<lparr>io_seen := k\<rparr>)" for k using grows_evolves [OF grows_context(6)] .
  ultimately show ?thesis by (simp add: run_task_def run_io_event_def split: event.splits option.splits)
qed

text \<open>
  The namespace of proxies stays consistent whatever a peer sends; no assumption about the routing
  table is needed.
\<close>

lemma evolves_ns: "evolves s t \<Longrightarrow> ns_inv s \<Longrightarrow> ns_inv t"
  by (simp add: evolves_def)

lemma ns_inv_handle_data:
  assumes safe: "safe_codecs B" and i: "ns_inv s"
    and r: "handle_data (broker_io B) (broker_callee B) h bytes hdr p s = Inr (st, hdr1, t)"
  shows "ns_inv t"
proof -
  have hh: ?thesis if rh: "handle_header (broker_io B) (broker_callee B) h hd pl s = Inr (st, hdr1, t)" for hd pl
  proof -
    obtain u0 u where u0: "u0 = s \<or> u0 = met_node h (source_node hd) s" and u: "evolves u0 u"
      and t: "t = u \<or> t = erase_direct purge_state h u"
      using handle_header_cases [OF safe rh] by metis
    have "ns_inv u0" using u0 i met_node_fields(1) by metis
    then have "ns_inv u" using evolves_ns [OF u] by blast
    then show ?thesis using t ns_inv_erase_direct by blast
  qed
  have er: ?thesis if "conn_err (broker_callee B) h hdr s = Inr (st, hdr1, t)"
    using that ns_inv_erase_direct [OF i] by (auto simp: conn_err_def callee_fields)
  show ?thesis
  proof (cases p)
    case True
    then show ?thesis using r hh [of hdr] er by (auto simp: handle_data_def split: if_splits)
  next
    case False
    then obtain hd q where "read_hdr bytes = Inr (hd, q)" using r by (auto simp: handle_data_def split: sum.splits)
    then show ?thesis using r False hh [of hd] i by (auto simp: handle_data_def split: if_splits)
  qed
qed

lemma ns_inv_on_new_data:
  assumes safe: "safe_codecs B" and i: "ns_inv s" and r: "on_new_data B h bytes s = Inr t"
  shows "ns_inv t"
proof -
  let ?s1 = "set_context h s"
  obtain c where c: "bk_ctx ?s1 h = Some c" using set_context_fields(4) [of h s] by blast
  have 1: "ns_inv ?s1" using i by (simp add: set_context_def ns_inv_frame)
  obtain st hdr s2 where d: "handle_data (broker_io B) (broker_callee B) h bytes (cx_hdr c) (cx_state c = await_payload) ?s1 = Inr (st, hdr, s2)"
    using r c by (auto simp: on_new_data_def Let_def split: sum.splits)
  have 2: "ns_inv s2" by (rule ns_inv_handle_data [OF safe 1 d])
  let ?s3 = "update_context (\<lambda>c. c\<lparr>cx_hdr := hdr\<rparr>) s2"
  have 3: "ns_inv ?s3" using ns_inv_grows [OF grows_context(1) 2] .
  have "ns_inv (update_context f (?s3\<lparr>rd_policy := p\<rparr>))" for f p
    using ns_inv_grows [OF grows_trans [OF grows_context(5) grows_context(1)] 3] .
  then show ?thesis using r c d 2 3
    by (auto simp: on_new_data_def Let_def close_connection_of_def ns_inv_frame split: if_splits)
qed

lemma ns_inv_scribe_failure:
  assumes "ns_inv s"
  shows "ns_inv (scribe_failure B h s)"
proof -
  let ?s0 = "close_connection_of h s"
  have 0: "ns_inv ?s0" using assms by (simp add: close_connection_of_def ns_inv_frame)
  obtain b s1 where e: "erase_context h ?s0 = (b, s1)" by force
  have "ns_inv (deliver_promise cb m ?s0)" for cb m using ns_inv_grows [OF grows_promise 0] .
  then have "ns_inv s1" using e 0 by (auto simp: erase_context_def ns_inv_frame split: option.splits)
  then show ?thesis using assms e ns_inv_erase_node [of s1] ns_inv_erase_proxies
    by (auto simp: scribe_failure_def on_connection_closed_def handle_node_shutdown_def callee_fields Let_def split: bool.splits)
qed

text \<open>
  The steps of the broker: data from the multiplexer, and messages from the multiplexer, from
  proxies and from the middleman, and tasks. Handles of connections are valid. No assumption is made on
  what a peer sends.
\<close>

inductive local_step :: "broker_env \<Rightarrow> broker \<Rightarrow> broker \<Rightarrow> bool" for B where
  bs_forward: "on_forward B src dst i msg s = Inr t \<Longrightarrow> local_step B s t"
| bs_accept: "local_step B s (accept_connection h a s)"
| bs_lost: "local_step B s (scribe_failure B h s)"
| bs_acceptor_lost: "local_step B s (doorman_failure a s)"
| bs_publish: "local_step B s (on_publish hdl port whom sigs assigned s)"
| bs_connect: "local_step B s (on_connect h port rp failure s)"
| bs_delete: "local_step B s (on_delete n aid s)"
| bs_unpublish: "local_step B s (snd (on_unpublish whom port s))"
| bs_close: "local_step B s (snd (on_close port s))"
| bs_spawn: "local_step B s (on_spawn n type args client i s)"
| bs_config: "on_config key val door addrs s = Inr t \<Longrightarrow> local_step B s t"
| bs_init: "local_step B s (broker_init s)"
| bs_task: "local_step B s (run_task s)"

inductive broker_step :: "broker_env \<Rightarrow> broker \<Rightarrow> broker \<Rightarrow> bool" for B where
  bs_data: "h \<noteq> invalid_connection_handle \<Longrightarrow> consume B h bytes s = Inr t \<Longrightarrow> broker_step B s t"
| bs_local: "local_step B s t \<Longrightarrow> broker_step B s t"

text \<open>The steps of a broker whose peers shake hands at most once on a connection.\<close>

inductive orderly_step :: "broker_env \<Rightarrow> broker \<Rightarrow> broker \<Rightarrow> bool" for B where
  os_data: "h \<noteq> invalid_connection_handle \<Longrightarrow> no_second_handshake h bytes s \<Longrightarrow> consume B h bytes s = Inr t \<Longrightarrow> orderly_step B s t"
| os_local: "local_step B s t \<Longrightarrow> orderly_step B s t"

lemma orderly_broker: "orderly_step B s t \<Longrightarrow> broker_step B s t"
  by (cases rule: orderly_step.cases) (auto intro: broker_step.intros)

text \<open>Apart from connections that come and go, local steps only add to the state.\<close>

lemma local_step_cases:
  assumes "local_step B s t" and "safe_codecs B"
  shows "evolves s t \<or> (\<exists>h a. t = accept_connection h a s) \<or> (\<exists>h port rp failure. t = on_connect h port rp failure s)
    \<or> (\<exists>h. t = scribe_failure B h s)"
proof -
  have g: "grows s t \<Longrightarrow> ?thesis" using grows_evolves by blast
  show ?thesis
    using assms(1)
  proof cases
    case bs_forward
    then show ?thesis using evolves_on_forward [OF assms(2)] by blast
  next
    case bs_acceptor_lost
    then show ?thesis using g grows_doorman_failure by simp
  next
    case bs_publish
    have "grows s (add_published_actor p w x (register_actor a (s\<lparr>doormen := y\<rparr>)))" for p w x a y
      by (rule grows_trans [OF grows_context(8) grows_trans [OF grows_register grows_published(1)]])
    then show ?thesis using bs_publish g by (auto simp: on_publish_def split: option.splits)
  next
    case bs_delete
    then show ?thesis using evolves_erase_proxy by (simp add: on_delete_def)
  next
    case (bs_unpublish whom port)
    have "grows s (snd (on_unpublish whom port s))"
      using grows_unpublish [of s] by (auto simp: on_unpublish_def split: prod.splits) (metis snd_conv)
    then show ?thesis using bs_unpublish g by simp
  next
    case (bs_close port)
    have "grows s (snd (on_close port s))"
      using grows_published(2) [of s] grows_trans [OF grows_published(2) grows_close_port, of s]
      by (auto simp: on_close_def Let_def split: option.splits)
    then show ?thesis using bs_close g by simp
  next
    case bs_spawn
    then show ?thesis using g grows_promise [of s] grows_enqueue(1) [of s] by (auto simp: on_spawn_def split: option.splits)
  next
    case bs_config
    have "grows s ((on_world (enqueue_addr pa cs x j m) (s\<lparr>doormen := y\<rparr>))\<lparr>auto_connect := b\<rparr>)" for pa cs x j m y b
      by (rule grows_trans [OF grows_context(8) grows_trans [OF grows_enqueue(2) grows_context(7)]])
    then show ?thesis using bs_config g by (auto simp: on_config_def Let_def split: if_splits option.splits)
  next
    case bs_init
    then show ?thesis using g grows_enqueue(2) [of s] by (simp add: broker_init_def)
  next
    case bs_task
    then show ?thesis using evolves_run_task by simp
  qed blast+
qed

lemma binv_local_step: "local_step B s t \<Longrightarrow> safe_codecs B \<Longrightarrow> binv s \<Longrightarrow> binv t"
  using local_step_cases [of B s t] evolves_binv binv_accept binv_on_connect binv_scribe_failure by metis

lemma binv_orderly_step:
  assumes "orderly_step B s t" and "safe_codecs B" and i: "binv s"
  shows "binv t"
  using assms(1)
proof cases
  case (os_data h bytes)
  show ?thesis
  proof (cases "h \<in> scribes s")
    case True
    then obtain u where u: "on_new_data B h bytes s = Inr u" "t = flush h u" using os_data by (auto simp: consume_def split: sum.splits)
    show ?thesis using binv_grows [OF grows_flush binv_on_new_data [OF assms(2) i True os_data(1,2) u(1)]] u(2) by simp
  qed (use os_data i in \<open>simp add: consume_def\<close>)
next
  case os_local
  then show ?thesis using binv_local_step assms(2) i by blast
qed

lemma binv_orderly_steps: "(orderly_step B)\<^sup>*\<^sup>* s t \<Longrightarrow> safe_codecs B \<Longrightarrow> binv s \<Longrightarrow> binv t"
  by (induction rule: rtranclp_induct) (auto intro: binv_orderly_step)

lemma ns_inv_local_step:
  assumes "local_step B s t" and "safe_codecs B" and i: "ns_inv s"
  shows "ns_inv t"
proof -
  have "ns_inv (accept_connection h a s)" for h a
  proof -
    have "grows (s\<lparr>scribes := insert h (scribes s)\<rparr>) (accept_connection h a s)"
      unfolding accept_connection_def on_new_connection_def Let_def
      by (rule grows_trans [OF grows_server_handshake grows_trans [OF grows_flush grows_context(5)]])
    then show ?thesis using ns_inv_grows i ns_inv_frame(5) by blast
  qed
  moreover have "ns_inv (on_connect h port rp failure s)" for h port rp failure
  proof (cases failure)
    case None
    obtain c p where c: "on_connect h port rp failure s = s\<lparr>scribes := insert h (scribes s), bk_ctx := (bk_ctx s)(h \<mapsto> c)\<rparr>\<lparr>rd_policy := p\<rparr>"
      using None by (auto simp: on_connect_def Let_def)
    show ?thesis unfolding c by (rule ns_inv_grows [OF grows_context(5)]) (simp add: ns_inv_frame i)
  next
    case (Some w)
    then show ?thesis using ns_inv_grows [OF grows_promise i] by (simp add: on_connect_def)
  qed
  ultimately show ?thesis
    using local_step_cases [OF assms(1,2)] evolves_ns [OF _ i] ns_inv_scribe_failure [OF i] by metis
qed

lemma ns_inv_step:
  assumes "broker_step B s t" and "safe_codecs B" and i: "ns_inv s"
  shows "ns_inv t"
  using assms(1)
proof cases
  case (bs_data h bytes)
  then consider u where "on_new_data B h bytes s = Inr u" "t = flush h u" | "t = s"
    by (auto simp: consume_def split: sum.splits if_splits)
  then show ?thesis
    using ns_inv_grows [OF grows_flush ns_inv_on_new_data [OF assms(2) i]] i by cases blast+
next
  case bs_local
  then show ?thesis using ns_inv_local_step assms(2) i by blast
qed

lemma ns_inv_steps: "(broker_step B)\<^sup>*\<^sup>* s t \<Longrightarrow> safe_codecs B \<Longrightarrow> ns_inv s \<Longrightarrow> ns_inv t"
  by (induction rule: rtranclp_induct) (auto intro: ns_inv_step)

end
