(* ===== verification/Broker_Properties.thy ===== *)
theory Broker_Properties
  imports Broker_Steps
begin

text \<open>
  Two brokers at the ends of a connection: the forwarded message of a proxy on one node becomes bytes,
  which the scribe of the other node hands to its broker in two portions, and the message arrives in
  the mailbox of its receiver. Then what holds in all reachable states of a broker, what the loss of a
  connection does, and where the broker goes wrong.
\<close>

section \<open>Sending\<close>

lemma plain_travels:
  fixes X :: "'a nspace_scheme codec_env"
  assumes "good_env X" and "list_all plain msg" and "length (tuple_name (map (\<lambda>e. builtin_name (type_of e)) msg)) < 2 ^ 32"
  shows "travels (write_msg X msg) (read_msg X) msg"
  using travels_plain(2) [OF assms(1,2)] by (rule travels_tuple [OF assms(2,3,1)])

lemma write_msg_nonempty: "write_msg X msg s = Inr (b, t) \<Longrightarrow> b \<noteq> []"
  by (auto simp: write_msg_def then_wr_def begin_tuple_def begin_object_out_def Let_def
      split: sum.splits option.splits prod.splits dest!: arg_cong [of _ "[]" length])

lemma direct_route:
  assumes "lookup_direct n s \<noteq> invalid_connection_handle"
  shows "lookup_route n s = (Some (lookup_direct n s, n), s)"
  using assms by (simp add: lookup_route_def)

lemma register_fields [simp]:
  "direct_by_nid (register_actor a s) = direct_by_nid s" "lookup_direct n (register_actor a s) = lookup_direct n s"
  "actor_node (register_actor a s) = actor_node s" "actor_id_of (register_actor a s) b = actor_id_of s b" "ns_node (register_actor a s) = ns_node s"
  "user_types (register_actor a s) = user_types s" "wr_bufs (register_actor a s) = wr_bufs s" "sent (register_actor a s) = sent s"
proof -
  show "actor_id_of (register_actor a s) b = actor_id_of s b"
    by (simp add: register_actor_def actor_id_of_def)
qed (simp_all add: register_actor_def lookup_direct_def)

text \<open>The datagram an actor's message becomes.\<close>

lemma on_forward_sends:
  assumes codec: "travels (write_msg (codec_of B) msg) (read_msg (codec_of B)) msg" "types_inv (user_types s)"
    and src: "\<not> is_remote s (Some a)" and dst: "is_remote s (Some r)" "lookup_direct (actor_node s r) s = h" "h \<noteq> invalid_connection_handle"
    and wire: "wire_node (actor_node s a)" "wire_node (actor_node s r)"
  shows "\<exists>t p hdr. on_forward B (Some a) (Some r) i msg s = Inr t \<and> sent t h = sent s h @ wr_bufs s h @ datagram hdr p
    \<and> hdr = dispatch_header (Some a) r i p s \<and> p \<noteq> []
    \<and> (\<exists>ts. write_msg (codec_of B) msg (register_actor a s) = Inr (p, (register_actor a s)\<lparr>user_types := ts\<rparr>))
    \<and> (\<forall>d. types_inv (user_types d) \<longrightarrow> (\<exists>ts. read_msg (codec_of B) (Suc (length p)) p d = Inr (msg, [], d\<lparr>user_types := ts\<rparr>)))"
proof -
  let ?s1 = "register_actor a s"
  have u: "types_inv (user_types ?s1)" using codec(2) by simp
  obtain p ts where p: "write_msg (codec_of B) msg ?s1 = Inr (p, ?s1\<lparr>user_types := ts\<rparr>)"
    "\<And>q d f. types_inv (user_types d) \<Longrightarrow> length p < f \<Longrightarrow> \<exists>ts'. read_msg (codec_of B) f (p @ q) d = Inr (msg, q, d\<lparr>user_types := ts'\<rparr>) \<and> types_inv ts'"
    using travelsE [OF codec(1) u] by metis
  let ?hdr = "dispatch_header (Some a) r i p ?s1"
  have hdr: "?hdr = dispatch_header (Some a) r i p s" by (simp add: dispatch_header_def)
  have route: "lookup_route (actor_node ?s1 r) ?s1 = (Some (h, actor_node s r), ?s1)"
    using direct_route [of "actor_node s r" ?s1] dst(2,3) by simp
  have "wire_header ?hdr" using wire by (simp add: wire_header_def dispatch_header_def)
  then obtain t where t: "dispatch (broker_io B) (Some a) r i msg ?s1 = Inr (True, t)" "sent t h = sent s h @ wr_bufs s h @ datagram ?hdr p"
    using dispatch_sent [OF route, of "broker_io B" msg p "?s1\<lparr>user_types := ts\<rparr>" "Some a" i] p(1) by (auto simp: broker_io_def)
  have "on_forward B (Some a) (Some r) i msg s = Inr t" using src dst(1) t(1) by (simp add: on_forward_def)
  moreover have "\<exists>ts. read_msg (codec_of B) (Suc (length p)) p d = Inr (msg, [], d\<lparr>user_types := ts\<rparr>)" if "types_inv (user_types d)" for d
    using p(2) [OF that, of "Suc (length p)" "[]"] by auto
  ultimately show ?thesis using t(2) hdr p(1) write_msg_nonempty [OF p(1)] by metis
qed

section \<open>Receiving\<close>

text \<open>The broker reads a header, waits for the payload and handles both.\<close>

definition waiting :: "connection_handle \<Rightarrow> header \<Rightarrow> broker \<Rightarrow> broker \<Rightarrow> bool" where
  "waiting h hdr d e \<longleftrightarrow> (\<exists>c x y z w. bk_ctx e h = Some c \<and> cx_state c = await_payload \<and> cx_hdr c = hdr
     \<and> e = d\<lparr>wr_bufs := x, sent := y, rd_policy := z, bk_ctx := w, bk_this := h\<rparr>)"

lemma consume_header:
  assumes w: "wire_header hdr" and p: "payload_len hdr \<noteq> 0"
    and h: "h \<in> scribes d" "case bk_ctx d h of None \<Rightarrow> True | Some c \<Rightarrow> cx_state c = await_header"
  shows "\<exists>e. consume B h (write_hdr hdr) d = Inr e \<and> waiting h hdr d e"
proof -
  let ?d = "set_context h d"
  obtain c where c: "bk_ctx ?d h = Some c" "cx_state c = await_header" using h(2) by (auto simp: set_context_def split: option.splits)
  have r: "read_hdr (write_hdr hdr) = Inr (hdr, [])" using read_write_hdr [OF w, of "[]"] by simp
  have "payload_len hdr > 0" using p by (simp add: word_neq_0_conv)
  then have d: "handle_data (broker_io B) (broker_callee B) h (write_hdr hdr) (cx_hdr c) False ?d = Inr (await_payload, hdr, ?d)"
    using r by (simp add: handle_data_def)
  let ?e = "flush h (update_context (\<lambda>c. c\<lparr>cx_state := await_payload\<rparr>) ((update_context (\<lambda>c. c\<lparr>cx_hdr := hdr\<rparr>) ?d)
      \<lparr>rd_policy := (rd_policy d)(h \<mapsto> unat (payload_len hdr))\<rparr>))"
  have "consume B h (write_hdr hdr) d = Inr ?e"
    using h(1) c d by (simp add: consume_def on_new_data_def Let_def update_context_def set_context_def)
  moreover have "?e = d\<lparr>wr_bufs := wr_bufs ?e, sent := sent ?e, rd_policy := rd_policy ?e, bk_ctx := bk_ctx ?e, bk_this := h\<rparr>"
    by (rule broker.equality) (simp_all add: flush_def update_context_def set_context_def)
  moreover have "bk_ctx ?e h = Some (c\<lparr>cx_hdr := hdr, cx_state := await_payload\<rparr>)"
    using c(1) by (simp add: flush_def update_context_def set_context_def)
  moreover have "waiting h hdr d e" if "e = d\<lparr>wr_bufs := wr_bufs e, sent := sent e, rd_policy := rd_policy e, bk_ctx := bk_ctx e, bk_this := h\<rparr>"
      "bk_ctx e h = Some (c\<lparr>cx_hdr := hdr, cx_state := await_payload\<rparr>)" for e
    unfolding waiting_def using that by (intro exI conjI) (rule that(2), simp, simp)
  ultimately show ?thesis by blast
qed

lemma consume_payload:
  assumes e: "waiting h hdr d e" and h: "h \<in> scribes d" and l: "length p = unat (payload_len hdr)"
    and r: "\<And>e'. waiting h hdr d e' \<Longrightarrow> \<exists>t. handle_header (broker_io B) (broker_callee B) h hdr (Some p) e' = Inr (await_header, hdr, t) \<and> Q t"
    and Q: "\<And>f g k t. Q t \<Longrightarrow> Q (flush h (update_context f ((update_context g t)\<lparr>rd_policy := k\<rparr>)))"
  shows "\<exists>t. consume B h p e = Inr t \<and> Q t"
proof -
  obtain c x y z w where c: "bk_ctx e h = Some c" "cx_state c = await_payload" "cx_hdr c = hdr"
    and ee: "e = d\<lparr>wr_bufs := x, sent := y, rd_policy := z, bk_ctx := w, bk_this := h\<rparr>" using e by (auto simp: waiting_def)
  have s: "set_context h e = e" using c(1) ee by (auto simp: set_context_def fun_upd_idem)
  obtain t where t: "handle_header (broker_io B) (broker_callee B) h hdr (Some p) e = Inr (await_header, hdr, t)" "Q t" using r [OF e] by blast
  then have "handle_data (broker_io B) (broker_callee B) h p hdr True e = Inr (await_header, hdr, t)" using l by (simp add: handle_data_def)
  moreover have "h \<in> scribes e" using h ee by simp
  ultimately show ?thesis using s c Q [OF t(2)] by (auto simp: consume_def on_new_data_def Let_def)
qed

section \<open>Delivery\<close>

lemma kind_attach [simp]: "kind (actor_at (attach pa a x w) b) = kind (actor_at w b)"
proof -
  have "actor_at (actor_exited pa y a r w) = actor_at w" for y r by (cases y) simp_all
  then show ?thesis by (simp add: attach_def attach_impl_def set_actor_def split: option.splits)
qed

text \<open>A node that is connected gets a proxy, which changes neither the registry nor other actors.\<close>

lemma create_proxy_world:
  assumes "create_proxy n i h s = (p, t)"
  shows "entries (ns_reg t) = entries (ns_reg s) \<and> (\<forall>x < next_actor s. kind (actor_at (ns_wld t) x) = kind (actor_at (ns_wld s) x))"
proof -
  obtain q s1 where q: "new_remote n i s = (q, s1)" by force
  have 1: "entries (ns_reg s1) = entries (ns_reg s)" "x < next_actor s \<Longrightarrow> kind (actor_at (ns_wld s1) x) = kind (actor_at (ns_wld s) x)"
    "exit_rsn (actor_at (ns_wld s1) q) = not_exited" for x
    using q by (auto simp: new_remote_def Let_def new_proxy_def)
  let ?s2 = "attach_io (Erase_Proxy n q) q s1"
  have "entries (with_world (attach pa q (Some y)) g) = entries g" if "exit_rsn (actor_at (wld g) q) = not_exited" for pa y g
    using that with_world_log [of "attach pa q (Some y)" g "[]"] by (simp add: attach_def attach_impl_def set_actor_def)
  then have 2: "entries (ns_reg ?s2) = entries (ns_reg s1)" using 1(3) by (simp add: attach_io_def on_world_def Let_def)
  have k: "kind (actor_at (ns_wld ?s2) x) = kind (actor_at (ns_wld s1) x)" for x by (simp add: attach_io_def on_world_def Let_def)
  have r: "ns_reg (set_buf h' b u) = ns_reg u" "ns_reg (flush h' u) = ns_reg u" "ns_reg (notify_hook e u) = ns_reg u" for h' b e and u :: broker
    by (simp_all add: set_buf_def flush_def notify_hook_def)
  have "ns_reg (snd (create_proxy n i h s)) = ns_reg ?s2" by (simp add: create_proxy_def q Let_def r)
  then have "ns_reg t = ns_reg ?s2" using assms by simp
  then show ?thesis using 1(1,2) 2 k by simp
qed

lemma get_or_put_direct:
  assumes "lookup_direct n s \<noteq> invalid_connection_handle" "n \<noteq> None" "i \<noteq> 0"
  obtains p t where "get_or_put (make_proxy B) n i s = (Some p, t)" "entries (ns_reg t) = entries (ns_reg s)"
    "\<And>x. x < next_actor s \<Longrightarrow> kind (actor_at (ns_wld t) x) = kind (actor_at (ns_wld s) x)"
proof -
  let ?m = "if i \<in> fst ` set (submap n s) then submap n s else insert_key i None (submap n s)"
  let ?s1 = "set_submap n ?m s"
  have set: "ns_reg (set_submap k m u) = ns_reg u" "next_actor (set_submap k m u) = next_actor u"
    "lookup_direct n (set_submap k m u) = lookup_direct n u" for k m and u :: broker
    by (simp_all add: set_submap_def lookup_direct_def)
  have "\<exists>p t. make_proxy B n i u = (Some p, t) \<and> entries (ns_reg t) = entries (ns_reg u)
      \<and> (\<forall>x < next_actor u. kind (actor_at (ns_wld t) x) = kind (actor_at (ns_wld u) x))"
    if u: "lookup_direct n u \<noteq> invalid_connection_handle" for u
  proof -
    obtain p t where c: "create_proxy n i (lookup_direct n u) u = (p, t)" by force
    have "make_proxy B n i u = (Some p, t)" using assms(2,3) u c direct_route [OF u] by (simp add: make_proxy_def assume_route_def)
    then show ?thesis using create_proxy_world [OF c] by blast
  qed
  then obtain p t where m: "make_proxy B n i ?s1 = (Some p, t)" "entries (ns_reg t) = entries (ns_reg s)"
      "\<And>x. x < next_actor s \<Longrightarrow> kind (actor_at (ns_wld t) x) = kind (actor_at (ns_wld s) x)"
    using assms(1) set by metis
  show ?thesis
  proof (cases "Option.bind (Option.bind (map_of ?m i) id) (anchor_get ?s1)")
    case (Some q)
    then have "get_or_put (make_proxy B) n i s = (Some q, ?s1)" by (simp add: get_or_put_def Let_def)
    then show ?thesis by (rule that) (simp_all add: set)
  next
    case None
    then have "get_or_put (make_proxy B) n i s = (Some p, set_submap n (insert_key i (Some p) (submap n t)) t)"
      using m(1) by (simp add: get_or_put_def Let_def)
    then show ?thesis by (rule that) (simp_all add: set m)
  qed
qed

text \<open>What the receiver sees: the message, from a proxy of the actor that sent it.\<close>

definition delivered :: "node_id \<Rightarrow> u32 \<Rightarrow> nat \<Rightarrow> message_id \<Rightarrow> elem list \<Rightarrow> broker \<Rightarrow> bool" where
  "delivered n aid x i msg t \<longleftrightarrow> (\<exists>p w. log (ns_wld t) = w @ [Enqueue x (Some p) i msg] \<and> actor_node t p = n \<and> actor_id_of t p = aid
     \<and> anchor_of t n aid = Some (Some p) \<and> kind (actor_at (ns_wld t) x) = Local)"

lemma delivered_cong:
  assumes "ns_reg t = ns_reg u" "actor_node t = actor_node u" "proxies t = proxies u"
  shows "delivered n aid x i msg t = delivered n aid x i msg u"
  using assms anchor_of_cong [OF assms(3)] by (simp add: delivered_def actor_id_of_def)

lemma broker_deliver_delivered:
  assumes i: "ns_inv e" and src: "\<not> node_eq sn (ns_node e)" "lookup_direct sn e \<noteq> invalid_connection_handle" "sn \<noteq> None" "sa \<noteq> 0"
    and dst: "node_eq dn (ns_node e)" "da \<noteq> max_actor_id" "get_entry da (ns_reg e) = (Some x, rsn)" "x < next_actor e" "kind (actor_at (ns_wld e) x) = Local"
  shows "delivered sn sa x m msg (broker_deliver B sn sa dn da msg m e)"
proof -
  obtain p t where p: "get_or_put (make_proxy B) sn sa e = (Some p, t)" "entries (ns_reg t) = entries (ns_reg e)"
    "kind (actor_at (ns_wld t) x) = Local" using get_or_put_direct [OF src(2-4)] dst(4,5) by metis
  have c: "ns_inv t" "actor_node t p = sn" "actor_id_of t p = sa" "anchor_of t sn sa = Some (Some p)" "ns_node t = ns_node e"
    using bp.get_or_put_correct [OF i p(1)] by blast+
  have g: "get_entry da (ns_reg t) = (Some x, rsn)" using dst(3) p(2) by (simp add: get_entry_def)
  let ?u = "notify_hook (Message_Received sn (Some p) (Some x) m msg) t"
  have u: "ns_reg ?u = ns_reg t" "actor_node ?u = actor_node t" "proxies ?u = proxies t" by (simp_all add: notify_hook_def)
  have "broker_deliver B sn sa dn da msg m e = on_world (enqueue_to std_atoms x (Some p) m msg) ?u"
    using src(1) dst(1,2) p(1) g c(5) by (simp add: broker_deliver_def find_destination_def)
  also have "\<dots> = ?u\<lparr>ns_reg := with_world (emit (Enqueue x (Some p) m msg)) (ns_reg t)\<rparr>"
    using p(3) u(1) by (simp add: on_world_def enqueue_to_def with_world_def)
  finally have b: "broker_deliver B sn sa dn da msg m e = ?u\<lparr>ns_reg := with_world (emit (Enqueue x (Some p) m msg)) (ns_reg t)\<rparr>" .
  have "anchor_of (?u\<lparr>ns_reg := k\<rparr>) sn sa = anchor_of t sn sa" for k by (rule anchor_of_cong) (simp add: u)
  then show ?thesis unfolding b delivered_def using c(2-4) p(3) u(2)
    by (intro exI [of _ p]) (simp add: actor_id_of_def with_world_def emit_def run_event_def)
qed

lemma waiting_fields:
  assumes "waiting h hdr d e"
  shows "ns_reg e = ns_reg d" "ns_node e = ns_node d" "proxies e = proxies d" "gone e = gone d" "actor_node e = actor_node d" "next_actor e = next_actor d"
    "user_types e = user_types d" "direct_by_nid e = direct_by_nid d" "lookup_direct n e = lookup_direct n d" "actor_id_of e b = actor_id_of d b"
  using assms by (auto simp: waiting_def lookup_direct_def actor_id_of_def)

text \<open>
  C2: A message of plain values (integers, atoms, strings and their containers, node ids, nested messages and the like,
  but no floating point numbers, no non-null handles, channels or groups and no values of user-defined types; less than 2^32 bytes)
  from a local actor to an actor of a directly connected node arrives, if the maps of types of both nodes are
  intact, which only names with zero characters and announced names that start like a tuple's can change: the broker that gets it from the proxy writes it
  to the connection to the node of the receiver, and when the broker of that node has got these bytes
  from its scribe, first the header and then the payload, the same message with the same id is in the
  mailbox of the receiver, sent by a proxy that stands for the actor that sent it and under which the
  node will find it again. The receiver is a registered actor of its node, its broker is between two
  datagrams on the connection and has a connection to the node of the sender, and the two nodes have different ids.
\<close>

theorem remote_delivery:
  assumes codec: "good_env (codec_of B)" "list_all plain msg" "length (tuple_name (map (\<lambda>e. builtin_name (type_of e)) msg)) < 2 ^ 32"
      "types_inv (user_types s)" "types_inv (user_types d)"
      "\<And>b t. write_msg (codec_of B) msg (register_actor a s) = Inr (b, t) \<Longrightarrow> length b < 2 ^ 32"
    and src: "\<not> is_remote s (Some a)" "actor_node s a = ns_node s" "actor_id_of s a \<noteq> 0" "wire_node (ns_node s)" "ns_node s \<noteq> None"
    and dst: "is_remote s (Some r)" "lookup_direct (actor_node s r) s = h" "h \<noteq> invalid_connection_handle"
      "actor_id_of s r \<noteq> 0" "actor_id_of s r \<noteq> max_actor_id" "wire_node (actor_node s r)" "actor_node s r \<noteq> None"
    and node: "node_eq (actor_node s r) (ns_node d)" "\<not> node_eq (ns_node s) (ns_node d)" "lookup_direct (ns_node s) d \<noteq> invalid_connection_handle"
    and conn: "binv d" "k \<in> scribes d" "case bk_ctx d k of None \<Rightarrow> True | Some c \<Rightarrow> cx_state c = await_header"
    and rcv: "get_entry (actor_id_of s r) (ns_reg d) = (Some x, rsn)" "x < next_actor d" "kind (actor_at (ns_wld d) x) = Local"
  shows "\<exists>t hdr p e e'. on_forward B (Some a) (Some r) i msg s = Inr t \<and> sent t h = sent s h @ wr_bufs s h @ write_hdr hdr @ p
    \<and> consume B k (write_hdr hdr) d = Inr e \<and> consume B k p e = Inr e' \<and> delivered (ns_node s) (actor_id_of s a) x i msg e'"
proof -
  have wa: "wire_node (actor_node s a)" using src(2,4) by simp
  obtain t p hdr where t: "on_forward B (Some a) (Some r) i msg s = Inr t" "sent t h = sent s h @ wr_bufs s h @ datagram hdr p"
      "hdr = dispatch_header (Some a) r i p s" "p \<noteq> []" "length p < 2 ^ 32"
      "\<And>d. types_inv (user_types d) \<Longrightarrow> \<exists>ts. read_msg (codec_of B) (Suc (length p)) p d = Inr (msg, [], d\<lparr>user_types := ts\<rparr>)"
    using on_forward_sends [OF plain_travels [OF codec(1-3)] codec(4) src(1) dst(1-3) wa dst(6), of i] codec(6) by metis
  have l: "length p = unat (payload_len hdr)"
    using t(5) unat_of_nat_small [of "length p" 32, where 'w = 32] by (simp add: t(3) dispatch_header_def)
  have pl: "payload_len hdr \<noteq> 0" using l t(4) by auto
  have f: "operation hdr = dispatch_message" "operation_data hdr = integer_value i" "source_node hdr = ns_node s" "dest_node hdr = actor_node s r"
    "source_actor hdr = actor_id_of s a" "dest_actor hdr = actor_id_of s r" using src(2) by (simp_all add: t(3) dispatch_header_def)
  have w: "wire_header hdr" using src(4) dst(6) f by (simp add: wire_header_def)
  have v: "valid_header hdr" "\<not> is_handshake hdr"
    using f dst(4,7) pl by (simp_all add: valid_header_def dispatch_message_valid_def is_handshake_def message_type_defs)
  obtain e where e: "consume B k (write_hdr hdr) d = Inr e" "waiting k hdr d e" using consume_header [OF w pl conn(2,3)] by blast
  have q: "\<exists>t. handle_header (broker_io B) (broker_callee B) k hdr (Some p) e' = Inr (await_header, hdr, t)
      \<and> delivered (ns_node s) (actor_id_of s a) x i msg t" if e': "waiting k hdr d e'" for e'
  proof -
    note g = waiting_fields [OF e']
    obtain ts where rd: "read_msg (codec_of B) (Suc (length p)) p e' = Inr (msg, [], e'\<lparr>user_types := ts\<rparr>)" using t(6) g(7) codec(5) by metis
    let ?e = "e'\<lparr>user_types := ts\<rparr>"
    have "learn_route (broker_io B) (broker_callee B) k hdr e' = e'" using node(3) g(9) f(3) by (simp add: learn_route_def Let_def)
    moreover have "payload_valid hdr (Some p)" using l by (simp add: payload_valid_def)
    ultimately have "handle_header (broker_io B) (broker_callee B) k hdr (Some p) e' = Inr (await_header, hdr,
        broker_deliver B (ns_node s) (actor_id_of s a) (actor_node s r) (actor_id_of s r) msg i ?e)"
      using v f node(1) g(2) rd
      by (simp add: handle_header_def on_dispatch_message_def message_type_defs callee_fields broker_io_def from_integer_value_def)
    moreover have "ns_inv ?e = ns_inv d" by (rule ns_inv_eqI) (use g in \<open>simp_all add: actor_id_of_def\<close>)
    then have "delivered (ns_node s) (actor_id_of s a) x i msg (broker_deliver B (ns_node s) (actor_id_of s a) (actor_node s r) (actor_id_of s r) msg i ?e)"
      using binvD(3) [OF conn(1)] node src(3,5) dst(5) rcv g
      by (intro broker_deliver_delivered [where rsn = rsn]) (simp_all add: lookup_direct_def)
    ultimately show ?thesis by blast
  qed
  have "delivered n j y m ms (flush k (update_context fu ((update_context gu u)\<lparr>rd_policy := z\<rparr>))) = delivered n j y m ms u" for n j y m ms fu gu u z
    by (rule delivered_cong) (simp_all add: flush_def update_context_def)
  then obtain e' where e': "consume B k p e = Inr e'" "delivered (ns_node s) (actor_id_of s a) x i msg e'"
    using consume_payload [where Q = "delivered (ns_node s) (actor_id_of s a) x i msg", OF e(2) conn(2) l q] by blast
  then show ?thesis using t(1,2) e(1) unfolding datagram_def by (intro exI conjI)
qed

text \<open>A broker as its constructor leaves it, on a node whose actors and types are given.\<close>

definition new_broker :: "nspace \<Rightarrow> nat \<Rightarrow> u32 \<Rightarrow> broker" where
  "new_broker m self ids = \<lparr>direct_by_hdl = Map.empty, direct_by_nid = Map.empty, indirect = Map.empty, blacklisted = Map.empty,
     has_hook = has_hook m, hook_log = hook_log m, ns_reg = ns_reg m, ns_node = ns_node m, actor_node = actor_node m, proxies = [],
     gone = {}, next_actor = next_actor m, user_types = user_types m, wr_bufs = (\<lambda>h. []), sent = (\<lambda>h. []), published = [],
     bk_self = self, bk_ids = ids, bk_ctx = Map.empty, bk_this = invalid_connection_handle, known_remotes = Map.empty,
     spawn_servers = Map.empty, auto_connect = False, io_functors = Map.empty, io_seen = length (log (wld (ns_reg m))),
     rd_policy = Map.empty, scribes = {}, doormen = []\<rparr>"

lemma binv_new_broker: "binv (new_broker m self ids)"
  by (simp add: binv_def new_broker_def table_inv_def direct_only_def ns_inv_def submap_def anchor_of_def)

text \<open>
  A node with an actor 3 and proxies for the actors of another node, to which it is connected, and no
  types but the builtin ones.
\<close>

definition sample_broker_env :: broker_env where
  "sample_broker_env = \<lparr>be_order = id, be_codec = \<lparr>x_write = (\<lambda>t k s. Inl (Runtime_Error [])), x_read = (\<lambda>t bs s. Inl (Runtime_Error [])),
     group_module = (\<lambda>g. []), group_write = (\<lambda>g s. Inl (Runtime_Error [])), group_read = (\<lambda>m bs s. Inl (Runtime_Error [])),
     backend = (\<lambda>n i s. (None, s)), name_split = split_plus\<rparr>\<rparr>"

definition sample_registry :: "u32 \<Rightarrow> u32 \<Rightarrow> registry" where
  "sample_registry i j = (new_registry \<lparr>actor_at = (\<lambda>a. if a = 3 then new_actor (i - 1) else new_proxy j 0), log = [], running = 0\<rparr>)
     \<lparr>entries := [i \<mapsto> (Some 3, not_exited)]\<rparr>"

definition sample_broker :: "u32 \<Rightarrow> u32 \<Rightarrow> u32 \<Rightarrow> u32 \<Rightarrow> broker" where
  "sample_broker p q i j = (new_broker sample_nspace 0 100)\<lparr>ns_node := sample_node p, direct_by_hdl := [5 \<mapsto> sample_node q],
     direct_by_nid := [sample_node q \<mapsto> 5], scribes := {5}, next_actor := 10, ns_reg := sample_registry i j,
     actor_node := (\<lambda>a. if a = 3 then sample_node p else sample_node q),
     bk_ctx := [5 \<mapsto> \<lparr>cx_state = await_header, cx_hdr = blank_header, cx_hdl = 5, cx_id = sample_node q, cx_port = 0, cx_callback = None\<rparr>]\<rparr>"

lemma sample_node_facts:
  "sample_node p = sample_node q \<longleftrightarrow> p = q" "sample_node p \<noteq> None" "node_eq (sample_node p) (sample_node q) \<longleftrightarrow> p = q"
  "wire_node (sample_node p)"
  using strncmp_zero_iff [of "replicate 20 1" host_id_size "replicate 20 1"]
  by (auto simp: node_eq_def compare_node_def sample_node_def host_id_def process_id_def Let_def host_id_size_def
      wire_node_def wf_node_def invalid_host_id_def split: if_splits)

lemma sample_broker_fields:
  "user_types (sample_broker p q i j) = []" "ns_node (sample_broker p q i j) = sample_node p"
  "actor_node (sample_broker p q i j) = (\<lambda>a. if a = 3 then sample_node p else sample_node q)"
  "actor_id_of (sample_broker p q i j) a = (if a = 3 then i else j)" "lookup_direct (sample_node q) (sample_broker p q i j) = 5"
  "is_remote (sample_broker p q i j) (Some 3) = False" "p \<noteq> q \<Longrightarrow> is_remote (sample_broker p q i j) (Some 7)"
  "scribes (sample_broker p q i j) = {5}" "get_entry i (ns_reg (sample_broker p q i j)) = (Some 3, not_exited)"
  "next_actor (sample_broker p q i j) = 10" "kind (actor_at (ns_wld (sample_broker p q i j)) 3) = Local"
  "wr_bufs (sample_broker p q i j) h = []" "sent (sample_broker p q i j) h = []" "direct_by_hdl (sample_broker p q i j) 5 = Some (sample_node q)"
  by (simp_all add: sample_broker_def new_broker_def sample_nspace_def actor_id_of_def sample_registry_def new_registry_def new_actor_def
      new_proxy_def lookup_direct_def is_remote_def get_entry_def sample_node_facts)

lemma binv_sample_broker: "binv (sample_broker p q i j)"
  by (auto simp: binv_def sample_broker_def new_broker_def table_inv_def direct_only_def ns_inv_def submap_def anchor_of_def
      sample_node_facts sample_node_def invalid_connection_handle_def split: if_splits)

lemma sample_broker_env_good: "good_env (codec_of sample_broker_env)" "safe_codecs sample_broker_env"
  by (simp_all add: good_env_def sample_broker_env_def shrinks_def split_plus_splits safe_codecs_def reads_safely_def writes_safely_def)

theorem remote_delivery_witness:
  "\<exists>t hdr p e e'. on_forward sample_broker_env (Some 3) (Some 7) (Message_Id 1) [Str ''hi'', U16 7] (sample_broker 1 2 42 9) = Inr t
    \<and> sent t 5 = write_hdr hdr @ p \<and> consume sample_broker_env 5 (write_hdr hdr) (sample_broker 2 1 9 42) = Inr e
    \<and> consume sample_broker_env 5 p e = Inr e' \<and> delivered (sample_node 1) 42 3 (Message_Id 1) [Str ''hi'', U16 7] e'"
proof -
  let ?s = "sample_broker 1 2 42 9" and ?d = "sample_broker 2 1 9 42" and ?m = "[Str ''hi'', U16 7]"
  have n: "length (tuple_name (map (\<lambda>e. builtin_name (type_of e)) ?m)) = 13" by code_simp
  have l: "length (tuple_name (map (\<lambda>e. builtin_name (type_of e)) ?m)) < 2 ^ 32" unfolding n by simp
  have w: "map_sum id (\<lambda>(b, t). length b) (write_msg (codec_of sample_broker_env) ?m (register_actor 3 ?s)) = Inr 27" by code_simp
  have b: "length b < 2 ^ 32" if "write_msg (codec_of sample_broker_env) ?m (register_actor 3 ?s) = Inr (b, t)" for b t
    using w that by simp
  have c: "case bk_ctx ?d 5 of None \<Rightarrow> True | Some c \<Rightarrow> cx_state c = await_header" by (simp add: sample_broker_def)
  have v: "(5 :: connection_handle) \<noteq> invalid_connection_handle" "(9 :: u32) \<noteq> max_actor_id"
    by (simp_all add: invalid_connection_handle_def max_actor_id_def)
  show ?thesis
    using remote_delivery [where B = sample_broker_env and msg = ?m and s = ?s and d = ?d and a = 3 and r = 7 and h = 5 and k = 5
        and x = 3 and rsn = not_exited and i = "Message_Id 1"] sample_broker_env_good(1) l b c v binv_sample_broker
    by (simp add: sample_broker_fields sample_node_facts types_inv_Nil)
qed

section \<open>Handshakes\<close>

definition client_hello :: "node_id \<Rightarrow> node_id \<Rightarrow> header" where
  "client_hello m x = \<lparr>operation = client_handshake, payload_len = 0, operation_data = 0, source_node = m, dest_node = x,
     source_actor = 0, dest_actor = 0\<rparr>"

lemma consume_client_handshake:
  assumes hello: "wire_header (client_hello m x)" "valid_header (client_hello m x)"
    and h: "h \<in> scribes s" "case bk_ctx s h of None \<Rightarrow> True | Some c \<Rightarrow> cx_state c = await_header"
    and m: "lookup_direct m s = invalid_connection_handle"
  shows "\<exists>t. consume B h (write_hdr (client_hello m x)) s = Inr t \<and> scribes t = scribes s \<and> h \<in> dom (bk_ctx t)
    \<and> direct_by_hdl t = (if direct_by_hdl s h = None then (direct_by_hdl s)(h \<mapsto> m) else direct_by_hdl s)
    \<and> direct_by_nid t = (if direct_by_nid s m = None then (direct_by_nid s)(m \<mapsto> h) else direct_by_nid s)"
proof -
  let ?hdr = "client_hello m x" and ?s = "set_context h s"
  obtain c where c: "bk_ctx ?s h = Some c" "cx_state c = await_header" using h(2) by (auto simp: set_context_def split: option.splits)
  have r: "read_hdr (write_hdr ?hdr) = Inr (?hdr, [])" using read_write_hdr [OF hello(1), of "[]"] by simp
  have f: "lookup_direct m ?s = invalid_connection_handle" "scribes ?s = scribes s" "direct_by_nid ?s = direct_by_nid s" "direct_by_hdl ?s = direct_by_hdl s"
    using m by (simp_all add: set_context_def lookup_direct_def)
  obtain w where w: "erase_indirect m (add_direct h m ?s) = (w, met_node h m ?s)" by (metis met_node_def prod.collapse)
  let ?u = "learned_new_node_directly B m w (met_node h m ?s)"
  have "handle_header (broker_io B) (broker_callee B) h ?hdr None ?s = Inr (await_header, ?hdr, ?u)"
    using hello(2) f(1) w
    by (simp add: handle_header_def on_client_handshake_def is_handshake_def client_hello_def message_type_defs broker_callee_def Let_def)
  then have "handle_data (broker_io B) (broker_callee B) h (write_hdr ?hdr) (cx_hdr c) False ?s = Inr (await_header, ?hdr, ?u)"
    using r by (simp add: handle_data_def client_hello_def)
  then have "consume B h (write_hdr ?hdr) s = Inr (flush h (update_context (\<lambda>c. c\<lparr>cx_hdr := ?hdr\<rparr>) ?u))"
    using h(1) c by (simp add: consume_def on_new_data_def Let_def)
  moreover have "grows (met_node h m ?s) (flush h (update_context (\<lambda>c. c\<lparr>cx_hdr := ?hdr\<rparr>) ?u))"
    by (rule grows_trans [OF grows_directly grows_trans [OF grows_context(1) grows_flush]])
  moreover have "direct_by_hdl (met_node h m ?s) = (if direct_by_hdl s h = None then (direct_by_hdl s)(h \<mapsto> m) else direct_by_hdl s)"
    "direct_by_nid (met_node h m ?s) = (if direct_by_nid s m = None then (direct_by_nid s)(m \<mapsto> h) else direct_by_nid s)"
    by (simp_all add: met_node_def erase_indirect_result add_direct_def f)
  ultimately show ?thesis using growsD(4-6,13) [of "met_node h m ?s"] met_node_fields(2,3) [of h m ?s] f(2) c(1) by (metis domI)
qed

section \<open>Reachable states\<close>

text \<open>
  C5: In every state a broker can reach, whatever its peers send, the proxy stored for an actor stands
  for that actor. In every state it can reach while no peer repeats its handshake on a connection, the
  two maps of connections agree, a node with a connection has no other route, and a route leads through an
  open connection to the node it names, so that writing to it does not fail. The codecs of user-defined types
  and groups are parameters that may create proxies but leave connections alone and keep routes and namespace well formed.
\<close>

theorem broker_invariant:
  assumes "(broker_step B)\<^sup>*\<^sup>* (new_broker m self ids) t" and "safe_codecs B"
  shows "(anchor_of t n i = Some (Some p) \<longrightarrow> actor_node t p = n \<and> actor_id_of t p = i)
    \<and> ((orderly_step B)\<^sup>*\<^sup>* (new_broker m self ids) t \<longrightarrow>
        (direct_by_hdl t h = Some n \<longleftrightarrow> direct_by_nid t n = Some h) \<and> (direct_by_nid t n \<noteq> None \<longrightarrow> indirect t n = None)
        \<and> (fst (lookup_route n t) = Some (h, hop) \<longrightarrow> h \<in> scribes t \<and> h \<in> dom (bk_ctx t) \<and> direct_by_hdl t h = Some hop))"
proof (intro conjI impI)
  have "ns_inv t" by (rule ns_inv_steps [OF assms]) (rule binvD(3) [OF binv_new_broker])
  then show "actor_node t p = n" "actor_id_of t p = i" if "anchor_of t n i = Some (Some p)"
    using ns_invD(3) that by blast+
  assume run: "(orderly_step B)\<^sup>*\<^sup>* (new_broker m self ids) t"
  have b: "binv t" using binv_orderly_steps [OF run assms(2)] binv_new_broker by blast
  note T = binvD(1) [OF b]
  show "direct_by_hdl t h = Some n \<longleftrightarrow> direct_by_nid t n = Some h" using table_invD(1) [OF T] .
  have r: "direct_by_hdl t h = Some hop" if "fst (lookup_route n t) = Some (h, hop)"
    using lookup_route_some [OF T, of n h hop] that table_invD(1) [OF T] by (metis prod.collapse)
  show "indirect t n = None" if "direct_by_nid t n \<noteq> None"
    using binvD(2) [OF b] that lookup_direct_invalid [OF T] by (simp add: direct_only_def)
  show "h \<in> scribes t" "h \<in> dom (bk_ctx t)" "direct_by_hdl t h = Some hop" if "fst (lookup_route n t) = Some (h, hop)"
    using r [OF that] binvD(4,5) [OF b] by blast+
qed

theorem broker_invariant_witness:
  "\<exists>t. (broker_step sample_broker_env)\<^sup>*\<^sup>* (new_broker sample_nspace 0 100) t \<and> fst (lookup_route (sample_node 2) t) = Some (5, sample_node 2)
    \<and> 5 \<in> scribes t \<and> indirect t (sample_node 2) = None"
proof -
  let ?B = sample_broker_env and ?s0 = "new_broker sample_nspace 0 100"
  let ?s1 = "accept_connection 5 0 ?s0" and ?hello = "client_hello (sample_node 2) (sample_node 1)"
  have v: "(5 :: connection_handle) \<noteq> invalid_connection_handle" by (simp add: invalid_connection_handle_def)
  have f: "scribes ?s1 = {5}" "bk_ctx ?s1 = Map.empty" "direct_by_nid ?s1 = Map.empty" "direct_by_hdl ?s1 = Map.empty"
    by (simp_all add: accept_connection_def on_new_connection_def Let_def flush_def server_handshake_for_def set_buf_def new_broker_def)
  have w: "wire_header ?hello" by (simp add: wire_header_def client_hello_def sample_node_facts)
  have vh: "valid_header ?hello" by code_simp
  obtain t where t: "consume ?B 5 (write_hdr ?hello) ?s1 = Inr t" "direct_by_nid t = [sample_node 2 \<mapsto> 5]"
    using consume_client_handshake [OF w vh, of 5 ?s1 ?B] f by (auto simp: lookup_direct_def)
  have one: "no_second_handshake 5 (write_hdr ?hello) ?s1" using f(4) by (simp add: no_second_handshake_def split: option.splits)
  have o: "(orderly_step ?B)\<^sup>*\<^sup>* ?s0 t"
    using os_local [OF bs_accept [of ?B ?s0 5 0]] os_data [OF v one t(1)]
    by (meson converse_rtranclp_into_rtranclp rtranclp.rtrancl_refl)
  have r: "(broker_step ?B)\<^sup>*\<^sup>* ?s0 t"
    using bs_local [OF bs_accept [of ?B ?s0 5 0]] bs_data [OF v t(1)]
    by (meson converse_rtranclp_into_rtranclp rtranclp.rtrancl_refl)
  have l: "fst (lookup_route (sample_node 2) t) = Some (5, sample_node 2)" using t(2) v by (simp add: lookup_route_def lookup_direct_def)
  show ?thesis
    using broker_invariant [OF r sample_broker_env_good(2), of "sample_node 2" 0 0 5 "sample_node 2"] l t(2) r o by auto
qed

section \<open>Lost connections\<close>

text \<open>
  C7: When the connection to a node is lost, the node is not reachable any more, which the broker
  asserts, its context and its proxies are gone, all proxies of its actors that are alive have exited
  and no other actor has, and the routes to other nodes are as before.
\<close>

theorem connection_lost:
  assumes "binv s" and "h \<in> scribes s" and "direct_by_hdl s h = Some n"
  shows "let t = scribe_failure B h s in \<not> reachable n t \<and> h \<notin> scribes t \<and> bk_ctx t h = None \<and> count_proxies n t = 0
    \<and> (anchor_of s n i = Some (Some p) \<and> \<not> expired s p \<longrightarrow> exited (ns_wld t) p)
    \<and> (exited (ns_wld t) a \<longrightarrow> exited (ns_wld s) a \<or> actor_node s a = n)
    \<and> (m \<noteq> n \<longrightarrow> direct_by_nid t m = direct_by_nid s m \<and> indirect t m = indirect s m)"
proof -
  let ?t = "scribe_failure B h s"
  note f = connection_loss_fields [OF assms refl, of B]
  note T = binvD(1) [OF assms(1)]
  have d: "direct_by_nid s n = Some h" using table_invD(1) [OF T] assms(3) by blast
  then have "indirect s n = None" using binvD(2) [OF assms(1)] lookup_direct_invalid [OF T, of n] by (simp add: direct_only_def)
  then have "\<not> reachable n ?t" using f(2,3) by (simp add: reachable_def)
  moreover have "exited (ns_wld ?t) p" if "anchor_of s n i = Some (Some p)" "\<not> expired s p"
  proof -
    have "(i, Some p) \<in> set (submap n s)" using that(1) by (simp add: anchor_of_submap map_of_SomeD)
    then show ?thesis using f(9) [of p] that(2) by force
  qed
  moreover have "exited (ns_wld s) a \<or> actor_node s a = n" if x: "exited (ns_wld ?t) a"
  proof (cases "exited (ns_wld s) a")
    case False
    then obtain j where "(j, Some a) \<in> set (submap n s)" using x f(9) [of a] by auto
    moreover have "distinct (map fst (submap n s))" using ns_invD(2) [OF binvD(3) [OF assms(1)], of n] by (simp add: strict_sorted_iff)
    ultimately have "anchor_of s n j = Some (Some a)" by (simp add: anchor_of_submap)
    then show ?thesis using ns_invD(3) [OF binvD(3) [OF assms(1)]] by blast
  qed simp
  ultimately show ?thesis using f(2-6) by (simp add: Let_def count_proxies_def)
qed

theorem connection_lost_witness:
  "let s = (sample_broker 1 2 42 9)\<lparr>proxies := [(sample_node 2, [(9, Some 7)])]\<rparr>; t = scribe_failure sample_broker_env 5 s in
   \<not> reachable (sample_node 2) t \<and> exited (ns_wld t) 7 \<and> \<not> exited (ns_wld t) 3 \<and> 5 \<notin> scribes t"
proof -
  let ?s = "(sample_broker 1 2 42 9)\<lparr>proxies := [(sample_node 2, [(9, Some 7)])]\<rparr>"
  have b: "binv ?s"
    by (auto simp: binv_def sample_broker_def new_broker_def table_inv_def direct_only_def ns_inv_def submap_def anchor_of_def actor_id_of_def
        sample_node_facts sample_node_def invalid_connection_handle_def sample_registry_def new_registry_def new_proxy_def lookup_direct_def
        split: if_splits)
  have h: "5 \<in> scribes ?s" "direct_by_hdl ?s 5 = Some (sample_node 2)" by (simp_all add: sample_broker_fields)
  have a: "anchor_of ?s (sample_node 2) 9 = Some (Some 7)" "\<not> expired ?s 7" "\<not> exited (ns_wld ?s) 3" "actor_node ?s 3 = sample_node 1"
    by (simp_all add: anchor_of_def expired_def sample_broker_def new_broker_def sample_registry_def new_registry_def new_actor_def exited_def)
  show ?thesis using connection_lost [OF b h, of sample_broker_env 9 7 3 "sample_node 1", unfolded Let_def] a sample_node_facts(1) [of 1 2]
    unfolding Let_def by simp
qed

section \<open>Defects\<close>

lemma erase_node_other:
  assumes "m \<noteq> n"
  shows "direct_by_nid (snd (erase_node purge_state n s)) m = direct_by_nid s m" "scribes (snd (erase_node purge_state n s)) = scribes s"
proof -
  have s: "scribes (notify_hook e u) = scribes u" for e and u :: broker by (simp add: notify_hook_def)
  have c: "direct_by_nid (fold (\<lambda>k t. notify_hook (e k) (purge_state k t)) ks u) = direct_by_nid u"
    "scribes (fold (\<lambda>k t. notify_hook (e k) (purge_state k t)) ks u) = scribes u" for e ks and u :: broker
    by (induction ks arbitrary: u) (simp_all add: purge_fields s)
  show "direct_by_nid (snd (erase_node purge_state n s)) m = direct_by_nid s m" "scribes (snd (erase_node purge_state n s)) = scribes s"
    using assms by (simp_all add: erase_node_def Let_def c purge_fields s split: option.splits)
qed

lemma stale_route:
  fixes t :: broker
  assumes "h \<in> scribes t" "h \<in> dom (bk_ctx t)" "direct_by_hdl t h = Some n" "direct_by_nid t m = Some h" "m \<noteq> n"
  shows "direct_by_nid (scribe_failure B h t) m = Some h \<and> h \<notin> scribes (scribe_failure B h t)"
proof -
  obtain c where c: "bk_ctx t h = Some c" using assms(2) by blast
  obtain s1 where s1: "erase_context h (close_connection_of h t) = (True, s1\<lparr>bk_ctx := (bk_ctx t)(h := None)\<rparr>)" "grows (close_connection_of h t) s1"
    using closed_context [where s = t, OF c] by blast
  let ?u = "s1\<lparr>bk_ctx := (bk_ctx t)(h := None)\<rparr>"
  have u: "direct_by_nid ?u m = Some h" "scribes ?u = scribes t - {h}"
    using growsD(4,6) [OF s1(2)] assms(4) by (simp_all add: close_connection_of_def)
  have "scribe_failure B h t = ?u \<or> scribe_failure B h t = erase_proxies (lookup_node h ?u) (snd (erase_node purge_state (lookup_node h ?u) ?u))"
    by (auto simp: scribe_failure_def assms(1) on_connection_closed_def s1(1) handle_node_shutdown_def callee_fields Let_def)
  moreover have "lookup_node h ?u = n" using growsD(5) [OF s1(2)] assms(3) by (simp add: lookup_node_def close_connection_of_def)
  ultimately consider "scribe_failure B h t = ?u" | "scribe_failure B h t = erase_proxies n (snd (erase_node purge_state n ?u))" by metis
  then show ?thesis using u erase_node_other [OF assms(5), of ?u] by cases (simp_all add: erase_fields)
qed

text \<open>
  C39: A doorman that fails is removed before the broker is told and looks up its port, so what was
  published there stays published although nobody listens. A second client handshake on a connection
  stores a route to another node in one of the two maps only; it survives the loss of the connection,
  and the route then leads through a connection that does not exist.
\<close>

theorem broker_defects:
  "(a \<in> fst ` set (doormen s) \<and> map_of (published s) 0 = None \<longrightarrow>
      published (doorman_failure a s) = published s \<and> a \<notin> fst ` set (doormen (doorman_failure a s)))
   \<and> (wire_header (client_hello m x) \<and> valid_header (client_hello m x) \<and> h \<in> scribes s \<and> h \<noteq> invalid_connection_handle
       \<and> (case bk_ctx s h of None \<Rightarrow> True | Some c \<Rightarrow> cx_state c = await_header)
       \<and> direct_by_hdl s h = Some n \<and> direct_by_nid s n = Some h \<and> n \<noteq> None \<and> direct_by_nid s m = None \<longrightarrow>
      (\<exists>t. consume B h (write_hdr (client_hello m x)) s = Inr t
        \<and> fst (lookup_route m (scribe_failure B h t)) = Some (h, m) \<and> h \<notin> scribes (scribe_failure B h t)))"
proof (rule conjI; rule impI)
  assume a: "a \<in> fst ` set (doormen s) \<and> map_of (published s) 0 = None"
  have "a \<notin> fst ` set (delete_key a (doormen s))" "map_of (delete_key a (doormen s)) a = None" by (auto simp: map_of_delete_key)
     (metis map_of_delete_key map_of_eq_None_iff image_eqI fst_conv)
  then show "published (doorman_failure a s) = published s \<and> a \<notin> fst ` set (doormen (doorman_failure a s))"
    using a by (simp add: doorman_failure_def on_acceptor_closed_def local_port_def remove_published_port_def)
next
  assume a: "wire_header (client_hello m x) \<and> valid_header (client_hello m x) \<and> h \<in> scribes s \<and> h \<noteq> invalid_connection_handle
       \<and> (case bk_ctx s h of None \<Rightarrow> True | Some c \<Rightarrow> cx_state c = await_header)
       \<and> direct_by_hdl s h = Some n \<and> direct_by_nid s n = Some h \<and> n \<noteq> None \<and> direct_by_nid s m = None"
  then have m: "lookup_direct m s = invalid_connection_handle" "m \<noteq> n" by (auto simp: lookup_direct_def)
  obtain t where c: "consume B h (write_hdr (client_hello m x)) s = Inr t" "scribes t = scribes s" "h \<in> dom (bk_ctx t)"
      "direct_by_hdl t = (if direct_by_hdl s h = None then (direct_by_hdl s)(h \<mapsto> m) else direct_by_hdl s)"
      "direct_by_nid t = (if direct_by_nid s m = None then (direct_by_nid s)(m \<mapsto> h) else direct_by_nid s)"
    using consume_client_handshake [of m x h s B] a m(1) by blast
  then have t: "h \<in> scribes t" "h \<in> dom (bk_ctx t)" "direct_by_hdl t h = Some n" "direct_by_nid t m = Some h" using a by simp_all
  note l = stale_route [OF t m(2), of B]
  show "\<exists>t. consume B h (write_hdr (client_hello m x)) s = Inr t
        \<and> fst (lookup_route m (scribe_failure B h t)) = Some (h, m) \<and> h \<notin> scribes (scribe_failure B h t)"
    using c(1) l a by (auto simp: lookup_route_def lookup_direct_def)
qed

theorem broker_defects_witness:
  "(let s = (sample_broker 1 2 42 9)\<lparr>doormen := [(8, 4242)], published := [(4242, Some 3, [])]\<rparr> in
      map_of (published (doorman_failure 8 s)) 4242 = Some (Some 3, []) \<and> 8 \<notin> fst ` set (doormen (doorman_failure 8 s)))
   \<and> (\<exists>t. consume sample_broker_env 5 (write_hdr (client_hello (sample_node 3) (sample_node 1))) (sample_broker 1 2 42 9) = Inr t
      \<and> fst (lookup_route (sample_node 3) (scribe_failure sample_broker_env 5 t)) = Some (5, sample_node 3)
      \<and> 5 \<notin> scribes (scribe_failure sample_broker_env 5 t))"
proof
  let ?s = "(sample_broker 1 2 42 9)\<lparr>doormen := [(8, 4242)], published := [(4242, Some 3, [])]\<rparr>"
  show "let s = ?s in map_of (published (doorman_failure 8 s)) 4242 = Some (Some 3, []) \<and> 8 \<notin> fst ` set (doormen (doorman_failure 8 s))"
    using conjunct1 [OF broker_defects [of 8 ?s]] unfolding Let_def by simp
next
  let ?s = "sample_broker 1 2 42 9" and ?hello = "client_hello (sample_node 3) (sample_node 1)"
  have w: "wire_header ?hello" by (simp add: wire_header_def client_hello_def sample_node_facts)
  have v: "valid_header ?hello" by code_simp
  have c: "case bk_ctx ?s 5 of None \<Rightarrow> True | Some c \<Rightarrow> cx_state c = await_header" by (simp add: sample_broker_def)
  have d: "direct_by_nid ?s = [sample_node 2 \<mapsto> 5]" "(5 :: connection_handle) \<noteq> invalid_connection_handle" "sample_node 2 \<noteq> None"
    by (simp_all add: sample_broker_def invalid_connection_handle_def sample_node_facts)
  show "\<exists>t. consume sample_broker_env 5 (write_hdr ?hello) ?s = Inr t
      \<and> fst (lookup_route (sample_node 3) (scribe_failure sample_broker_env 5 t)) = Some (5, sample_node 3)
      \<and> 5 \<notin> scribes (scribe_failure sample_broker_env 5 t)"
    using conjunct2 [OF broker_defects [of 0 ?s "sample_node 3" "sample_node 1" 5 "sample_node 2" sample_broker_env]] w v c d
    by (simp add: sample_broker_fields sample_node_facts(1))
qed

end
