(* ===== verification/Spec2Isabelle.thy ===== *)
theory Spec2Isabelle
  imports Queue_Concurrency Shared_Spinlock Try_Match Link_Locking Local_Actor_Progress Config_Server Broker_Properties
begin

text \<open>
  Boost.Actor is a C++ library for actor programming. Its core (src/libboost\_actor\_core) gives
  every actor a mailbox that any thread may write and one thread reads, a stack of behaviors, links
  and monitors to other actors, and synchronous requests; its I/O part (src/libboost\_actor\_io)
  connects nodes by the Binary Actor System Protocol, so that messages to proxies reach actors on
  other nodes. This development models the code as functions and step relations over explicit states
  and proves what makes each part correct. Names follow the source; every theory opens with the files
  it models. The manifest lists the exact lines.

  \<^bold>\<open>Parts and theories\<close>

  \<^item> Values. Actor\_Prelude holds the machine types and the facts on words the others share. Atom\_Val
    and Atoms: the 64-bit encoding of short strings (atom.hpp, detail/atom\_val.hpp). Message\_Id:
    request, response and priority bits of message ids (message\_id.hpp). Node\_Id: node ids,
    comparison and wire form, durations (node\_id.cpp, duration.hpp). Message: tuples, decorated and
    concatenated views, type tokens, extraction (message.cpp, message\_data.cpp, decorated\_tuple.cpp,
    concatenated\_tuple.cpp).
  \<^item> Pattern matching. Try\_Match: the matcher with wildcards, match cases and their dispatch
    (try\_match.cpp, match\_case.hpp, behavior\_impl.cpp).
  \<^item> Mailboxes. Single\_Reader\_Queue models the lock-free mailbox by lists and runs any sequence of
    enqueues, pops and blocks against an abstract queue, Queue\_Concurrency by a
    step relation on a heap with one step per atomic operation (detail/single\_reader\_queue.hpp),
    where a ghost field records whether count() fetched newer elements in front of older ones;
    Partitioned\_List models the cache of skipped messages on a heap of linked nodes that the callback
    of invoke may change (detail/intrusive\_partitioned\_list.hpp).
  \<^item> Locks. Shared\_Spinlock: the reader-writer spinlock of groups and pools as steps of threads, one
    per atomic operation, with the wrap-around of its flag written out (shared\_spinlock.cpp).
  \<^item> Actors. Abstract\_Actor: identity, flags, attachables, links, exit, proxies (abstract\_actor.cpp,
    forwarding\_actor\_proxy.cpp) over a world of actors; Link\_Locking: the mutexes of two linking
    actors. Local\_Actor, Local\_Actor\_Mailbox, Local\_Actor\_Requests, Local\_Actor\_Progress: the
    message loop, filtering of system messages, requests and timeouts, termination
    (local\_actor.cpp, mailbox\_element.hpp, response\_promise.cpp, behavior\_stack.cpp,
    blocking\_actor.cpp). resume covers blocking and scheduled actors (resume\_blocking,
    resume\_scheduled). User code is a record of state transformers.
  \<^item> Registry. Actor\_Registry: actors by id and name (actor\_registry.cpp); Config\_Server: the
    key-value store that runs beside it.
  \<^item> Serialization. Ieee\_754: conversion of floating point numbers (detail/ieee\_754.hpp);
    Binary\_Serialization: the binary format (binary\_serializer.cpp, binary\_deserializer.cpp);
    Type\_Map: names and numbers of types, announced types and tuple types, stored under their C names
    (uniform\_type\_info\_map.cpp); Message\_Wire: messages and their values on the wire
    (message.cpp, detail/default\_uniform\_type\_info.hpp).
  \<^item> Network. Basp\_Header: datagrams (io/basp.cpp); Basp\_Routing: the routing table;
    Actor\_Namespace: proxies and addresses on the wire (actor\_namespace.cpp); Basp\_Instance: handling
    of received data, forwarding and dispatching; Basp\_Broker: the broker of a node (basp\_broker.cpp,
    scribe.cpp, doorman.cpp), which puts table, namespace, instance, registry and wire format together
    on one state and provides the callbacks of the instance and the proxies of the namespace;
    Broker\_Steps: its handlers as a step relation, with and without repeated handshakes of a peer, and
    what they keep; Broker\_Properties: two brokers
    at the ends of a connection, lost connections and defects.

  \<^bold>\<open>Interfaces\<close>

  A locale states what a component relies on, and it is interpreted on the model of the component
  that provides it: codec (a binary format, interpreted for primitive values), erase\_callback (what a
  routing table expects of the callback of its erase operations), proxy\_backend (what a namespace
  expects of the creator of proxies), basp\_callee (what the protocol instance expects of its
  callbacks, which gives an erase\_callback), and the locales of the heap structures. The broker
  interprets proxy\_backend with its make\_proxy, basp\_callee with its callbacks and erase\_callback
  with its purge\_state.

  \<^bold>\<open>What is shown\<close>

  Messages are neither lost nor repeated between concurrent senders and the reader, and not reordered
  unless count() is called with elements waiting; the cache keeps their order; the spinlock excludes
  writers and readers; a resumed actor returns and its result describes its
  mailbox; a response is given to its handler exactly once and terminated actors answer requests; observers are informed
  exactly once; matching, extraction and views agree with their definitions on lists; plain values that are
  serialized are read back; a message of plain values for a remote actor travels unchanged over other nodes, and the
  broker of its node puts it into its mailbox with a proxy of the sender; the routing table, the
  broker, the registry and the key-value store keep their invariants (the broker's connection maps while
  peers do not repeat handshakes), and a lost connection takes exactly its node and proxies with it.
  Where the code does not do what it documents, a theorem states what it does instead; the findings
  of the manifest point to them.

  \<^bold>\<open>Bounds and fuel\<close>

  Loops over data are structural recursions. Loops that may not end are partial functions into
  options (the invocation loop of the cache, detaching) and the theorems show that they return. Fuel
  is used where a loop is bounded by the data it consumes: the extraction of slices gets the size of
  the message plus one, since every round but the last shortens the message; fetching from the
  mailbox and the loop over the cache get the number of elements plus one; the message loop gets the
  throughput bound the scheduler passes; the resume theorem shows that these never run out; reading a
  message gets the number of bytes plus one, and it is shown that it never runs out. Words
  have the width of the source; the binary format is that of a little-endian host. Numbers in
  floating point conversion are exact rationals, rounded where the code rounds.

  \<^bold>\<open>Not modelled\<close>

  Threads, scheduling and work stealing (scheduler, policy), the condition variables of blocking
  actors and of the registry, sockets and the multiplexers (io/network, asio), logging, the creation
  of the local node id from hardware addresses, reference counting and memory management, and the
  template machinery that computes types at compile time (type lists, typed actors, spawn): these
  are operating system calls or have no run-time behavior of their own. Groups, actor pools, streams
  of strings and the middleman are left for later extension. An exception that leaves a handler of the
  broker is an error value; the termination of the broker that follows is not modelled,
  nor the part of a message that an exception during its serialization leaves in a write buffer. Round
  trips of values exclude floating point numbers other than zero and normal ones, and in messages
  floating point numbers, non-null handles, channels, groups and user-defined types. The progress theorem
  of resume excludes priority-aware actors. Node ids are compared by the equality of the logic in the
  keys of maps.
\<close>

end
